(* ===== verification/Prelude.thy ===== *)
theory Prelude
  imports Main "HOL-Library.AList" "HOL-Library.Monad_Syntax"
begin

text \<open>
  Shared ground of the development: Go maps as association lists, loops that may fail to
  return as folds in the option monad, and the generic lemmas the components use.

  A Go map is an association list with distinct keys (\<open>gomap\<close>). The order of the list
  stands for the order in which a \<open>range\<close> loop visits the entries; Go leaves that order
  open, and so do the theorems, which hold for every list that satisfies the component's
  invariant. \<open>map_of\<close> is the lookup \<open>m[k]\<close>, \<open>AList.update\<close> the assignment
  \<open>m[k] = v\<close>, \<open>AList.delete\<close> the builtin \<open>delete(m, k)\<close>.
\<close>

section \<open>Go maps\<close>

type_synonym ('k, 'v) gomap = "('k \<times> 'v) list"

abbreviation go_get :: "('k, 'v) gomap \<Rightarrow> 'k \<Rightarrow> 'v option" where
  "go_get \<equiv> map_of"

abbreviation go_put :: "'k \<Rightarrow> 'v \<Rightarrow> ('k, 'v) gomap \<Rightarrow> ('k, 'v) gomap" where
  "go_put \<equiv> AList.update"

abbreviation go_del :: "'k \<Rightarrow> ('k, 'v) gomap \<Rightarrow> ('k, 'v) gomap" where
  "go_del \<equiv> AList.delete"

abbreviation go_keys :: "('k, 'v) gomap \<Rightarrow> 'k list" where
  "go_keys \<equiv> map fst"

named_theorems gomap_simps \<open>lookup, keys and membership after an assignment or a deletion\<close>

lemma go_get_put [gomap_simps]:
  "go_get (go_put k v m) k' = (if k' = k then Some v else go_get m k')"
  by (simp add: update_conv')

lemma go_get_del [gomap_simps]:
  "go_get (go_del k m) k' = (if k' = k then None else go_get m k')"
  by (simp add: delete_conv')

lemma go_keys_put [simp, intro]: "distinct (go_keys m) \<Longrightarrow> distinct (go_keys (go_put k v m))"
  by (rule distinct_update)

lemma go_keys_del [simp, intro]: "distinct (go_keys m) \<Longrightarrow> distinct (go_keys (go_del k m))"
  by (rule distinct_delete)

lemma go_get_in_set: "go_get m k = Some v \<Longrightarrow> (k, v) \<in> set m"
  by (rule map_of_SomeD)

lemma go_in_set_get: "distinct (go_keys m) \<Longrightarrow> (k, v) \<in> set m \<Longrightarrow> go_get m k = Some v"
  by (rule map_of_is_SomeI)

lemma go_in_set_iff: "distinct (go_keys m) \<Longrightarrow> (k, v) \<in> set m \<longleftrightarrow> go_get m k = Some v"
  by (auto dest: map_of_SomeD)

lemma go_put_fresh: "k \<notin> set (go_keys m) \<Longrightarrow> go_put k v m = m @ [(k, v)]"
  by (induction m) auto

lemma go_put_values: "set (map snd (go_put k v m)) \<subseteq> insert v (set (map snd m))"
  by (induction m) auto

lemma go_del_subset: "set (go_del k m) \<subseteq> set m"
  by (auto simp: AList.delete_eq)

text \<open>Membership after an update of a list.\<close>

lemma in_update:
  "x \<in> set (xs[i := y]) \<Longrightarrow> x = y \<or> x \<in> set xs" "x \<in> set xs \<Longrightarrow> x \<noteq> xs ! i \<Longrightarrow> x \<in> set (xs[i := y])"
proof -
  show "x \<in> set (xs[i := y]) \<Longrightarrow> x = y \<or> x \<in> set xs" by (auto dest: set_update_subset_insert [THEN subsetD])
  assume "x \<in> set xs" "x \<noteq> xs ! i"
  then obtain j where "j < length xs" "xs ! j = x" "j \<noteq> i" by (auto simp: in_set_conv_nth)
  then show "x \<in> set (xs[i := y])" by (metis length_list_update nth_list_update_neq nth_mem)
qed

section \<open>Loops in the option monad\<close>

text \<open>
  \<open>foldM f xs s\<close> runs the body \<open>f\<close> on the elements of \<open>xs\<close> in turn, threading the state;
  \<open>None\<close> is a body that does not return. \<open>returns m Q\<close> says that \<open>m\<close> returns and that its
  result satisfies \<open>Q\<close>: total correctness.
\<close>

primrec foldM :: "('a \<Rightarrow> 's \<Rightarrow> 's option) \<Rightarrow> 'a list \<Rightarrow> 's \<Rightarrow> 's option" where
  "foldM f [] s = Some s"
| "foldM f (x # xs) s = (case f x s of None \<Rightarrow> None | Some s' \<Rightarrow> foldM f xs s')"

definition returns :: "'a option \<Rightarrow> ('a \<Rightarrow> bool) \<Rightarrow> bool" where
  "returns m Q \<longleftrightarrow> (case m of None \<Rightarrow> False | Some x \<Rightarrow> Q x)"

lemma returns_Some [simp]: "returns (Some x) Q = Q x"
  by (simp add: returns_def)

lemma returns_None [simp]: "\<not> returns None Q"
  by (simp add: returns_def)

lemma returns_iff: "returns m Q \<longleftrightarrow> (\<exists>x. m = Some x \<and> Q x)"
  by (cases m) auto

lemma returnsE: "returns m Q \<Longrightarrow> (\<And>x. m = Some x \<Longrightarrow> Q x \<Longrightarrow> thesis) \<Longrightarrow> thesis"
  by (auto simp: returns_iff)

lemma returnsD: "returns m Q \<Longrightarrow> m = Some x \<Longrightarrow> Q x"
  by simp

lemma returns_mono: "returns m Q \<Longrightarrow> (\<And>x. Q x \<Longrightarrow> Q' x) \<Longrightarrow> returns m Q'"
  by (auto simp: returns_iff)

lemma foldM_append:
  "foldM f (xs @ ys) s = (case foldM f xs s of None \<Rightarrow> None | Some s' \<Rightarrow> foldM f ys s')"
  by (induction xs arbitrary: s) (auto split: option.splits)

lemma foldM_cong [fundef_cong]:
  "xs = ys \<Longrightarrow> s = t \<Longrightarrow> (\<And>x u. x \<in> set ys \<Longrightarrow> f x u = g x u) \<Longrightarrow> foldM f xs s = foldM g ys t"
  by (induction xs arbitrary: s t ys) (auto split: option.splits)

text \<open>A loop invariant indexed by the elements already done.\<close>

lemma foldM_returns:
  assumes "\<And>done x rest s. xs = done @ x # rest \<Longrightarrow> P done s \<Longrightarrow> returns (f x s) (P (done @ [x]))"
    and "P [] s"
  shows "returns (foldM f xs s) (P xs)"
proof -
  have "\<And>done s. xs = done @ ys \<Longrightarrow> P done s \<Longrightarrow> returns (foldM f ys s) (P xs)" for ys
  proof (induction ys)
    case Nil
    then show ?case by simp
  next
    case (Cons y ys)
    from assms(1) [OF Cons.prems] obtain s' where "f y s = Some s'" "P (done @ [y]) s'"
      by (auto simp: returns_iff)
    with Cons show ?case by simp
  qed
  from this [of "[]" xs s] assms(2) show ?thesis by simp
qed

lemma foldM_returns_inv:
  assumes "\<And>x s. x \<in> set xs \<Longrightarrow> P s \<Longrightarrow> returns (f x s) P" and "P s"
  shows "returns (foldM f xs s) P"
  by (rule foldM_returns [where P = "\<lambda>_. P"]) (use assms in auto)

text \<open>The results of a body that may fail to return, in order: \<open>for i, x := range xs { ys[i] = f(x) }\<close>.\<close>

primrec mapM :: "('a \<Rightarrow> 'b option) \<Rightarrow> 'a list \<Rightarrow> 'b list option" where
  "mapM f [] = Some []"
| "mapM f (x # xs) = (case f x of None \<Rightarrow> None | Some y \<Rightarrow> map_option ((#) y) (mapM f xs))"

lemma mapM_Some: "(\<And>x. x \<in> set xs \<Longrightarrow> f x = Some (g x)) \<Longrightarrow> mapM f xs = Some (map g xs)"
  by (induction xs) auto

lemma mapM_cong [fundef_cong]: "xs = ys \<Longrightarrow> (\<And>x. x \<in> set ys \<Longrightarrow> f x = g x) \<Longrightarrow> mapM f xs = mapM g ys"
proof -
  have "(\<And>x. x \<in> set ys \<Longrightarrow> f x = g x) \<Longrightarrow> mapM f ys = mapM g ys"
    by (induction ys) (simp_all split: option.split)
  then show "xs = ys \<Longrightarrow> (\<And>x. x \<in> set ys \<Longrightarrow> f x = g x) \<Longrightarrow> mapM f xs = mapM g ys" by blast
qed

text \<open>Filling a Go map with fresh keys lists the entries in the order of the loop.\<close>

lemma foldM_go_put:
  assumes "\<And>x. x \<in> set xs \<Longrightarrow> f x = Some (g x)"
    and "distinct (map k xs)" "set (map k xs) \<inter> set (go_keys m) = {}"
  shows "foldM (\<lambda>x m. case f x of None \<Rightarrow> None | Some y \<Rightarrow> Some (go_put (k x) y m)) xs m =
    Some (m @ map (\<lambda>x. (k x, g x)) xs)"
  using assms
proof (induction xs arbitrary: m)
  case Nil
  show ?case by simp
next
  case (Cons x xs)
  from Cons.prems(3) have "go_put (k x) (g x) m = m @ [(k x, g x)]" by (intro go_put_fresh) auto
  with Cons.prems show ?case by (simp add: Cons.IH image_iff)
qed

section \<open>Folds\<close>

lemma fold_inv: "P s \<Longrightarrow> (\<And>x s. x \<in> set xs \<Longrightarrow> P s \<Longrightarrow> P (f x s)) \<Longrightarrow> P (fold f xs s)"
  by (induction xs arbitrary: s) auto

lemma sum_list_cong: "(\<And>x. x \<in> set xs \<Longrightarrow> f x = g x) \<Longrightarrow> sum_list (map f xs) = sum_list (map g xs)"
  by (metis map_eq_conv)

lemma list_all_upt_eq:
  "length xs = length ys \<Longrightarrow> (\<forall>i < length xs. xs ! i = ys ! i) \<longleftrightarrow> xs = ys"
  by (auto simp: list_eq_iff_nth_eq)

end
