(* ===== verification/Keys.thy ===== *)
theory Keys
  imports Prelude
begin

text \<open>
  \<open>internal/gvk.go\<close>, the \<open>ObjectKey\<close> of \<open>store/store.go\<close> and the LRU key of \<open>cache/cache.go\<close>: the
  names the cache files objects under. \<open>GroupVersionKind\<close> and \<open>GroupVersionResource\<close> are plain structs of
  the Kubernetes API machinery; only their fields are used.
\<close>

record gvk =
  gvk_group :: string
  gvk_version :: string
  gvk_kind :: string

record gvr =
  gvr_group :: string
  gvr_version :: string
  gvr_resource :: string

record object_key =
  key_gvk :: gvk
  key_namespace :: string
  key_name :: string

section \<open>GVK helpers\<close>

definition GVKToString :: "gvk \<Rightarrow> string" where
  "GVKToString g =
     (if gvk_group g = '''' then gvk_version g @ ''/'' @ gvk_kind g
      else gvk_group g @ ''/'' @ gvk_version g @ ''/'' @ gvk_kind g)"

text \<open>\<open>strings.ToLower\<close> on ASCII, which the kinds of the Kubernetes API are written in.\<close>

definition lower_char :: "char \<Rightarrow> char" where
  "lower_char c = (if 65 \<le> (of_char c :: nat) \<and> (of_char c :: nat) \<le> 90 then char_of ((of_char c :: nat) + 32) else c)"

definition to_lower :: "string \<Rightarrow> string" where
  "to_lower s = map lower_char s"

definition GVRFromGVK :: "gvk \<Rightarrow> gvr" where
  "GVRFromGVK g = \<lparr>gvr_group = gvk_group g, gvr_version = gvk_version g, gvr_resource = to_lower (gvk_kind g) @ ''s''\<rparr>"

definition lruKey :: "gvk \<Rightarrow> string \<Rightarrow> string \<Rightarrow> string" where
  "lruKey g ns name = gvk_group g @ ''/'' @ gvk_version g @ ''/'' @ gvk_kind g @ ''/'' @ ns @ ''/'' @ name"

section \<open>Joining with a separator\<close>

definition slash_free :: "string \<Rightarrow> bool" where
  "slash_free s \<longleftrightarrow> CHR ''/'' \<notin> set s"

definition gvk_slash_free :: "gvk \<Rightarrow> bool" where
  "gvk_slash_free g \<longleftrightarrow> slash_free (gvk_group g) \<and> slash_free (gvk_version g) \<and> slash_free (gvk_kind g)"

lemma slash_split:
  "slash_free a \<Longrightarrow> slash_free b \<Longrightarrow> a @ CHR ''/'' # x = b @ CHR ''/'' # y \<longleftrightarrow> a = b \<and> x = y"
proof (induction a arbitrary: b)
  case Nil
  then show ?case by (cases b) (auto simp: slash_free_def)
next
  case (Cons c a)
  then show ?case by (cases b) (auto simp: slash_free_def)
qed

lemma slash_split_last:
  "slash_free b \<Longrightarrow> a @ CHR ''/'' # x \<noteq> b" "slash_free b \<Longrightarrow> b \<noteq> a @ CHR ''/'' # x"
  by (auto simp: slash_free_def)

lemma lruKey_inject:
  assumes "gvk_slash_free g" "gvk_slash_free h" "slash_free ns" "slash_free ns'"
  shows "lruKey g ns name = lruKey h ns' name' \<longleftrightarrow> g = h \<and> ns = ns' \<and> name = name'"
  using assms by (simp add: lruKey_def gvk_slash_free_def slash_split) (auto intro: gvk.equality)

lemma GVKToString_inject:
  assumes "gvk_slash_free g" "gvk_slash_free h"
  shows "GVKToString g = GVKToString h \<longleftrightarrow> g = h"
  using assms
  by (simp add: GVKToString_def gvk_slash_free_def slash_split slash_split_last) (auto intro: gvk.equality)

end
