(* ===== verification/Go_Values.thy ===== *)
theory Go_Values
  imports Prelude "HOL-Library.Word"
begin

unbundle bit_operations_syntax

text \<open>
  The values the store is given: what the dynamic type of a Go \<open>interface{}\<close> can be
  (\<open>iface\<close>), the JSON-like trees of an \<open>Unstructured\<close> object (\<open>gval\<close>), the equality Go uses
  for interface values as map keys, and the abstract value (\<open>aval\<close>) a tree denotes. Numbers keep their
  width; a float64 is its 64-bit IEEE 754 pattern, because map lookup distinguishes NaN and does not
  distinguish the two zeros.
\<close>

section \<open>Interface values and trees\<close>

text \<open>
  \<open>IOther s\<close> is a value of any dynamic type the type switches do not list; all the code does
  with it is render it with \<open>fmt.Sprintf("%v", t)\<close>, so it carries that rendering. \<open>int\<close> and
  \<open>uint\<close> are 64 bits wide, as on every 64-bit platform.
\<close>

datatype iface =
    INil
  | IString string
  | IInt64 "64 word"
  | IFloat64 "64 word"
  | IBool bool
  | IInt "64 word"
  | IInt32 "32 word"
  | IUint "64 word"
  | IUint32 "32 word"
  | IUint64 "64 word"
  | IOther string

datatype gval =
    Scalar iface
  | GMap "(string, gval) gomap"
  | GSlice "gval list"

text \<open>The content of an \<open>Unstructured\<close>.\<close>

type_synonym gobj = "(string, gval) gomap"

text \<open>The conversions of the type switches: \<open>int64(t)\<close> sign-extends, zero-extends or keeps the bits.\<close>

fun normalise :: "iface \<Rightarrow> iface" where
  "normalise (IInt w) = IInt64 w"
| "normalise (IInt32 w) = IInt64 (scast w)"
| "normalise (IUint w) = IInt64 w"
| "normalise (IUint32 w) = IInt64 (ucast w)"
| "normalise (IUint64 w) = IInt64 w"
| "normalise (IOther s) = IString s"
| "normalise v = v"

fun canonical :: "iface \<Rightarrow> bool" where
  "canonical (IString s) = True"
| "canonical (IInt64 w) = True"
| "canonical (IFloat64 w) = True"
| "canonical (IBool b) = True"
| "canonical _ = False"

lemma canonical_normalise: "v \<noteq> INil \<Longrightarrow> canonical (normalise v)"
  by (cases v) auto

lemma normalise_canonical [simp]: "canonical v \<Longrightarrow> normalise v = v"
  by (cases v) auto

section \<open>IEEE 754 equality and interface equality\<close>

definition is_nan :: "64 word \<Rightarrow> bool" where
  "is_nan x \<longleftrightarrow> x AND 0x7FF0000000000000 = 0x7FF0000000000000 \<and> x AND 0x000FFFFFFFFFFFFF \<noteq> 0"

definition is_zero :: "64 word \<Rightarrow> bool" where
  "is_zero x \<longleftrightarrow> x AND 0x7FFFFFFFFFFFFFFF = 0"

definition float_eq :: "64 word \<Rightarrow> 64 word \<Rightarrow> bool" where
  "float_eq x y \<longleftrightarrow> \<not> is_nan x \<and> \<not> is_nan y \<and> (x = y \<or> is_zero x \<and> is_zero y)"

fun nan_value :: "iface \<Rightarrow> bool" where
  "nan_value (IFloat64 x) = is_nan x"
| "nan_value _ = False"

definition iface_eq :: "iface \<Rightarrow> iface \<Rightarrow> bool" where
  "iface_eq a b = (case (a, b) of (IFloat64 x, IFloat64 y) \<Rightarrow> float_eq x y | _ \<Rightarrow> a = b)"

lemma zero_not_nan: "is_zero x \<Longrightarrow> \<not> is_nan x"
proof
  assume z: "is_zero x" and n: "is_nan x"
  have "x AND 0x7FF0000000000000 = (x AND 0x7FFFFFFFFFFFFFFF) AND 0x7FF0000000000000"
    by (simp add: and.assoc)
  with z have "x AND 0x7FF0000000000000 = 0" by (simp add: is_zero_def)
  with n show False by (simp add: is_nan_def)
qed

lemma iface_eq_sym: "iface_eq a b = iface_eq b a"
  by (auto simp: iface_eq_def float_eq_def split: iface.splits)

lemma iface_eq_trans: "iface_eq a b \<Longrightarrow> iface_eq b c \<Longrightarrow> iface_eq a c"
  by (auto simp: iface_eq_def float_eq_def split: iface.splits)

lemma iface_eq_refl [simp]: "iface_eq a a \<longleftrightarrow> \<not> nan_value a"
  by (cases a) (auto simp: iface_eq_def float_eq_def)

lemma iface_eq_not_nan: "iface_eq a b \<Longrightarrow> \<not> nan_value a \<and> \<not> nan_value b"
  by (cases a; cases b) (auto simp: iface_eq_def float_eq_def)

lemma iface_eq_string [simp]: "iface_eq (IString s) v \<longleftrightarrow> v = IString s"
  by (cases v) (auto simp: iface_eq_def)

section \<open>What a value denotes\<close>

datatype aval =
    ANil
  | AString string
  | AInt "64 word"
  | AFloat "64 word"
  | ABool bool
  | AMap "string \<Rightarrow> aval option"
  | ASlice "aval list"

definition float_sem :: "64 word \<Rightarrow> 64 word" where
  "float_sem x = (if is_zero x then 0 else x)"

fun scalar_sem :: "iface \<Rightarrow> aval" where
  "scalar_sem INil = ANil"
| "scalar_sem (IString s) = AString s"
| "scalar_sem (IInt64 w) = AInt w"
| "scalar_sem (IFloat64 x) = AFloat (float_sem x)"
| "scalar_sem (IBool b) = ABool b"
| "scalar_sem (IInt w) = AInt w"
| "scalar_sem (IInt32 w) = AInt (scast w)"
| "scalar_sem (IUint w) = AInt w"
| "scalar_sem (IUint32 w) = AInt (ucast w)"
| "scalar_sem (IUint64 w) = AInt w"
| "scalar_sem (IOther s) = AString s"

primrec sem :: "gval \<Rightarrow> aval" where
  "sem (Scalar v) = scalar_sem v"
| "sem (GMap kvs) = AMap (map_of (map (map_prod id sem) kvs))"
| "sem (GSlice xs) = ASlice (map sem xs)"

lemma scalar_sem_normalise [simp]: "scalar_sem (normalise v) = scalar_sem v"
  by (cases v) auto

lemma nan_normalise [simp]: "nan_value (normalise v) = nan_value v"
  by (cases v) auto

lemma float_eq_sem: "\<not> is_nan x \<Longrightarrow> \<not> is_nan y \<Longrightarrow> float_eq x y \<longleftrightarrow> float_sem x = float_sem y"
  by (auto simp: float_eq_def float_sem_def is_zero_def)

lemma float_sem_nan: "is_nan x \<Longrightarrow> float_sem x = float_sem y \<Longrightarrow> is_nan y"
  using zero_not_nan by (auto simp: float_sem_def is_nan_def split: if_splits)

lemma nan_sem: "scalar_sem v = scalar_sem w \<Longrightarrow> nan_value v \<longleftrightarrow> nan_value w"
  using float_sem_nan by (cases v; cases w) (auto dest: sym)

text \<open>On the values the pool holds, interface equality is equality of meaning, NaN apart.\<close>

lemma iface_eq_iff_sem:
  assumes "canonical a" "canonical b" "\<not> nan_value a"
  shows "iface_eq a b \<longleftrightarrow> scalar_sem a = scalar_sem b"
proof (cases "\<exists>x y. a = IFloat64 x \<and> b = IFloat64 y")
  case True
  then obtain x y where ab: "a = IFloat64 x" "b = IFloat64 y" by blast
  with assms(3) have x: "\<not> is_nan x" by simp
  show ?thesis
  proof (cases "is_nan y")
    case True
    with x float_sem_nan [of y x] show ?thesis by (auto simp: ab iface_eq_def float_eq_def)
  next
    case False
    with x show ?thesis by (simp add: ab iface_eq_def float_eq_sem)
  qed
next
  case False
  with assms(1,2) show ?thesis by (cases a; cases b) (auto simp: iface_eq_def)
qed

lemma iface_eq_sem: "canonical a \<Longrightarrow> canonical b \<Longrightarrow> iface_eq a b \<Longrightarrow> scalar_sem a = scalar_sem b"
  using iface_eq_iff_sem iface_eq_not_nan by blast

section \<open>Well-formed and NaN-free trees\<close>

text \<open>Go maps have distinct keys at every level.\<close>

primrec tree_ok :: "gval \<Rightarrow> bool" where
  "tree_ok (Scalar v) = True"
| "tree_ok (GMap kvs) = (distinct (go_keys kvs) \<and> list_all (pred_prod (\<lambda>_. True) tree_ok) kvs)"
| "tree_ok (GSlice xs) = list_all tree_ok xs"

primrec nan_free :: "gval \<Rightarrow> bool" where
  "nan_free (Scalar v) = (\<not> nan_value v)"
| "nan_free (GMap kvs) = list_all (pred_prod (\<lambda>_. True) nan_free) kvs"
| "nan_free (GSlice xs) = list_all nan_free xs"

end
