(* ===== verification/Intern_Pool.thy ===== *)
theory Intern_Pool
  imports Prelude
begin

text \<open>
  The contract the two interning pools (\<open>store/intern.go\<close>, \<open>store/subtree.go\<close>) give to the
  store: \<open>Intern\<close> returns an identifier that resolves to what was interned, leaves every identifier
  in use resolving as before, and returns the identifier in use when there is one. \<open>same r v\<close> says
  that the resolved entry \<open>r\<close> stands for the value \<open>v\<close>; \<open>stable v\<close> excludes the values that no
  lookup can find again (NaN). The lemmas are proved once from the contract.
\<close>

locale intern_pool =
  fixes intern :: "'v \<Rightarrow> 'p \<Rightarrow> nat \<times> 'p"
    and resolve :: "'p \<Rightarrow> nat \<Rightarrow> 'r"
    and has :: "'p \<Rightarrow> nat \<Rightarrow> bool"
    and inv :: "'p \<Rightarrow> bool"
    and adm :: "'v \<Rightarrow> bool"
    and stable :: "'v \<Rightarrow> bool"
    and same :: "'r \<Rightarrow> 'v \<Rightarrow> bool"
  assumes intern_inv: "inv p \<Longrightarrow> adm v \<Longrightarrow> inv (snd (intern v p))"
    and intern_has: "inv p \<Longrightarrow> adm v \<Longrightarrow> has (snd (intern v p)) (fst (intern v p))"
    and intern_same: "inv p \<Longrightarrow> adm v \<Longrightarrow> same (resolve (snd (intern v p)) (fst (intern v p))) v"
    and intern_keeps: "inv p \<Longrightarrow> adm v \<Longrightarrow> has p i \<Longrightarrow> has (snd (intern v p)) i"
    and intern_frame: "inv p \<Longrightarrow> adm v \<Longrightarrow> has p i \<Longrightarrow> resolve (snd (intern v p)) i = resolve p i"
    and intern_reuse: "inv p \<Longrightarrow> adm v \<Longrightarrow> stable v \<Longrightarrow> has p i \<Longrightarrow> same (resolve p i) v \<Longrightarrow> intern v p = (i, p)"
begin

text \<open>\<open>ext p q\<close>: the pool \<open>q\<close> is a later state of \<open>p\<close> with no collection in between.\<close>

definition ext :: "'p \<Rightarrow> 'p \<Rightarrow> bool" where
  "ext p q \<longleftrightarrow> inv q \<and> (\<forall>i. has p i \<longrightarrow> has q i \<and> resolve q i = resolve p i)"

lemma ext_refl: "inv p \<Longrightarrow> ext p p"
  by (simp add: ext_def)

lemma ext_trans: "ext p q \<Longrightarrow> ext q r \<Longrightarrow> ext p r"
  by (auto simp: ext_def)

lemma ext_intern: "inv p \<Longrightarrow> adm v \<Longrightarrow> ext p (snd (intern v p))"
  by (auto simp: ext_def intern_inv intern_keeps intern_frame)

lemma ext_interns: "inv p \<Longrightarrow> (\<forall>w\<in>set ws. adm w) \<Longrightarrow> ext p (fold (\<lambda>w q. snd (intern w q)) ws p)"
proof (induction ws arbitrary: p)
  case Nil
  then show ?case by (simp add: ext_refl)
next
  case (Cons w ws)
  from Cons.prems have "ext p (snd (intern w p))" by (simp add: ext_intern)
  moreover from Cons have "ext (snd (intern w p)) (fold (\<lambda>w q. snd (intern w q)) ws (snd (intern w p)))"
    by (simp add: intern_inv)
  ultimately show ?case by (auto intro: ext_trans)
qed

text \<open>A value keeps its identifier, whatever is interned in between, and costs nothing the second time.\<close>

lemma intern_again:
  assumes "inv p" "adm v" "stable v" "ext (snd (intern v p)) q"
  shows "intern v q = (fst (intern v p), q)"
proof (rule intern_reuse)
  from assms(4) intern_has [OF assms(1,2)] show "has q (fst (intern v p))"
    by (simp add: ext_def)
  from assms(4) intern_has [OF assms(1,2)] intern_same [OF assms(1,2)]
  show "same (resolve q (fst (intern v p))) v"
    by (simp add: ext_def)
qed (use assms in \<open>simp_all add: ext_def\<close>)

lemma intern_stable_under_interns:
  assumes "inv p" "adm v" "stable v" "\<forall>w\<in>set ws. adm w"
  shows "let q = fold (\<lambda>w q. snd (intern w q)) ws (snd (intern v p)) in intern v q = (fst (intern v p), q)"
  unfolding Let_def
  by (rule intern_again) (use assms in \<open>auto intro!: ext_interns intern_inv\<close>)

text \<open>Values that get the same identifier are the same as the one entry it resolves to.\<close>

lemma intern_ids_same:
  assumes "inv p" "adm v" "adm w" "ext (snd (intern v p)) q" "fst (intern w q) = fst (intern v p)"
  shows "\<exists>r. same r v \<and> same r w"
proof -
  let ?i = "fst (intern v p)" and ?q = "snd (intern w q)"
  from assms(4) have q: "inv q" by (simp add: ext_def)
  from assms(4) intern_has [OF assms(1,2)] intern_frame [OF q assms(3)]
  have "resolve ?q ?i = resolve (snd (intern v p)) ?i" by (simp add: ext_def)
  moreover have "same (resolve ?q ?i) w"
    using intern_same [OF q assms(3)] assms(5) by simp
  ultimately show ?thesis using intern_same [OF assms(1,2)] by metis
qed

end

end
