(* ===== verification/Double_Check.thy ===== *)
theory Double_Check
  imports Prelude "HOL-Library.Multiset"
begin

text \<open>
  The locking pattern that \<open>ValueInternPool.Intern\<close>, \<open>SubtreeInternPool.Intern\<close> and \<open>InformerMap.GetOrCreate\<close> share. A caller looks under the
  read lock; if it finds nothing it releases the lock, takes the write lock and looks again before it inserts. Between the two locks any other caller may run, so a
  call is two steps, and the calls of several goroutines interleave. The contract \<open>double_checked\<close> is what makes this safe, and the result is that every interleaving is a sequence of
  atomic calls.
\<close>

datatype ('k, 'v) dc_call = Looks 'k | Missed 'k | Returned 'k 'v

text \<open>One step of one of the callers; the state is the shared structure with the calls.\<close>

inductive dc_step ::
    "('k \<Rightarrow> 's \<Rightarrow> 'v option) \<Rightarrow> ('k \<Rightarrow> 's \<Rightarrow> 'v \<times> 's) \<Rightarrow> 's \<times> ('k, 'v) dc_call list \<Rightarrow> 's \<times> ('k, 'v) dc_call list \<Rightarrow> bool"
  for lookup slow where
  fast_hit: "i < length ts \<Longrightarrow> ts ! i = Looks k \<Longrightarrow> lookup k s = Some v \<Longrightarrow> dc_step lookup slow (s, ts) (s, ts[i := Returned k v])"
| fast_miss: "i < length ts \<Longrightarrow> ts ! i = Looks k \<Longrightarrow> lookup k s = None \<Longrightarrow> dc_step lookup slow (s, ts) (s, ts[i := Missed k])"
| slow_path: "i < length ts \<Longrightarrow> ts ! i = Missed k \<Longrightarrow> slow k s = (v, s') \<Longrightarrow> dc_step lookup slow (s, ts) (s', ts[i := Returned k v])"

definition dc_reaches ::
    "('k \<Rightarrow> 's \<Rightarrow> 'v option) \<Rightarrow> ('k \<Rightarrow> 's \<Rightarrow> 'v \<times> 's) \<Rightarrow> 'k list \<Rightarrow> 's \<Rightarrow> 's \<times> ('k, 'v) dc_call list \<Rightarrow> bool" where
  "dc_reaches lookup slow ks s = (dc_step lookup slow)\<^sup>*\<^sup>* (s, map Looks ks)"

text \<open>A call as if it were atomic, and a sequence of them with the results.\<close>

definition dc_atomic :: "('k \<Rightarrow> 's \<Rightarrow> 'v option) \<Rightarrow> ('k \<Rightarrow> 's \<Rightarrow> 'v \<times> 's) \<Rightarrow> 'k \<Rightarrow> 's \<Rightarrow> 'v \<times> 's" where
  "dc_atomic lookup slow k s = (case lookup k s of Some v \<Rightarrow> (v, s) | None \<Rightarrow> slow k s)"

fun sequential :: "('k \<Rightarrow> 's \<Rightarrow> 'v \<times> 's) \<Rightarrow> 'k list \<Rightarrow> 's \<Rightarrow> ('k \<times> 'v) list \<times> 's" where
  "sequential f [] s = ([], s)"
| "sequential f (k # ks) s = (let (v, s1) = f k s; (rs, s2) = sequential f ks s1 in ((k, v) # rs, s2))"

lemma sequential_keys [simp]: "map fst (fst (sequential f ks s)) = ks"
  by (induction ks arbitrary: s) (simp_all add: Let_def split_beta)

lemma sequential_cong: "(\<And>k. k \<in> set ks \<Longrightarrow> f k = g k) \<Longrightarrow> sequential f ks s = sequential g ks s"
  by (induction ks arbitrary: s) auto

fun result_of :: "('k, 'v) dc_call \<Rightarrow> ('k \<times> 'v) list" where
  "result_of (Returned k v) = [(k, v)]"
| "result_of _ = []"

definition results :: "('k, 'v) dc_call list \<Rightarrow> ('k \<times> 'v) list" where
  "results ts = concat (map result_of ts)"

lemma sequential_snoc:
  "sequential f (ks @ [k]) s = (let (rs, s1) = sequential f ks s; (v, s2) = f k s1 in (rs @ [(k, v)], s2))"
  by (induction ks arbitrary: s) (auto split: prod.splits)

lemma results_update:
  assumes "i < length ts" "result_of (ts ! i) = []"
  shows "mset (results (ts[i := t])) = mset (results ts) + mset (result_of t)"
  using assms
proof (induction ts arbitrary: i)
  case (Cons x ts)
  then show ?case by (cases i) (auto simp: results_def)
qed simp

fun call_key :: "('k, 'v) dc_call \<Rightarrow> 'k" where
  "call_key (Looks k) = k"
| "call_key (Missed k) = k"
| "call_key (Returned k v) = k"

lemma results_Returned: "(k, v) \<in> set (results ts) \<longleftrightarrow> Returned k v \<in> set ts"
proof -
  have "(k, v) \<in> set (result_of t) \<longleftrightarrow> t = Returned k v" for t by (cases t) auto
  then show ?thesis by (auto simp: results_def)
qed

lemma dc_step_keys: "dc_step lookup slow p q \<Longrightarrow> map call_key (snd q) = map call_key (snd p)"
  by (induction rule: dc_step.induct) (auto simp: map_update list_update_same_conv)

text \<open>Two callers that both miss: the second to take the write lock finds what the first has inserted.\<close>

lemma two_race:
  assumes "lookup k s = None" "lookup k' s = None" "slow k s = (v, s')" "slow k' s' = (v', s'')"
  shows "dc_reaches lookup slow [k, k'] s (s'', [Returned k v, Returned k' v'])"
proof -
  have "dc_step lookup slow (s, [Looks k, Looks k']) (s, [Missed k, Looks k'])"
    using fast_miss [of 0 "[Looks k, Looks k']" k lookup s slow] assms(1) by simp
  moreover have "dc_step lookup slow (s, [Missed k, Looks k']) (s, [Missed k, Missed k'])"
    using fast_miss [of 1 "[Missed k, Looks k']" k' lookup s slow] assms(2) by simp
  moreover have "dc_step lookup slow (s, [Missed k, Missed k']) (s', [Returned k v, Missed k'])"
    using slow_path [of 0 "[Missed k, Missed k']" k slow s v s' lookup] assms(3) by simp
  moreover have "dc_step lookup slow (s', [Returned k v, Missed k']) (s'', [Returned k v, Returned k' v'])"
    using slow_path [of 1 "[Returned k v, Missed k']" k' slow s' v' s'' lookup] assms(4) by simp
  ultimately show ?thesis
    by (auto simp: dc_reaches_def intro: converse_rtranclp_into_rtranclp)
qed

text \<open>Two calls of a list give two of its results.\<close>

lemma results_append [simp]: "results (xs @ ys) = results xs @ results ys"
  by (simp add: results_def)

lemma results_Cons [simp]: "results (t # ts) = result_of t @ results ts"
  by (simp add: results_def)

lemma results_two:
  assumes "k < l" "l < length ts" "ts ! k = Returned v i" "ts ! l = Returned w j"
  shows "\<exists>xs ys. results ts = xs @ (v, i) # ys \<and> (w, j) \<in> set ys"
proof -
  have "drop (Suc k) ts ! (l - Suc k) = ts ! l" "l - Suc k < length (drop (Suc k) ts)"
    using assms(1,2) by auto
  then have "ts ! l \<in> set (drop (Suc k) ts)" by (metis nth_mem)
  moreover have "ts = take k ts @ Returned v i # drop (Suc k) ts"
    using assms(1-3) id_take_nth_drop [of k ts] by simp
  then have "results ts = results (take k ts) @ (v, i) # results (drop (Suc k) ts)"
    by (metis results_append results_Cons result_of.simps(1) append_Cons append_Nil)
  ultimately show ?thesis using assms(4) by (metis results_Returned)
qed

text \<open>
  A key is \<open>stable\<close> when a lookup finds again what a call has returned for it; an interning pool has a key that is not, NaN.
\<close>

locale double_checked =
  fixes lookup :: "'k \<Rightarrow> 's \<Rightarrow> 'v option"
    and slow :: "'k \<Rightarrow> 's \<Rightarrow> 'v \<times> 's"
    and inv :: "'s \<Rightarrow> bool"
    and adm :: "'k \<Rightarrow> bool"
    and stable :: "'k \<Rightarrow> bool"
  assumes slow_hit: "inv s \<Longrightarrow> adm k \<Longrightarrow> lookup k s = Some v \<Longrightarrow> slow k s = (v, s)"
    and slow_inv: "inv s \<Longrightarrow> adm k \<Longrightarrow> inv (snd (slow k s))"
    and slow_finds: "inv s \<Longrightarrow> adm k \<Longrightarrow> stable k \<Longrightarrow> lookup k (snd (slow k s)) = Some (fst (slow k s))"
    and slow_keeps: "inv s \<Longrightarrow> adm k \<Longrightarrow> adm k' \<Longrightarrow> stable k' \<Longrightarrow> lookup k' s = Some v \<Longrightarrow> lookup k' (snd (slow k s)) = Some v"
begin

lemma slow_atomic: "inv s \<Longrightarrow> adm k \<Longrightarrow> slow k s = dc_atomic lookup slow k s"
  using slow_hit by (auto simp: dc_atomic_def split: option.split)

text \<open>What holds at every moment: the results are those of atomic calls in some order, and the structure still gives them.\<close>

definition linearized :: "'s \<Rightarrow> 's \<times> ('k, 'v) dc_call list \<Rightarrow> bool" where
  "linearized s0 = (\<lambda>(s, ts). inv s \<and> (\<forall>t\<in>set ts. adm (call_key t)) \<and> (\<forall>k v. Returned k v \<in> set ts \<longrightarrow> stable k \<longrightarrow> lookup k s = Some v) \<and>
     (\<exists>ks. snd (sequential (dc_atomic lookup slow) ks s0) = s \<and>
        mset (fst (sequential (dc_atomic lookup slow) ks s0)) = mset (results ts)))"

lemma linearized_call:
  assumes "linearized s0 (s, ts)" "i < length ts" "result_of (ts ! i) = []" "call_key (ts ! i) = k" "dc_atomic lookup slow k s = (v, s')"
  shows "linearized s0 (s', ts[i := Returned k v])"
proof -
  from assms(1) obtain ks where I: "inv s" "\<forall>t\<in>set ts. adm (call_key t)" "\<And>k v. Returned k v \<in> set ts \<Longrightarrow> stable k \<Longrightarrow> lookup k s = Some v"
    and ks: "snd (sequential (dc_atomic lookup slow) ks s0) = s"
      "mset (fst (sequential (dc_atomic lookup slow) ks s0)) = mset (results ts)" by (auto simp: linearized_def)
  from I(2) assms(2,4) have k: "adm k" by auto
  with I(1) assms(5) have slow: "slow k s = (v, s')" by (simp add: slow_atomic)
  have set: "t \<in> set (ts[i := Returned k v]) \<Longrightarrow> t = Returned k v \<or> t \<in> set ts" for t
    by (auto dest: set_update_subset_insert [THEN subsetD])
  have "inv s'" "stable k \<Longrightarrow> lookup k s' = Some v" using slow_inv [OF I(1) k] slow_finds [OF I(1) k] slow by simp_all
  moreover have "lookup k' s' = Some w" if "Returned k' w \<in> set ts" "stable k'" for k' w
    using slow_keeps [OF I(1) k _ that(2) I(3) [OF that]] that(1) I(2) slow by force
  moreover have "\<forall>t\<in>set (ts[i := Returned k v]). adm (call_key t)" using I(2) k set by fastforce
  moreover have "snd (sequential (dc_atomic lookup slow) (ks @ [k]) s0) = s'"
    "mset (fst (sequential (dc_atomic lookup slow) (ks @ [k]) s0)) = mset (results (ts[i := Returned k v]))"
    using ks assms(5) results_update [OF assms(2,3), of "Returned k v"] by (auto simp: sequential_snoc split: prod.splits)
  ultimately show ?thesis unfolding linearized_def using set by blast
qed

lemma linearized_step: "dc_step lookup slow p q \<Longrightarrow> linearized s0 p \<Longrightarrow> linearized s0 q"
proof (induction rule: dc_step.induct)
  case (fast_hit i ts k s v)
  then show ?case by (intro linearized_call [where k = k and v = v and s = s]) (simp_all add: dc_atomic_def)
next
  case (fast_miss i ts k s)
  have "mset (results (ts[i := Missed k])) = mset (results ts)"
    using results_update [of i ts "Missed k"] fast_miss by simp
  moreover have "t \<in> set (ts[i := Missed k]) \<Longrightarrow> t = Missed k \<or> t \<in> set ts" for t
    by (auto dest: set_update_subset_insert [THEN subsetD])
  moreover have "Looks k \<in> set ts" using fast_miss.hyps(1,2) by (metis nth_mem)
  ultimately show ?case using fast_miss.prems unfolding linearized_def by (fastforce split: prod.splits)
next
  case (slow_path i ts k s v s')
  then have "inv s" "adm k" by (auto simp: linearized_def dest!: nth_mem)
  with slow_path show ?case by (intro linearized_call [where k = k and v = v and s = s]) (simp_all flip: slow_atomic)
qed

lemma linearized_reach:
  "(dc_step lookup slow)\<^sup>*\<^sup>* p q \<Longrightarrow> linearized s0 p \<Longrightarrow> linearized s0 q \<and> map call_key (snd q) = map call_key (snd p)"
  by (induction rule: rtranclp_induct) (auto dest: linearized_step dc_step_keys)

lemma linearizable:
  assumes "dc_reaches lookup slow ks s0 (s, ts)" "inv s0" "\<forall>k\<in>set ks. adm k" "\<forall>k. adm k \<longrightarrow> atomic k = dc_atomic lookup slow k"
  shows "inv s" "map call_key ts = ks" "Returned k v \<in> set ts \<Longrightarrow> adm k \<and> (stable k \<longrightarrow> lookup k s = Some v)"
    and "\<exists>order. (\<forall>k\<in>set order. adm k) \<and> snd (sequential atomic order s0) = s \<and> mset (fst (sequential atomic order s0)) = mset (results ts)"
proof -
  have "linearized s0 (s0, map Looks ks)"
    using assms(2,3) by (auto simp: linearized_def results_def comp_def intro!: exI [of _ "[]"])
  with assms(1) linearized_reach have L: "linearized s0 (s, ts)" and K: "map call_key ts = ks"
    by (fastforce simp: dc_reaches_def comp_def)+
  then show "inv s" "map call_key ts = ks" by (simp_all add: linearized_def)
  have ret: "Returned k v \<in> set ts \<Longrightarrow> adm k \<and> (stable k \<longrightarrow> lookup k s = Some v)" for k v
    using L unfolding linearized_def by fastforce
  then show "Returned k v \<in> set ts \<Longrightarrow> adm k \<and> (stable k \<longrightarrow> lookup k s = Some v)" .
  from L obtain order where o: "snd (sequential (dc_atomic lookup slow) order s0) = s"
    "mset (fst (sequential (dc_atomic lookup slow) order s0)) = mset (results ts)" by (auto simp: linearized_def)
  have adm: "adm k" if "k \<in> set order" for k
  proof -
    from that have "k \<in> fst ` set (fst (sequential (dc_atomic lookup slow) order s0))"
      using sequential_keys [of "dc_atomic lookup slow" order s0] by (metis list.set_map)
    with o(2) ret show ?thesis by (auto simp: results_Returned dest!: mset_eq_setD)
  qed
  then have "sequential atomic order s0 = sequential (dc_atomic lookup slow) order s0"
    using assms(4) by (intro sequential_cong) blast
  with o adm show "\<exists>order. (\<forall>k\<in>set order. adm k) \<and> snd (sequential atomic order s0) = s \<and> mset (fst (sequential atomic order s0)) = mset (results ts)" by metis
qed

end

end
