(* ===== verification/Locked_Pool.thy ===== *)
theory Locked_Pool
  imports Intern_Pool Double_Check
begin

text \<open>
  An interning pool behind its lock: the contract of the pool together with that of the operation that looks twice. Concurrent calls of \<open>Intern\<close> then give
  what the store expects of a pool. A value that no lookup finds again (NaN) gets an identifier of its own at every call.
\<close>

locale locked_pool =
  intern_pool intern resolve has inv adm stable same + double_checked lookup slow inv adm stable
  for intern :: "'v \<Rightarrow> 'p \<Rightarrow> nat \<times> 'p"
    and resolve :: "'p \<Rightarrow> nat \<Rightarrow> 'r"
    and has :: "'p \<Rightarrow> nat \<Rightarrow> bool"
    and inv :: "'p \<Rightarrow> bool"
    and adm :: "'v \<Rightarrow> bool"
    and stable :: "'v \<Rightarrow> bool"
    and same :: "'r \<Rightarrow> 'v \<Rightarrow> bool"
    and lookup :: "'v \<Rightarrow> 'p \<Rightarrow> nat option"
    and slow :: "'v \<Rightarrow> 'p \<Rightarrow> nat \<times> 'p" +
  assumes locks: "adm v \<Longrightarrow> intern v = dc_atomic lookup slow v"
    and intern_new: "inv p \<Longrightarrow> adm v \<Longrightarrow> \<not> stable v \<Longrightarrow> \<not> has p (fst (intern v p))"
    and same_stable: "same r v \<Longrightarrow> same r w \<Longrightarrow> stable v = stable w"
begin

abbreviation unstable_ids :: "('v \<times> nat) list \<Rightarrow> nat list" where
  "unstable_ids rs \<equiv> map snd (filter (\<lambda>r. \<not> stable (fst r)) rs)"

text \<open>One call after another.\<close>

lemma sequential_interns:
  assumes "inv p" "\<forall>v\<in>set vs. adm v" "sequential intern vs p = (rs, q)"
  shows "ext p q \<and> (\<forall>(v, i)\<in>set rs. has q i \<and> same (resolve q i) v) \<and> distinct (unstable_ids rs) \<and> (\<forall>i\<in>set (unstable_ids rs). \<not> has p i)"
  using assms
proof (induction vs arbitrary: p rs)
  case Nil
  then show ?case by (simp add: ext_refl)
next
  case (Cons v vs)
  obtain i p1 rs1 where v: "intern v p = (i, p1)" "sequential intern vs p1 = (rs1, q)" "rs = (v, i) # rs1"
    using Cons.prems(3) by (auto split: prod.splits)
  from Cons.prems(1,2) v(1) have 1: "inv p1" "has p1 i" "same (resolve p1 i) v" "ext p p1"
    using intern_inv intern_has intern_same ext_intern by (metis fst_conv snd_conv list.set_intros(1))+
  from Cons.IH [OF 1(1) _ v(2)] Cons.prems(2)
  have IH: "ext p1 q" "\<forall>(w, j)\<in>set rs1. has q j \<and> same (resolve q j) w" "distinct (unstable_ids rs1)" "\<forall>j\<in>set (unstable_ids rs1). \<not> has p1 j"
    by auto
  have old: "\<forall>j\<in>set (unstable_ids rs1). \<not> has p j" using IH(4) 1(4) unfolding ext_def by blast
  have "i \<notin> set (unstable_ids rs1)" using IH(4) 1(2) by blast
  moreover have "\<not> stable v \<Longrightarrow> \<not> has p i" using intern_new [OF Cons.prems(1), of v] Cons.prems(2) v(1) by simp
  moreover have "has q i \<and> same (resolve q i) v" using IH(1) 1(2,3) by (simp add: ext_def)
  moreover have "ext p q" using 1(4) IH(1) by (rule ext_trans)
  ultimately show ?case using IH(2,3) old unfolding v(3) by simp
qed

text \<open>Calls that run at the same time.\<close>

lemma racing_interns:
  assumes "dc_reaches lookup slow vs p (q, ts)" "inv p" "\<forall>v\<in>set vs. adm v"
  shows "inv q" "\<exists>order. snd (sequential intern order p) = q \<and> mset (fst (sequential intern order p)) = mset (results ts)"
    and "Returned v i \<in> set ts \<Longrightarrow> adm v \<and> has q i \<and> same (resolve q i) v"
    and "distinct (unstable_ids (results ts))"
    and "Returned v i \<in> set ts \<Longrightarrow> Returned w j \<in> set ts \<Longrightarrow> stable w \<Longrightarrow> i = j \<longleftrightarrow> same (resolve q i) w"
proof -
  have "\<forall>v. adm v \<longrightarrow> intern v = dc_atomic lookup slow v" using locks by blast
  note L = linearizable [OF assms this]
  from L(4) obtain order rs where o: "\<forall>v\<in>set order. adm v" "sequential intern order p = (rs, q)" "mset rs = mset (results ts)"
    by (metis prod.collapse)
  then show "\<exists>order. snd (sequential intern order p) = q \<and> mset (fst (sequential intern order p)) = mset (results ts)"
    by (metis fst_conv snd_conv)
  show q: "inv q" by (rule L(1))
  note S = sequential_interns [OF assms(2) o(1,2)]
  have "(v, i) \<in> set rs" if "Returned v i \<in> set ts" for v i
    using that o(3) by (metis mset_eq_setD results_Returned)
  with S L(3) show ret: "Returned v i \<in> set ts \<Longrightarrow> adm v \<and> has q i \<and> same (resolve q i) v" for v i by blast
  have "mset (unstable_ids (results ts)) = mset (unstable_ids rs)" by (simp add: o(3))
  with S show "distinct (unstable_ids (results ts))" by (metis mset_eq_imp_distinct_iff)
  assume v: "Returned v i \<in> set ts" and w: "Returned w j \<in> set ts" and st: "stable w"
  have "i = j" if "same (resolve q i) w"
  proof -
    from intern_reuse [OF q _ st _ that] ret [OF v] ret [OF w] have "intern w q = (i, q)" by blast
    moreover have "intern w q = (j, q)" using L(3) [OF w] st locks [of w] by (simp add: dc_atomic_def)
    ultimately show ?thesis by simp
  qed
  with ret [OF w] show "i = j \<longleftrightarrow> same (resolve q i) w" by blast
qed

text \<open>Two different calls get the same identifier exactly when the second would be answered with the first's, and the value is one that is found again.\<close>

lemma racing_ids:
  assumes "dc_reaches lookup slow vs p (q, ts)" "inv p" "\<forall>v\<in>set vs. adm v"
    and "k < length ts" "l < length ts" "k \<noteq> l" "ts ! k = Returned v i" "ts ! l = Returned w j"
  shows "i = j \<longleftrightarrow> same (resolve q i) w \<and> stable v"
proof -
  note R = racing_interns [OF assms(1-3)]
  have v: "Returned v i \<in> set ts" and w: "Returned w j \<in> set ts" using nth_mem [OF assms(4)] nth_mem [OF assms(5)] assms(7,8) by simp_all
  have eq: "stable v = stable w" if "same (resolve q i) w" using R(3) [OF v] same_stable that by blast
  have "i \<noteq> j" if st: "\<not> stable v" "\<not> stable w"
  proof -
    have "\<exists>xs ys. results ts = xs @ (v, i) # ys \<and> (w, j) \<in> set ys \<or> results ts = xs @ (w, j) # ys \<and> (v, i) \<in> set ys"
      using results_two [of k l ts v i w j] results_two [of l k ts w j v i] assms(4-8) by (cases "k < l") auto
    with R(4) st show ?thesis by (auto simp: image_iff)
  qed
  moreover have "i = j \<Longrightarrow> same (resolve q i) w" using R(3) [OF w] by simp
  moreover have "same (resolve q i) w \<Longrightarrow> stable v \<Longrightarrow> i = j" using R(5) [OF v w] eq by blast
  ultimately show ?thesis using eq by blast
qed

end

end
