(* ===== verification/Value_Pool.thy ===== *)
theory Value_Pool
  imports Go_Values Locked_Pool
begin

text \<open>
  \<open>ValueInternPool\<close> of \<open>store/intern.go\<close>: the table of unique scalar values. \<open>pool_values\<close> is the
  slice from ValueID to value (slot 0 holds nil), \<open>pool_index\<close> the Go map from value to ValueID. A ValueID is a slice
  index, so it is a \<open>nat\<close> here; Go's conversions between uint64 and int do not wrap on slice indices.
  The map's key type is \<open>interface{}\<close>, so its lookup, assignment and delete use Go's interface equality
  \<open>iface_eq\<close>, under which NaN is never found.
\<close>

section \<open>Maps keyed by interface values\<close>

primrec index_get :: "(iface \<times> nat) list \<Rightarrow> iface \<Rightarrow> nat option" where
  "index_get [] v = None"
| "index_get (e # m) v = (if iface_eq (fst e) v then Some (snd e) else index_get m v)"

definition index_put :: "(iface \<times> nat) list \<Rightarrow> iface \<Rightarrow> nat \<Rightarrow> (iface \<times> nat) list" where
  "index_put m v i =
     (if index_get m v = None then m @ [(v, i)]
      else map (\<lambda>e. if iface_eq (fst e) v then (v, i) else e) m)"

definition index_del :: "(iface \<times> nat) list \<Rightarrow> iface \<Rightarrow> (iface \<times> nat) list" where
  "index_del m v = filter (\<lambda>e. \<not> iface_eq (fst e) v) m"

lemma index_get_Some: "index_get m v = Some i \<Longrightarrow> \<exists>w. (w, i) \<in> set m \<and> iface_eq w v"
  by (induction m) (auto split: if_splits)

lemma index_get_None: "index_get m v = None \<longleftrightarrow> (\<forall>(w, i)\<in>set m. \<not> iface_eq w v)"
  by (induction m) auto

lemma index_get_append: "index_get (m @ m') v = (case index_get m v of Some i \<Rightarrow> Some i | None \<Rightarrow> index_get m' v)"
  by (induction m) auto

section \<open>The pool and its operations\<close>

record value_pool =
  pool_values :: "iface list"
  pool_index :: "(iface \<times> nat) list"

definition NewValueInternPool :: value_pool where
  "NewValueInternPool = \<lparr>pool_values = [INil], pool_index = []\<rparr>"

text \<open>The fast path, under the read lock, and the slow path, under the write lock, which looks again.\<close>

definition value_lookup :: "iface \<Rightarrow> value_pool \<Rightarrow> nat option" where
  "value_lookup v p = index_get (pool_index p) v"

definition value_insert :: "iface \<Rightarrow> value_pool \<Rightarrow> nat \<times> value_pool" where
  "value_insert v p =
     (case index_get (pool_index p) v of
        Some i \<Rightarrow> (i, p)
      | None \<Rightarrow>
          let i = length (pool_values p)
          in (i, p\<lparr>pool_values := pool_values p @ [v], pool_index := index_put (pool_index p) v i\<rparr>))"

definition value_intern :: "iface \<Rightarrow> value_pool \<Rightarrow> nat \<times> value_pool" where
  "value_intern v p =
     (if v = INil then (0, p)
      else
        let w = normalise v
        in (case value_lookup w p of
              Some i \<Rightarrow> (i, p)
            | None \<Rightarrow> value_insert w p))"

definition value_resolve :: "value_pool \<Rightarrow> nat \<Rightarrow> iface" where
  "value_resolve p i = (if length (pool_values p) \<le> i then INil else pool_values p ! i)"

definition value_len :: "value_pool \<Rightarrow> nat" where
  "value_len p = length (pool_values p)"

text \<open>
  \<open>DeleteUnreachable\<close>: one visit of each entry of the index. Deleting the visited key by
  \<open>delete(p.index, val)\<close> leaves a NaN key where it is.
\<close>

definition value_sweep_entry :: "nat set \<Rightarrow> iface \<times> nat \<Rightarrow> nat \<times> value_pool \<Rightarrow> nat \<times> value_pool" where
  "value_sweep_entry live = (\<lambda>(val, vid) (removed, p).
     if vid = 0 then (removed, p)
     else if vid \<notin> live
     then (removed + 1,
           p\<lparr>pool_index := index_del (pool_index p) val, pool_values := (pool_values p)[vid := INil]\<rparr>)
     else (removed, p))"

definition value_delete_unreachable :: "nat set \<Rightarrow> value_pool \<Rightarrow> nat \<times> value_pool" where
  "value_delete_unreachable live p = fold (value_sweep_entry live) (pool_index p) (0, p)"

section \<open>Invariant\<close>

definition value_inv :: "value_pool \<Rightarrow> bool" where
  "value_inv p \<longleftrightarrow>
     pool_values p \<noteq> [] \<and> pool_values p ! 0 = INil \<and>
     distinct (map snd (pool_index p)) \<and>
     (\<forall>(v, i)\<in>set (pool_index p). 0 < i \<and> i < length (pool_values p) \<and> canonical v \<and>
        (pool_values p ! i = v \<or> nan_value v \<and> pool_values p ! i = INil)) \<and>
     (\<forall>i < length (pool_values p). pool_values p ! i \<noteq> INil \<longrightarrow> (pool_values p ! i, i) \<in> set (pool_index p)) \<and>
     (\<forall>(v, i)\<in>set (pool_index p). \<forall>(w, j)\<in>set (pool_index p). iface_eq v w \<longrightarrow> i = j)"

text \<open>A ValueID is in use when it is the nil sentinel or its slot holds a value.\<close>

definition value_has :: "value_pool \<Rightarrow> nat \<Rightarrow> bool" where
  "value_has p i \<longleftrightarrow> i = 0 \<or> i < length (pool_values p) \<and> pool_values p ! i \<noteq> INil"

lemma value_inv_new: "value_inv NewValueInternPool"
  by (simp add: value_inv_def NewValueInternPool_def)

lemma value_invD:
  assumes "value_inv p"
  shows "pool_values p \<noteq> []" "pool_values p ! 0 = INil"
    and "(v, i) \<in> set (pool_index p) \<Longrightarrow> 0 < i \<and> i < length (pool_values p) \<and> canonical v \<and>
        (pool_values p ! i = v \<or> nan_value v \<and> pool_values p ! i = INil)"
    and "i < length (pool_values p) \<Longrightarrow> pool_values p ! i \<noteq> INil \<Longrightarrow> (pool_values p ! i, i) \<in> set (pool_index p)"
    and "(v, i) \<in> set (pool_index p) \<Longrightarrow> (w, j) \<in> set (pool_index p) \<Longrightarrow> iface_eq v w \<Longrightarrow> i = j"
    and "distinct (map snd (pool_index p))"
  using assms by (auto simp: value_inv_def)

lemma value_resolve_0 [simp]: "value_inv p \<Longrightarrow> value_resolve p 0 = INil"
  by (simp add: value_resolve_def value_invD)

lemma value_resolve_canonical:
  "value_inv p \<Longrightarrow> value_has p i \<Longrightarrow> i \<noteq> 0 \<Longrightarrow> canonical (value_resolve p i)"
  by (auto simp: value_has_def value_resolve_def dest: value_invD(3,4))

text \<open>What the index finds: the one identifier in use with an equal value.\<close>

lemma value_lookup_Some:
  assumes "value_inv p" "value_lookup v p = Some i"
  shows "i \<noteq> 0 \<and> value_has p i \<and> iface_eq (value_resolve p i) v"
proof -
  from assms(2) obtain w where w: "(w, i) \<in> set (pool_index p)" "iface_eq w v"
    by (auto simp: value_lookup_def dest: index_get_Some)
  with iface_eq_not_nan have "\<not> nan_value w" by blast
  with value_invD(3) [OF assms(1) w(1)] w(2) show ?thesis
    by (auto simp: value_has_def value_resolve_def)
qed

lemma value_lookup_found:
  assumes "value_inv p" "value_has p i" "i \<noteq> 0" "iface_eq (value_resolve p i) v"
  shows "value_lookup v p = Some i"
proof -
  from assms(2,3) have i: "i < length (pool_values p)" "pool_values p ! i \<noteq> INil"
    by (auto simp: value_has_def)
  from value_invD(4) [OF assms(1) i] assms(4) i
  have mem: "(pool_values p ! i, i) \<in> set (pool_index p)" "iface_eq (pool_values p ! i) v"
    by (auto simp: value_resolve_def)
  then obtain j where j: "index_get (pool_index p) v = Some j"
    using index_get_None [of "pool_index p" v] by (cases "index_get (pool_index p) v") auto
  then obtain w where "(w, j) \<in> set (pool_index p)" "iface_eq w v"
    using index_get_Some by blast
  with mem assms(1) have "j = i"
    using iface_eq_trans iface_eq_sym value_invD(5) by metis
  with j show ?thesis by (simp add: value_lookup_def)
qed

section \<open>Intern\<close>

lemma value_insert_fresh:
  assumes "value_lookup v p = None"
  shows "value_insert v p = (length (pool_values p),
    p\<lparr>pool_values := pool_values p @ [v], pool_index := pool_index p @ [(v, length (pool_values p))]\<rparr>)"
  using assms by (simp add: value_insert_def value_lookup_def index_put_def Let_def)

lemma value_inv_append:
  assumes inv: "value_inv p" and v: "canonical v" "value_lookup v p = None"
  shows "value_inv (p\<lparr>pool_values := pool_values p @ [v],
                      pool_index := pool_index p @ [(v, length (pool_values p))]\<rparr>)"
proof -
  note D = value_invD [OF inv]
  let ?n = "length (pool_values p)"
  have none: "\<not> iface_eq w v" "\<not> iface_eq v w" if "(w, i) \<in> set (pool_index p)" for w i
    using v(2) that by (auto simp: value_lookup_def index_get_None iface_eq_sym)
  have "?n \<notin> set (map snd (pool_index p))" using D(3) by force
  moreover have "v \<noteq> INil" using v(1) by auto
  ultimately show ?thesis
    using D none v(1) unfolding value_inv_def
    by (auto simp: nth_append less_Suc_eq split: if_splits)
qed

lemma value_intern_cases:
  assumes "v \<noteq> INil"
  obtains (found) i where "value_lookup (normalise v) p = Some i" "value_intern v p = (i, p)"
  | (fresh) "value_lookup (normalise v) p = None"
      "value_intern v p = (length (pool_values p),
         p\<lparr>pool_values := pool_values p @ [normalise v],
           pool_index := pool_index p @ [(normalise v, length (pool_values p))]\<rparr>)"
  using assms by (cases "value_lookup (normalise v) p")
    (auto simp: value_intern_def value_insert_fresh Let_def)

lemma value_intern_nil [simp]: "value_intern INil p = (0, p)"
  by (simp add: value_intern_def)

lemma value_intern_correct:
  assumes "value_inv p"
  shows "value_inv (snd (value_intern v p))"
    and "value_has (snd (value_intern v p)) (fst (value_intern v p))"
    and "scalar_sem (value_resolve (snd (value_intern v p)) (fst (value_intern v p))) = scalar_sem v"
    and "value_has p i \<Longrightarrow> value_has (snd (value_intern v p)) i"
    and "value_has p i \<Longrightarrow> value_resolve (snd (value_intern v p)) i = value_resolve p i"
proof -
  have "value_inv (snd (value_intern v p)) \<and>
      value_has (snd (value_intern v p)) (fst (value_intern v p)) \<and>
      scalar_sem (value_resolve (snd (value_intern v p)) (fst (value_intern v p))) = scalar_sem v \<and>
      (\<forall>i. value_has p i \<longrightarrow> value_has (snd (value_intern v p)) i \<and>
         value_resolve (snd (value_intern v p)) i = value_resolve p i)"
  proof (cases "v = INil")
    case True
    with assms show ?thesis by (simp add: value_has_def)
  next
    case False
    then show ?thesis
    proof (cases rule: value_intern_cases [of v p])
      case (found i)
      from value_lookup_Some [OF assms found(1)]
      have i: "i \<noteq> 0" "value_has p i" "iface_eq (value_resolve p i) (normalise v)" by auto
      from iface_eq_sem [OF value_resolve_canonical [OF assms i(2,1)] canonical_normalise [OF False] i(3)]
      show ?thesis using found i assms by simp
    next
      case fresh
      from False have "canonical (normalise v)" "normalise v \<noteq> INil"
        using canonical_normalise by (cases v; simp)+
      with fresh value_inv_append [OF assms _ fresh(1)] show ?thesis
        using value_invD(1,2) [OF assms]
        by (auto simp: value_has_def value_resolve_def nth_append)
    qed
  qed
  then show "value_inv (snd (value_intern v p))"
    and "value_has (snd (value_intern v p)) (fst (value_intern v p))"
    and "scalar_sem (value_resolve (snd (value_intern v p)) (fst (value_intern v p))) = scalar_sem v"
    and "value_has p i \<Longrightarrow> value_has (snd (value_intern v p)) i"
    and "value_has p i \<Longrightarrow> value_resolve (snd (value_intern v p)) i = value_resolve p i"
    by blast+
qed

lemma value_intern_reuse:
  assumes inv: "value_inv p" and v: "\<not> nan_value v" and i: "value_has p i"
    and same: "scalar_sem (value_resolve p i) = scalar_sem v"
  shows "value_intern v p = (i, p)"
proof (cases "i = 0")
  case True
  with inv same have "v = INil" by (cases v) auto
  with True show ?thesis by simp
next
  case False
  have c: "canonical (value_resolve p i)" by (rule value_resolve_canonical [OF inv i False])
  with same have nil: "v \<noteq> INil" by (cases "value_resolve p i") auto
  have "iface_eq (normalise v) (value_resolve p i)"
    using iface_eq_iff_sem [OF canonical_normalise [OF nil] c] v same by simp
  then have "value_lookup (normalise v) p = Some i"
    using value_lookup_found [OF inv i False] by (simp add: iface_eq_sym)
  with nil show ?thesis by (simp add: value_intern_def)
qed

interpretation vp: intern_pool value_intern value_resolve value_has value_inv
  "\<lambda>_. True" "\<lambda>v. \<not> nan_value v" "\<lambda>r v. scalar_sem r = scalar_sem v"
  by unfold_locales (auto intro: value_intern_correct value_intern_reuse)

text \<open>NaN is never found: each call appends a slot and an index entry.\<close>

lemma value_intern_nan:
  assumes "nan_value v"
  shows "value_intern v p = (length (pool_values p),
    p\<lparr>pool_values := pool_values p @ [v], pool_index := pool_index p @ [(v, length (pool_values p))]\<rparr>)"
proof -
  from assms have "v \<noteq> INil" "normalise v = v" by (cases v; simp)+
  moreover have "index_get (pool_index p) v = None"
    using assms iface_eq_not_nan by (fastforce simp: index_get_None)
  ultimately show ?thesis
    by (simp add: value_intern_def value_lookup_def value_insert_def index_put_def Let_def)
qed

text \<open>
  The two halves of \<open>Intern\<close>, each with what comes before the locks: nil returns at once, any other value is normalised. Whatever runs between the read lock and the
  write lock, the second search finds what another caller has inserted meanwhile, unless the value is NaN, which no search finds.
\<close>

definition intern_fast :: "iface \<Rightarrow> value_pool \<Rightarrow> nat option" where
  "intern_fast v p = (if v = INil then Some 0 else value_lookup (normalise v) p)"

definition intern_slow :: "iface \<Rightarrow> value_pool \<Rightarrow> nat \<times> value_pool" where
  "intern_slow v p = (if v = INil then (0, p) else value_insert (normalise v) p)"

lemma value_intern_atomic: "value_intern v = dc_atomic intern_fast intern_slow v"
  by (rule ext) (auto simp: value_intern_def dc_atomic_def intern_fast_def intern_slow_def Let_def split: option.split)

lemma intern_slow_intern: "intern_slow v p = value_intern v p"
  by (auto simp: intern_slow_def value_intern_def value_insert_def value_lookup_def Let_def split: option.split)

lemma intern_fast_intern: "intern_fast v p = Some i \<Longrightarrow> value_intern v p = (i, p)"
  by (auto simp: intern_fast_def value_intern_def Let_def split: if_splits)

lemma intern_fast_found:
  assumes "value_inv p" "\<not> nan_value v"
  shows "intern_fast v p = Some i \<longleftrightarrow> value_has p i \<and> scalar_sem (value_resolve p i) = scalar_sem v"
proof
  assume "intern_fast v p = Some i"
  then have "value_intern v p = (i, p)" by (rule intern_fast_intern)
  with value_intern_correct(2,3) [OF assms(1), of v] show "value_has p i \<and> scalar_sem (value_resolve p i) = scalar_sem v" by simp
next
  assume i: "value_has p i \<and> scalar_sem (value_resolve p i) = scalar_sem v"
  show "intern_fast v p = Some i"
  proof (cases "v = INil")
    case True
    with i value_resolve_canonical [OF assms(1), of i] have "i = 0" by (cases "value_resolve p i") auto
    with True show ?thesis by (simp add: intern_fast_def)
  next
    case False
    with value_intern_reuse [OF assms(1,2)] i have "value_intern v p = (i, p)" by blast
    with False show ?thesis
      by (cases rule: value_intern_cases [of v p]) (auto simp: intern_fast_def dest: arg_cong [where f = pool_values])
  qed
qed

interpretation vd: double_checked intern_fast intern_slow value_inv "\<lambda>_. True" "\<lambda>v. \<not> nan_value v"
proof unfold_locales
  fix v w :: iface and i :: nat and p :: value_pool
  assume inv: "value_inv p"
  note C = value_intern_correct [OF inv]
  show "intern_fast v p = Some i \<Longrightarrow> intern_slow v p = (i, p)" by (simp add: intern_slow_intern intern_fast_intern)
  show "value_inv (snd (intern_slow v p))" using C(1) by (simp add: intern_slow_intern)
  show "\<not> nan_value v \<Longrightarrow> intern_fast v (snd (intern_slow v p)) = Some (fst (intern_slow v p))"
    using C(1-3) by (simp add: intern_fast_found intern_slow_intern)
  show "\<not> nan_value w \<Longrightarrow> intern_fast w p = Some i \<Longrightarrow> intern_fast w (snd (intern_slow v p)) = Some i"
    using C(1,4,5) inv by (simp add: intern_fast_found intern_slow_intern)
qed

interpretation vl: locked_pool value_intern value_resolve value_has value_inv
  "\<lambda>_. True" "\<lambda>v. \<not> nan_value v" "\<lambda>r v. scalar_sem r = scalar_sem v" intern_fast intern_slow
proof unfold_locales
  fix v w :: iface and r :: iface and p :: value_pool
  show "value_intern v = dc_atomic intern_fast intern_slow v" by (rule value_intern_atomic)
  show "value_inv p \<Longrightarrow> \<not> \<not> nan_value v \<Longrightarrow> \<not> value_has p (fst (value_intern v p))"
    using value_invD(1) [of p] by (simp add: value_intern_nan value_has_def)
  assume "scalar_sem r = scalar_sem v" "scalar_sem r = scalar_sem w"
  then show "(\<not> nan_value v) = (\<not> nan_value w)" using nan_sem by (metis (full_types))
qed

section \<open>DeleteUnreachable\<close>

lemma value_sweep_len: "length (pool_values (snd (fold (value_sweep_entry live) es (n, p)))) = length (pool_values p)"
  by (induction es arbitrary: n p) (auto simp: value_sweep_entry_def split: prod.splits)

text \<open>Which entries a sweep drops from the index and which slots it clears.\<close>

definition dead :: "nat set \<Rightarrow> iface \<times> nat \<Rightarrow> bool" where
  "dead live e \<longleftrightarrow> snd e \<noteq> 0 \<and> snd e \<notin> live"

lemma value_sweep_entry_alt:
  "value_sweep_entry live e (n, p) =
     (if dead live e
      then (n + 1, p\<lparr>pool_index := index_del (pool_index p) (fst e), pool_values := (pool_values p)[snd e := INil]\<rparr>)
      else (n, p))"
  by (cases e) (simp add: value_sweep_entry_def dead_def)

lemma value_sweep_fold:
  "fold (value_sweep_entry live) es (n, p) =
     (n + length (filter (dead live) es),
      p\<lparr>pool_index := filter (\<lambda>e. \<forall>d\<in>set (filter (dead live) es). \<not> iface_eq (fst e) (fst d)) (pool_index p),
        pool_values := map (\<lambda>i. if i \<in> snd ` set (filter (dead live) es) then INil else pool_values p ! i)
                         [0..<length (pool_values p)]\<rparr>)"
proof (induction es arbitrary: n p)
  case Nil
  show ?case by (simp add: map_nth)
next
  case (Cons e es)
  show ?case
  proof (cases "dead live e")
    case True
    then show ?thesis
      by (simp add: Cons.IH value_sweep_entry_alt index_del_def)
  next
    case False
    then show ?thesis by (simp add: Cons.IH value_sweep_entry_alt)
  qed
qed

text \<open>What is left after a sweep: the entries that are live, and NaN keys.\<close>

lemma value_sweep_index:
  assumes "value_inv p" "(v, i) \<in> set (pool_index p)"
  shows "(v, i) \<in> set (pool_index (snd (value_delete_unreachable live p))) \<longleftrightarrow> i \<in> live \<or> nan_value v"
proof -
  note D = value_invD [OF assms(1)]
  have dead: "dead live (w, j) \<longleftrightarrow> j \<notin> live" if "(w, j) \<in> set (pool_index p)" for w j
    using D(3) [OF that] by (simp add: dead_def)
  have "(\<forall>(w, j)\<in>set (pool_index p). j \<notin> live \<longrightarrow> \<not> iface_eq v w) \<longleftrightarrow> i \<in> live \<or> nan_value v" (is "?L = ?R")
  proof
    assume ?L
    with assms(2) show ?R by force
  next
    assume ?R
    with assms(2) show ?L using D(5) iface_eq_not_nan by fast
  qed
  with assms(2) dead show ?thesis
    by (auto simp: value_delete_unreachable_def value_sweep_fold)
qed

lemma value_sweep_index_sub:
  "set (pool_index (snd (value_delete_unreachable live p))) \<subseteq> set (pool_index p)"
  by (auto simp: value_delete_unreachable_def value_sweep_fold)

lemma value_sweep_slot:
  assumes "value_inv p" "i < length (pool_values p)"
  shows "pool_values (snd (value_delete_unreachable live p)) ! i =
    (if i \<in> live \<or> i = 0 then pool_values p ! i else INil)"
proof -
  note D = value_invD [OF assms(1)]
  have "i \<in> snd ` set (filter (dead live) (pool_index p)) \<longleftrightarrow>
      i \<notin> live \<and> i \<noteq> 0 \<and> i \<in> snd ` set (pool_index p)"
    by (force simp: dead_def)
  moreover have "pool_values p ! i = INil" if "i \<notin> snd ` set (pool_index p)"
    using D(4) [OF assms(2)] that by force
  ultimately show ?thesis
    using assms(2) D(2) by (auto simp: value_delete_unreachable_def value_sweep_fold)
qed

lemma value_delete_unreachable_len [simp]:
  "value_len (snd (value_delete_unreachable live p)) = value_len p"
  by (simp add: value_len_def value_delete_unreachable_def value_sweep_fold)

lemma value_inv_sweep:
  assumes "value_inv p"
  shows "value_inv (snd (value_delete_unreachable live p))"
proof -
  note D = value_invD [OF assms]
  let ?q = "snd (value_delete_unreachable live p)"
  have len: "length (pool_values ?q) = length (pool_values p)"
    using value_delete_unreachable_len [of live p] by (simp add: value_len_def)
  note sub = value_sweep_index_sub [of live p, THEN subsetD]
  have "distinct (map snd (pool_index ?q))"
    using D(6) by (simp add: value_delete_unreachable_def value_sweep_fold distinct_map_filter)
  moreover have "0 < i \<and> i < length (pool_values ?q) \<and> canonical v \<and>
      (pool_values ?q ! i = v \<or> nan_value v \<and> pool_values ?q ! i = INil)"
    if e: "(v, i) \<in> set (pool_index ?q)" for v i
    using D(3) [OF sub [OF e]] value_sweep_index [OF assms sub [OF e], of live] e
    by (auto simp: len value_sweep_slot [OF assms])
  moreover have "(pool_values ?q ! i, i) \<in> set (pool_index ?q)"
    if "i < length (pool_values ?q)" "pool_values ?q ! i \<noteq> INil" for i
    using that D(2) D(4) [of i] value_sweep_index [OF assms, of _ i live]
    by (auto simp: len value_sweep_slot [OF assms] split: if_splits)
  moreover have "i = j" if "(v, i) \<in> set (pool_index ?q)" "(w, j) \<in> set (pool_index ?q)" "iface_eq v w" for v i w j
    using D(5) [OF sub [OF that(1)] sub [OF that(2)] that(3)] .
  moreover have "pool_values ?q \<noteq> []" "pool_values ?q ! 0 = INil"
    using D(1,2) len by (auto simp: value_sweep_slot [OF assms])
  ultimately show ?thesis
    unfolding value_inv_def by blast
qed

lemma value_has_sweep:
  assumes "value_inv p"
  shows "value_has (snd (value_delete_unreachable live p)) i \<longleftrightarrow> value_has p i \<and> (i \<in> live \<or> i = 0)"
  using value_delete_unreachable_len [of live p]
  by (auto simp: value_has_def value_len_def value_sweep_slot [OF assms] split: if_splits)

lemma value_resolve_sweep:
  assumes "value_inv p" "i \<in> live \<or> i = 0"
  shows "value_resolve (snd (value_delete_unreachable live p)) i = value_resolve p i"
  using value_delete_unreachable_len [of live p] assms(2)
  by (auto simp: value_resolve_def value_len_def value_sweep_slot [OF assms(1)])

text \<open>What a sweep counts: the index entries that are not live.\<close>

lemma value_sweep_count:
  assumes "value_inv p"
  shows "fst (value_delete_unreachable live p) = card {i \<in> snd ` set (pool_index p). i \<notin> live}"
proof -
  note D = value_invD [OF assms]
  have "fst (value_delete_unreachable live p) = length (filter (dead live) (pool_index p))"
    by (simp add: value_delete_unreachable_def value_sweep_fold)
  also have "filter (dead live) (pool_index p) = filter (\<lambda>e. snd e \<notin> live) (pool_index p)"
    using D(3) by (intro filter_cong) (force simp: dead_def)+
  also have "length \<dots> = length (map snd (filter (\<lambda>e. snd e \<notin> live) (pool_index p)))" by simp
  also have "\<dots> = card (set (map snd (filter (\<lambda>e. snd e \<notin> live) (pool_index p))))"
    using D(6) by (intro distinct_card [symmetric]) (simp add: distinct_map_filter)
  also have "set (map snd (filter (\<lambda>e. snd e \<notin> live) (pool_index p))) = {i \<in> snd ` set (pool_index p). i \<notin> live}"
    by auto
  finally show ?thesis .
qed

end
