(* ===== verification/Subtree_Pool.thy ===== *)
theory Subtree_Pool
  imports Locked_Pool "HOL-Library.Word"
begin

unbundle bit_operations_syntax

text \<open>
  \<open>store/node.go\<close> and \<open>SubtreeInternPool\<close> of \<open>store/subtree.go\<close>: the nodes an object is decomposed
  into, their FNV-1a hash, and the pool that keeps one copy of each. A NodeID is an index of the slice of nodes, a
  \<open>nat\<close>; it becomes a 64-bit word where the code hashes it.
\<close>

section \<open>Nodes\<close>

datatype node_kind = NodeKindScalar | NodeKindMap | NodeKindSlice

record map_entry =
  entry_key :: nat
  entry_value :: nat

record node =
  node_kind :: node_kind
  node_value :: nat
  node_entries :: "map_entry list"
  node_items :: "nat list"

text \<open>Go's zero value \<open>Node{}\<close> and the three composite literals of the code, other fields zero.\<close>

definition zero_node :: node where
  "zero_node = \<lparr>node_kind = NodeKindScalar, node_value = 0, node_entries = [], node_items = []\<rparr>"

definition scalar_node :: "nat \<Rightarrow> node" where
  "scalar_node vid = zero_node\<lparr>node_kind := NodeKindScalar, node_value := vid\<rparr>"

definition map_node :: "map_entry list \<Rightarrow> node" where
  "map_node es = zero_node\<lparr>node_kind := NodeKindMap, node_entries := es\<rparr>"

definition slice_node :: "nat list \<Rightarrow> node" where
  "slice_node ids = zero_node\<lparr>node_kind := NodeKindSlice, node_items := ids\<rparr>"

definition node_normal :: "node \<Rightarrow> bool" where
  "node_normal n = (case node_kind n of
      NodeKindScalar \<Rightarrow> n = scalar_node (node_value n)
    | NodeKindMap \<Rightarrow> n = map_node (node_entries n)
    | NodeKindSlice \<Rightarrow> n = slice_node (node_items n))"

lemmas node_literals = zero_node_def scalar_node_def map_node_def slice_node_def

lemma node_literal_simps [simp]:
  "node_kind (scalar_node v) = NodeKindScalar" "node_value (scalar_node v) = v"
  "node_kind (map_node es) = NodeKindMap" "node_entries (map_node es) = es"
  "node_kind (slice_node ids) = NodeKindSlice" "node_items (slice_node ids) = ids"
  "node_kind zero_node = NodeKindScalar" "node_value zero_node = 0"
  "node_normal (scalar_node v)" "node_normal (map_node es)" "node_normal (slice_node ids)"
  by (simp_all add: node_literals node_normal_def)

lemma node_literal_inject [simp]:
  "scalar_node v = scalar_node w \<longleftrightarrow> v = w"
  "map_node es = map_node fs \<longleftrightarrow> es = fs"
  "slice_node xs = slice_node ys \<longleftrightarrow> xs = ys"
  by (auto simp: node_literals)

lemma node_normal_cases:
  assumes "node_normal n"
  obtains (scalar) v where "n = scalar_node v" | (map) es where "n = map_node es" | (slice) ids where "n = slice_node ids"
  using assms by (cases "node_kind n") (auto simp: node_normal_def)

lemma node_literal_distinct [simp]:
  "scalar_node v \<noteq> map_node es" "scalar_node v \<noteq> slice_node ids" "map_node es \<noteq> slice_node ids"
  "map_node es \<noteq> scalar_node v" "slice_node ids \<noteq> scalar_node v" "slice_node ids \<noteq> map_node es"
  by (auto dest: arg_cong [where f = node_kind])

text \<open>The child NodeIDs a traversal descends into.\<close>

definition children :: "node \<Rightarrow> nat list" where
  "children n = (case node_kind n of
      NodeKindScalar \<Rightarrow> []
    | NodeKindMap \<Rightarrow> map entry_value (node_entries n)
    | NodeKindSlice \<Rightarrow> node_items n)"

lemma children_simps [simp]:
  "children (scalar_node v) = []" "children zero_node = []"
  "children (map_node es) = map entry_value es" "children (slice_node ids) = ids"
  by (simp_all add: children_def)

section \<open>Hash and equality\<close>

definition le_bytes :: "64 word \<Rightarrow> 8 word list" where
  "le_bytes w = map (\<lambda>k. ucast (drop_bit (8 * k) w)) [0..<8]"

definition fnv_offset :: "64 word" where
  "fnv_offset = 14695981039346656037"

definition fnv_write :: "8 word list \<Rightarrow> 64 word \<Rightarrow> 64 word" where
  "fnv_write bs h = fold (\<lambda>b h. (h XOR ucast b) * 1099511628211) bs h"

definition kind_byte :: "node_kind \<Rightarrow> 8 word" where
  "kind_byte k = (case k of NodeKindScalar \<Rightarrow> 0 | NodeKindMap \<Rightarrow> 1 | NodeKindSlice \<Rightarrow> 2)"

definition put_id :: "nat \<Rightarrow> 64 word \<Rightarrow> 64 word" where
  "put_id i h = fnv_write (le_bytes (word_of_nat i)) h"

definition node_hash :: "node \<Rightarrow> 64 word" where
  "node_hash n =
     (let h = fnv_write [kind_byte (node_kind n)] fnv_offset
      in case node_kind n of
           NodeKindScalar \<Rightarrow> put_id (node_value n) h
         | NodeKindMap \<Rightarrow> fold (\<lambda>e h. put_id (entry_value e) (put_id (entry_key e) h)) (node_entries n) h
         | NodeKindSlice \<Rightarrow> fold put_id (node_items n) h)"

definition node_equal :: "node \<Rightarrow> node \<Rightarrow> bool" where
  "node_equal a b =
     (if node_kind a \<noteq> node_kind b then False
      else case node_kind a of
        NodeKindScalar \<Rightarrow> node_value a = node_value b
      | NodeKindMap \<Rightarrow>
          if length (node_entries a) \<noteq> length (node_entries b) then False
          else list_all (\<lambda>i. \<not> (entry_key (node_entries a ! i) \<noteq> entry_key (node_entries b ! i) \<or>
                               entry_value (node_entries a ! i) \<noteq> entry_value (node_entries b ! i)))
                 [0..<length (node_entries a)]
      | NodeKindSlice \<Rightarrow>
          if length (node_items a) \<noteq> length (node_items b) then False
          else list_all (\<lambda>i. \<not> node_items a ! i \<noteq> node_items b ! i) [0..<length (node_items a)])"

text \<open>On the nodes the code builds, \<open>equal\<close> is structural identity.\<close>

lemma node_equal_iff:
  assumes "node_normal a" "node_normal b"
  shows "node_equal a b \<longleftrightarrow> a = b"
proof -
  have entries: "list_all (\<lambda>i. entry_key (xs ! i) = entry_key (ys ! i) \<and> entry_value (xs ! i) = entry_value (ys ! i))
      [0..<length ys] \<longleftrightarrow> xs = ys" if "length xs = length ys" for xs ys :: "map_entry list"
  proof
    assume "list_all (\<lambda>i. entry_key (xs ! i) = entry_key (ys ! i) \<and> entry_value (xs ! i) = entry_value (ys ! i)) [0..<length ys]"
    with that show "xs = ys"
      by (intro nth_equalityI map_entry.equality) (simp_all add: list_all_iff)
  qed (simp add: list_all_iff)
  have items: "list_all (\<lambda>i. xs ! i = ys ! i) [0..<length ys] \<longleftrightarrow> xs = ys"
    if "length xs = length ys" for xs ys :: "nat list"
    using list_all_upt_eq [OF that] that by (simp add: list_all_iff Ball_def)
  have [simp]: "list_all (\<lambda>i. True) (xs :: nat list)" for xs
    by (simp add: list_all_iff)
  show ?thesis
    using assms(1)
  proof (cases rule: node_normal_cases)
    case (scalar v)
    with assms(2) show ?thesis by (cases rule: node_normal_cases) (simp_all add: node_equal_def)
  next
    case (map es)
    with assms(2) show ?thesis by (cases rule: node_normal_cases) (auto simp: node_equal_def entries)
  next
    case (slice ids)
    with assms(2) show ?thesis by (cases rule: node_normal_cases) (auto simp: node_equal_def items)
  qed
qed

section \<open>The pool\<close>

record subtree_pool =
  sp_nodes :: "node list"
  sp_index :: "(64 word, nat list) gomap"

definition NewSubtreeInternPool :: subtree_pool where
  "NewSubtreeInternPool = \<lparr>sp_nodes = [zero_node], sp_index = []\<rparr>"

text \<open>\<open>p.index[h]\<close>, nil where the hash is not there.\<close>

definition bucket :: "subtree_pool \<Rightarrow> 64 word \<Rightarrow> nat list" where
  "bucket p h = (case go_get (sp_index p) h of None \<Rightarrow> [] | Some ids \<Rightarrow> ids)"

text \<open>The search of a hash bucket, which both paths of \<open>Intern\<close> run.\<close>

definition subtree_lookup :: "node \<Rightarrow> subtree_pool \<Rightarrow> nat option" where
  "subtree_lookup n p =
     (case go_get (sp_index p) (node_hash n) of
        None \<Rightarrow> None
      | Some candidates \<Rightarrow> find (\<lambda>i. node_equal (sp_nodes p ! i) n) candidates)"

definition subtree_insert :: "node \<Rightarrow> subtree_pool \<Rightarrow> nat \<times> subtree_pool" where
  "subtree_insert n p =
     (case subtree_lookup n p of
        Some i \<Rightarrow> (i, p)
      | None \<Rightarrow>
          let i = length (sp_nodes p)
          in (i, p\<lparr>sp_nodes := sp_nodes p @ [n],
                   sp_index := go_put (node_hash n) (bucket p (node_hash n) @ [i]) (sp_index p)\<rparr>))"

definition subtree_intern :: "node \<Rightarrow> subtree_pool \<Rightarrow> nat \<times> subtree_pool" where
  "subtree_intern n p =
     (case subtree_lookup n p of
        Some i \<Rightarrow> (i, p)
      | None \<Rightarrow> subtree_insert n p)"

definition subtree_resolve :: "subtree_pool \<Rightarrow> nat \<Rightarrow> node" where
  "subtree_resolve p i = (if length (sp_nodes p) \<le> i then zero_node else sp_nodes p ! i)"

definition subtree_len :: "subtree_pool \<Rightarrow> nat" where
  "subtree_len p = length (sp_nodes p)"

definition subtree_sweep_id :: "nat set \<Rightarrow> nat \<Rightarrow> nat list \<times> node list \<times> nat \<Rightarrow> nat list \<times> node list \<times> nat" where
  "subtree_sweep_id live i = (\<lambda>(kept, nodes, removed).
     if i = 0 then (kept @ [i], nodes, removed)
     else if i \<in> live then (kept @ [i], nodes, removed)
     else (kept, nodes[i := zero_node], removed + 1))"

definition subtree_sweep_bucket ::
    "nat set \<Rightarrow> 64 word \<times> nat list \<Rightarrow> (64 word, nat list) gomap \<times> node list \<times> nat
     \<Rightarrow> (64 word, nat list) gomap \<times> node list \<times> nat" where
  "subtree_sweep_bucket live = (\<lambda>(h, candidates) (new_index, nodes, removed).
     let (kept, nodes', removed') = fold (subtree_sweep_id live) candidates ([], nodes, removed)
     in (if 0 < length kept then go_put h kept new_index else new_index, nodes', removed'))"

definition subtree_delete_unreachable :: "nat set \<Rightarrow> subtree_pool \<Rightarrow> nat \<times> subtree_pool" where
  "subtree_delete_unreachable live p =
     (let (new_index, nodes, removed) = fold (subtree_sweep_bucket live) (sp_index p) ([], sp_nodes p, 0)
      in (removed, p\<lparr>sp_nodes := nodes, sp_index := new_index\<rparr>))"

section \<open>Invariant\<close>

text \<open>A NodeID is in use when some bucket of the index lists it.\<close>

definition subtree_has :: "subtree_pool \<Rightarrow> nat \<Rightarrow> bool" where
  "subtree_has p i \<longleftrightarrow> (\<exists>h. i \<in> set (bucket p h))"

definition subtree_inv :: "subtree_pool \<Rightarrow> bool" where
  "subtree_inv p \<longleftrightarrow>
     sp_nodes p \<noteq> [] \<and> distinct (go_keys (sp_index p)) \<and>
     (\<forall>h. distinct (bucket p h) \<and>
        (\<forall>i\<in>set (bucket p h). 0 < i \<and> i < length (sp_nodes p) \<and>
           node_hash (sp_nodes p ! i) = h \<and> node_normal (sp_nodes p ! i))) \<and>
     (\<forall>i j. subtree_has p i \<longrightarrow> subtree_has p j \<longrightarrow> sp_nodes p ! i = sp_nodes p ! j \<longrightarrow> i = j)"

lemma subtree_inv_new: "subtree_inv NewSubtreeInternPool"
  by (simp add: subtree_inv_def NewSubtreeInternPool_def subtree_has_def bucket_def)

lemma subtree_invD:
  assumes "subtree_inv p"
  shows "sp_nodes p \<noteq> []" "distinct (go_keys (sp_index p))" "distinct (bucket p h)"
    and "i \<in> set (bucket p h) \<Longrightarrow>
      0 < i \<and> i < length (sp_nodes p) \<and> node_hash (sp_nodes p ! i) = h \<and> node_normal (sp_nodes p ! i)"
    and "subtree_has p i \<Longrightarrow> subtree_has p j \<Longrightarrow> sp_nodes p ! i = sp_nodes p ! j \<Longrightarrow> i = j"
  using assms by (auto simp: subtree_inv_def)

lemma subtree_hasD:
  assumes "subtree_inv p" "subtree_has p i"
  shows "0 < i" "i < length (sp_nodes p)" "node_normal (sp_nodes p ! i)"
    "subtree_resolve p i = sp_nodes p ! i" "i \<in> set (bucket p (node_hash (sp_nodes p ! i)))"
  using assms by (auto simp: subtree_has_def subtree_resolve_def dest: subtree_invD(4))

lemma subtree_has_not_0 [simp]: "subtree_inv p \<Longrightarrow> \<not> subtree_has p 0"
  using subtree_hasD(1) by blast

lemma subtree_has_inj:
  "subtree_inv p \<Longrightarrow> subtree_has p i \<Longrightarrow> subtree_has p j \<Longrightarrow> subtree_resolve p i = subtree_resolve p j \<Longrightarrow> i = j"
  using subtree_invD(5) subtree_hasD(4) by metis

text \<open>The search finds exactly the identifier in use of an identical node; every slot it reads is in range.\<close>

lemma subtree_lookup_bucket:
  "subtree_lookup n p = find (\<lambda>i. node_equal (sp_nodes p ! i) n) (bucket p (node_hash n))"
  by (simp add: subtree_lookup_def bucket_def split: option.splits)

lemma subtree_lookup_Some:
  assumes "subtree_inv p" "node_normal n" "subtree_lookup n p = Some i"
  shows "subtree_has p i \<and> subtree_resolve p i = n"
proof -
  from assms(3) have i: "i \<in> set (bucket p (node_hash n))" "node_equal (sp_nodes p ! i) n"
    by (auto simp: subtree_lookup_bucket find_Some_iff)
  then have "subtree_has p i" by (auto simp: subtree_has_def)
  with subtree_hasD(3,4) [OF assms(1) this] i(2) assms(2) show ?thesis by (simp add: node_equal_iff)
qed

lemma subtree_lookup_found:
  assumes "subtree_inv p" "subtree_has p i"
  shows "subtree_lookup (subtree_resolve p i) p = Some i"
proof -
  note H = subtree_hasD [OF assms]
  from H(3,5) have "subtree_lookup (subtree_resolve p i) p \<noteq> None"
    by (auto simp: subtree_lookup_bucket find_None_iff node_equal_iff H(4))
  then obtain j where j: "subtree_lookup (subtree_resolve p i) p = Some j" by blast
  with subtree_lookup_Some [OF assms(1) _ j] H(3,4) have "subtree_has p j" "subtree_resolve p j = subtree_resolve p i"
    by auto
  with subtree_has_inj [OF assms(1) _ assms(2)] j show ?thesis by metis
qed

section \<open>Intern\<close>

definition subtree_add :: "node \<Rightarrow> subtree_pool \<Rightarrow> subtree_pool" where
  "subtree_add n p = p\<lparr>sp_nodes := sp_nodes p @ [n],
     sp_index := go_put (node_hash n) (bucket p (node_hash n) @ [length (sp_nodes p)]) (sp_index p)\<rparr>"

lemma bucket_add [simp]:
  "bucket (subtree_add n p) h = (if h = node_hash n then bucket p h @ [length (sp_nodes p)] else bucket p h)"
  by (simp add: bucket_def subtree_add_def gomap_simps)

lemma subtree_has_add [simp]: "subtree_has (subtree_add n p) i \<longleftrightarrow> subtree_has p i \<or> i = length (sp_nodes p)"
  by (auto simp: subtree_has_def) metis

lemma subtree_add_node:
  "i < length (sp_nodes p) \<Longrightarrow> sp_nodes (subtree_add n p) ! i = sp_nodes p ! i"
  "sp_nodes (subtree_add n p) ! length (sp_nodes p) = n"
  "length (sp_nodes (subtree_add n p)) = Suc (length (sp_nodes p))"
  by (simp_all add: subtree_add_def nth_append)

lemma subtree_inv_add:
  assumes inv: "subtree_inv p" and n: "node_normal n" "subtree_lookup n p = None"
  shows "subtree_inv (subtree_add n p)"
proof -
  note D = subtree_invD [OF inv] and keep = subtree_add_node
  let ?q = "subtree_add n p" and ?k = "length (sp_nodes p)"
  have range: "i < ?k" if "subtree_has p i" for i
    using subtree_hasD(2) [OF inv that] .
  have fresh: "sp_nodes p ! i \<noteq> n" if "subtree_has p i" for i
    using subtree_lookup_found [OF inv that] n(2) subtree_hasD(4) [OF inv that] by auto
  have "i = j" if "subtree_has ?q i" "subtree_has ?q j" "sp_nodes ?q ! i = sp_nodes ?q ! j" for i j
  proof -
    from that(1,2) consider "subtree_has p i" "subtree_has p j" | "subtree_has p i" "j = ?k"
      | "i = ?k" "subtree_has p j" | "i = j" by auto
    then show ?thesis
    proof cases
      case 1
      with that(3) show ?thesis using D(5) keep(1) range by metis
    next
      case 2
      with that(3) fresh range show ?thesis by (simp add: keep)
    next
      case 3
      with that(3) range have "sp_nodes p ! j = n" by (simp add: keep)
      with fresh 3 show ?thesis by blast
    qed
  qed
  moreover have "distinct (bucket ?q h)" for h
    using D(3,4) by auto
  moreover have "0 < i \<and> i < length (sp_nodes ?q) \<and> node_hash (sp_nodes ?q ! i) = h \<and> node_normal (sp_nodes ?q ! i)"
    if "i \<in> set (bucket ?q h)" for i h
  proof (cases "i = ?k")
    case True
    with that D(4) n(1) D(1) show ?thesis by (auto simp: keep split: if_splits)
  next
    case False
    with that have "i \<in> set (bucket p h)" by (auto split: if_splits)
    from D(4) [OF this] show ?thesis by (simp add: keep)
  qed
  ultimately show ?thesis
    unfolding subtree_inv_def using D(2) by (simp add: subtree_add_def del: bucket_add)
qed

lemma subtree_intern_cases:
  obtains (found) i where "subtree_lookup n p = Some i" "subtree_intern n p = (i, p)"
  | (fresh) "subtree_lookup n p = None" "subtree_intern n p = (length (sp_nodes p), subtree_add n p)"
  by (cases "subtree_lookup n p") (auto simp: subtree_intern_def subtree_insert_def subtree_add_def Let_def)

lemma subtree_intern_correct:
  assumes "subtree_inv p" "node_normal n"
  shows "subtree_inv (snd (subtree_intern n p))"
    and "subtree_has (snd (subtree_intern n p)) (fst (subtree_intern n p))"
    and "subtree_resolve (snd (subtree_intern n p)) (fst (subtree_intern n p)) = n"
    and "subtree_has p i \<Longrightarrow> subtree_has (snd (subtree_intern n p)) i"
    and "subtree_has p i \<Longrightarrow> subtree_resolve (snd (subtree_intern n p)) i = subtree_resolve p i"
proof -
  have "subtree_inv (snd (subtree_intern n p)) \<and>
      subtree_has (snd (subtree_intern n p)) (fst (subtree_intern n p)) \<and>
      subtree_resolve (snd (subtree_intern n p)) (fst (subtree_intern n p)) = n \<and>
      (\<forall>i. subtree_has p i \<longrightarrow> subtree_has (snd (subtree_intern n p)) i \<and>
         subtree_resolve (snd (subtree_intern n p)) i = subtree_resolve p i)"
  proof (cases rule: subtree_intern_cases [of n p])
    case (found i)
    with subtree_lookup_Some [OF assms found(1)] assms show ?thesis by simp
  next
    case fresh
    have "i < length (sp_nodes p)" "\<not> length (sp_nodes p) \<le> i" "\<not> Suc (length (sp_nodes p)) \<le> i" if "subtree_has p i" for i
      using subtree_hasD(2) [OF assms(1) that] by simp_all
    with fresh subtree_inv_add [OF assms fresh(1)] show ?thesis
      by (auto simp: subtree_resolve_def subtree_add_node)
  qed
  then show "subtree_inv (snd (subtree_intern n p))"
    and "subtree_has (snd (subtree_intern n p)) (fst (subtree_intern n p))"
    and "subtree_resolve (snd (subtree_intern n p)) (fst (subtree_intern n p)) = n"
    and "subtree_has p i \<Longrightarrow> subtree_has (snd (subtree_intern n p)) i"
    and "subtree_has p i \<Longrightarrow> subtree_resolve (snd (subtree_intern n p)) i = subtree_resolve p i"
    by blast+
qed

lemma subtree_intern_reuse:
  "subtree_inv p \<Longrightarrow> subtree_has p i \<Longrightarrow> subtree_resolve p i = n \<Longrightarrow> subtree_intern n p = (i, p)"
  using subtree_lookup_found by (fastforce simp: subtree_intern_def)

interpretation sp: intern_pool subtree_intern subtree_resolve subtree_has subtree_inv
  node_normal "\<lambda>_. True" "(=)"
  by unfold_locales (auto intro: subtree_intern_correct subtree_intern_reuse)

lemma subtree_intern_atomic: "subtree_intern n = dc_atomic subtree_lookup subtree_insert n"
  by (rule ext) (simp add: subtree_intern_def dc_atomic_def)

lemma subtree_insert_intern: "subtree_insert n p = subtree_intern n p"
  by (simp add: subtree_intern_def subtree_insert_def split: option.split)

interpretation sd: double_checked subtree_lookup subtree_insert subtree_inv node_normal "\<lambda>_. True"
proof unfold_locales
  fix n m :: node and i :: nat and p :: subtree_pool
  assume inv: "subtree_inv p" and n: "node_normal n"
  note C = subtree_intern_correct [OF inv n]
  show "subtree_lookup n p = Some i \<Longrightarrow> subtree_insert n p = (i, p)" by (simp add: subtree_insert_def)
  show "subtree_inv (snd (subtree_insert n p))" using C(1) by (simp add: subtree_insert_intern)
  show "subtree_lookup n (snd (subtree_insert n p)) = Some (fst (subtree_insert n p))"
    using subtree_lookup_found [OF C(1,2)] C(3) by (simp add: subtree_insert_intern)
  assume m: "node_normal m" "subtree_lookup m p = Some i"
  from subtree_lookup_Some [OF inv m] have i: "subtree_has p i" "subtree_resolve p i = m" by auto
  from subtree_lookup_found [OF C(1) C(4) [OF i(1)]] C(5) [OF i(1)] i(2)
  show "subtree_lookup m (snd (subtree_insert n p)) = Some i" by (simp add: subtree_insert_intern)
qed

interpretation sl: locked_pool subtree_intern subtree_resolve subtree_has subtree_inv
  node_normal "\<lambda>_. True" "(=)" subtree_lookup subtree_insert
  by unfold_locales (use subtree_intern_atomic subtree_lookup_Some in auto)

text \<open>A new identifier is larger than those of the nodes it refers to.\<close>

lemma subtree_intern_descends:
  assumes "subtree_inv p" "node_normal n" "\<forall>c\<in>set (children n). subtree_has p c"
    and "\<And>i c. subtree_has p i \<Longrightarrow> c \<in> set (children (subtree_resolve p i)) \<Longrightarrow> c < i"
    and "subtree_has (snd (subtree_intern n p)) i" "c \<in> set (children (subtree_resolve (snd (subtree_intern n p)) i))"
  shows "c < i"
proof (cases rule: subtree_intern_cases [of n p])
  case (found j)
  with assms show ?thesis by simp
next
  case fresh
  with assms(5) consider "subtree_has p i" | "i = length (sp_nodes p)" by auto
  then show ?thesis
  proof cases
    case 1
    with assms subtree_intern_correct(5) [OF assms(1,2)] show ?thesis by metis
  next
    case 2
    then have "i = fst (subtree_intern n p)" by (simp add: fresh(2))
    with assms(3,6) subtree_intern_correct(3) [OF assms(1,2)] have "subtree_has p c" by simp
    with subtree_hasD(2) [OF assms(1)] 2 show ?thesis by blast
  qed
qed

section \<open>DeleteUnreachable\<close>

abbreviation kept_ids :: "nat set \<Rightarrow> nat list \<Rightarrow> nat list" where
  "kept_ids live \<equiv> filter (\<lambda>i. i = 0 \<or> i \<in> live)"

abbreviation dead_ids :: "nat set \<Rightarrow> nat list \<Rightarrow> nat list" where
  "dead_ids live \<equiv> filter (\<lambda>i. i \<noteq> 0 \<and> i \<notin> live)"

definition clear_nodes :: "nat set \<Rightarrow> node list \<Rightarrow> node list" where
  "clear_nodes ids nodes = map (\<lambda>i. if i \<in> ids then zero_node else nodes ! i) [0..<length nodes]"

lemma clear_nodes_simps [simp]:
  "length (clear_nodes ids nodes) = length nodes"
  "i < length nodes \<Longrightarrow> clear_nodes ids nodes ! i = (if i \<in> ids then zero_node else nodes ! i)"
  "clear_nodes {} nodes = nodes"
  by (simp_all add: clear_nodes_def map_nth)

lemma clear_nodes_Un [simp]: "clear_nodes A (clear_nodes B nodes) = clear_nodes (A \<union> B) nodes"
  by (auto simp: clear_nodes_def)

lemma clear_nodes_one: "nodes[i := zero_node] = clear_nodes {i} nodes"
  by (auto intro!: nth_equalityI simp: nth_list_update)

lemma subtree_sweep_bucket_ids:
  "fold (subtree_sweep_id live) ids (kept, nodes, removed) =
     (kept @ kept_ids live ids, clear_nodes (set (dead_ids live ids)) nodes, removed + length (dead_ids live ids))"
  by (induction ids arbitrary: kept nodes removed)
     (auto simp: subtree_sweep_id_def clear_nodes_one intro!: arg_cong2 [where f = clear_nodes])

lemma subtree_sweep_bucket_eq:
  "subtree_sweep_bucket live (h, ids) (acc, nodes, removed) =
     (if kept_ids live ids = [] then acc else go_put h (kept_ids live ids) acc,
      clear_nodes (set (dead_ids live ids)) nodes, removed + length (dead_ids live ids))"
  by (simp add: subtree_sweep_bucket_def subtree_sweep_bucket_ids)

lemma subtree_sweep_buckets:
  assumes "distinct (go_keys idx)" "set (go_keys idx) \<inter> set (go_keys acc) = {}"
  shows "fold (subtree_sweep_bucket live) idx (acc, nodes, removed) =
     (acc @ filter (\<lambda>e. snd e \<noteq> []) (map (map_prod id (kept_ids live)) idx),
      clear_nodes (\<Union>e\<in>set idx. set (dead_ids live (snd e))) nodes,
      removed + length (dead_ids live (concat (map snd idx))))"
  using assms
proof (induction idx arbitrary: acc nodes removed)
  case Nil
  show ?case by simp
next
  case (Cons e idx)
  obtain h ids where e: "e = (h, ids)" by (cases e)
  with Cons.prems have fresh: "h \<notin> set (go_keys acc)" "h \<notin> set (go_keys idx)" by auto
  show ?case
  proof (cases "kept_ids live ids = []")
    case True
    with Cons.prems show ?thesis
      by (simp add: e subtree_sweep_bucket_eq Cons.IH Un_commute set_filter)
  next
    case False
    with Cons.prems fresh show ?thesis
      by (simp add: e subtree_sweep_bucket_eq go_put_fresh Cons.IH Un_commute set_filter)
  qed
qed

lemma go_get_filtered:
  assumes "distinct (go_keys m)"
  shows "go_get (filter (\<lambda>e. snd e \<noteq> []) (map (map_prod id f) m)) k =
     (case go_get m k of None \<Rightarrow> None | Some x \<Rightarrow> if f x = [] then None else Some (f x))"
  using assms
proof (induction m)
  case Nil
  show ?case by simp
next
  case (Cons e m)
  then show ?case
    by (cases "fst e = k") (auto simp: map_of_eq_None_iff [THEN iffD2] split: option.splits)
qed

lemma subtree_delete_unreachable_eq:
  assumes "subtree_inv p"
  shows "subtree_delete_unreachable live p =
     (length (dead_ids live (concat (map snd (sp_index p)))),
      p\<lparr>sp_nodes := clear_nodes (\<Union>e\<in>set (sp_index p). set (dead_ids live (snd e))) (sp_nodes p),
        sp_index := filter (\<lambda>e. snd e \<noteq> []) (map (map_prod id (kept_ids live)) (sp_index p))\<rparr>)"
  using subtree_sweep_buckets [of "sp_index p" "[]" live "sp_nodes p" 0] subtree_invD(2) [OF assms]
  by (simp add: subtree_delete_unreachable_def del: set_filter)

lemma subtree_len_sweep [simp]:
  "subtree_inv p \<Longrightarrow> subtree_len (snd (subtree_delete_unreachable live p)) = subtree_len p"
  by (simp add: subtree_len_def subtree_delete_unreachable_eq)

lemma bucket_sweep [simp]:
  "subtree_inv p \<Longrightarrow> bucket (snd (subtree_delete_unreachable live p)) h = kept_ids live (bucket p h)"
  by (simp add: bucket_def subtree_delete_unreachable_eq go_get_filtered subtree_invD(2) split: option.splits)

lemma subtree_has_sweep:
  "subtree_inv p \<Longrightarrow> subtree_has (snd (subtree_delete_unreachable live p)) i \<longleftrightarrow> subtree_has p i \<and> i \<in> live"
  by (auto simp: subtree_has_def dest: subtree_invD(4))

lemma bucket_in_set: "subtree_inv p \<Longrightarrow> (h, ids) \<in> set (sp_index p) \<Longrightarrow> bucket p h = ids"
  by (simp add: bucket_def go_in_set_get subtree_invD(2))

lemma subtree_has_listed:
  assumes "subtree_inv p"
  shows "subtree_has p i \<longleftrightarrow> i \<in> set (concat (map snd (sp_index p)))"
proof
  assume "subtree_has p i"
  then obtain h where "i \<in> set (bucket p h)" by (auto simp: subtree_has_def)
  then obtain ids where "go_get (sp_index p) h = Some ids" "i \<in> set ids"
    by (cases "go_get (sp_index p) h") (auto simp: bucket_def)
  from map_of_SomeD [OF this(1)] this(2) show "i \<in> set (concat (map snd (sp_index p)))" by force
next
  assume "i \<in> set (concat (map snd (sp_index p)))"
  then obtain h ids where "(h, ids) \<in> set (sp_index p)" "i \<in> set ids" by auto
  with bucket_in_set [OF assms] show "subtree_has p i" by (auto simp: subtree_has_def)
qed

lemma subtree_sweep_node:
  assumes "subtree_inv p" "i < length (sp_nodes p)" "subtree_has p i \<Longrightarrow> i \<in> live"
  shows "sp_nodes (snd (subtree_delete_unreachable live p)) ! i = sp_nodes p ! i"
proof -
  have "i \<notin> (\<Union>e\<in>set (sp_index p). set (dead_ids live (snd e)))"
    using assms(3) subtree_has_listed [OF assms(1), of i] by auto
  then show ?thesis
    using assms(2) by (simp add: subtree_delete_unreachable_eq [OF assms(1)] del: set_filter UN_iff)
qed

lemma subtree_resolve_sweep:
  assumes "subtree_inv p" "subtree_has p i" "i \<in> live"
  shows "subtree_resolve (snd (subtree_delete_unreachable live p)) i = subtree_resolve p i"
  using subtree_sweep_node [OF assms(1) subtree_hasD(2) [OF assms(1,2)] assms(3)]
    subtree_len_sweep [OF assms(1), of live]
  by (simp add: subtree_resolve_def subtree_len_def)

lemma subtree_inv_sweep:
  assumes "subtree_inv p"
  shows "subtree_inv (snd (subtree_delete_unreachable live p))"
proof -
  note D = subtree_invD [OF assms]
  let ?q = "snd (subtree_delete_unreachable live p)"
  have len: "length (sp_nodes ?q) = length (sp_nodes p)"
    using subtree_len_sweep [OF assms] by (simp add: subtree_len_def)
  have keep: "sp_nodes ?q ! i = sp_nodes p ! i" if "subtree_has p i" "i \<in> live" for i
    using subtree_sweep_node [OF assms subtree_hasD(2) [OF assms that(1)]] that by simp
  have "distinct (go_keys (sp_index ?q))"
    using D(2) by (simp add: subtree_delete_unreachable_eq [OF assms] distinct_map_filter map_prod_def split_def comp_def)
  moreover have "0 < i \<and> i < length (sp_nodes ?q) \<and> node_hash (sp_nodes ?q ! i) = h \<and> node_normal (sp_nodes ?q ! i)"
    if "i \<in> set (bucket ?q h)" for i h
  proof -
    from that assms have i: "i \<in> set (bucket p h)" "i = 0 \<or> i \<in> live" by auto
    then have "subtree_has p i" by (auto simp: subtree_has_def)
    with D(4) [OF i(1)] i(2) keep show ?thesis by (auto simp: len)
  qed
  moreover have "i = j" if "subtree_has ?q i" "subtree_has ?q j" "sp_nodes ?q ! i = sp_nodes ?q ! j" for i j
    using that D(5) keep by (auto simp: subtree_has_sweep [OF assms])
  moreover have "distinct (bucket ?q h)" "sp_nodes ?q \<noteq> []" for h
    using D(1,3) len assms by (auto simp flip: length_greater_0_conv)
  ultimately show ?thesis
    unfolding subtree_inv_def by blast
qed

text \<open>What a sweep counts: the identifiers in use that are not live.\<close>

lemma distinct_ids:
  assumes "subtree_inv p"
  shows "distinct (concat (map snd (sp_index p)))"
proof -
  have "distinct (concat (map snd es))" if "distinct (go_keys es)" "set es \<subseteq> set (sp_index p)" for es
    using that
  proof (induction es)
    case Nil
    show ?case by simp
  next
    case (Cons e es)
    obtain h ids where e: "e = (h, ids)" by (cases e)
    have hash: "node_hash (sp_nodes p ! i) = h'" if "(h', ids') \<in> set (e # es)" "i \<in> set ids'" for i h' ids'
      using Cons.prems(2) that bucket_in_set [OF assms, of h' ids'] subtree_invD(4) [OF assms, of i h'] by auto
    have "set ids \<inter> set ids' = {}" if "(h', ids') \<in> set es" for h' ids'
    proof -
      from that Cons.prems(1) have "h \<noteq> h'" by (force simp: e)
      with hash [of h' ids'] hash [of h ids] that show ?thesis by (auto simp: e)
    qed
    then have "set ids \<inter> set (concat (map snd es)) = {}" by fastforce
    moreover have "distinct ids"
      using Cons.prems(2) bucket_in_set [OF assms, of h ids] subtree_invD(3) [OF assms, of h] by (simp add: e)
    ultimately show ?case using Cons by (simp add: e)
  qed
  from this [of "sp_index p"] show ?thesis using subtree_invD(2) [OF assms] by simp
qed

lemma subtree_sweep_count:
  assumes "subtree_inv p"
  shows "fst (subtree_delete_unreachable live p) = card {i. subtree_has p i \<and> i \<notin> live}"
proof -
  have "fst (subtree_delete_unreachable live p) = card (set (dead_ids live (concat (map snd (sp_index p)))))"
    using distinct_ids [OF assms] by (simp add: subtree_delete_unreachable_eq [OF assms] distinct_card del: set_filter)
  also have "set (dead_ids live (concat (map snd (sp_index p)))) = {i. subtree_has p i \<and> i \<notin> live}"
    using subtree_has_listed [OF assms] subtree_has_not_0 [OF assms] by (auto simp del: set_concat intro!: gr0I)
  finally show ?thesis .
qed

end
