(* ===== verification/Dedup_Core.thy ===== *)
theory Dedup_Core
  imports Keys Value_Pool Subtree_Pool
begin

text \<open>
  The state of \<open>DedupStore\<close> (\<open>store/dedup_store.go\<close>) and its core: \<open>decompose\<close> takes a tree apart into
  the two pools, \<open>reconstruct\<close> builds it again. \<open>decompose\<close> recurses on the tree. \<open>reconstruct\<close> recurses on the
  node graph with no guard of its own, so it takes fuel, \<open>None\<close> meaning that it has not returned; the invariant makes every
  child's NodeID smaller than its parent's, so fuel above the NodeID is enough (\<open>reconstruct_returns\<close>).
\<close>

section \<open>State\<close>

record dedup_store =
  ds_values :: value_pool
  ds_subtrees :: subtree_pool
  ds_objects :: "(object_key, nat) gomap"
  ds_refcounts :: "(nat, 32 word) gomap"

definition NewDedupStore :: dedup_store where
  "NewDedupStore = \<lparr>ds_values = NewValueInternPool, ds_subtrees = NewSubtreeInternPool, ds_objects = [], ds_refcounts = []\<rparr>"

abbreviation resolve_node :: "dedup_store \<Rightarrow> nat \<Rightarrow> node" where
  "resolve_node s \<equiv> subtree_resolve (ds_subtrees s)"

abbreviation resolve_value :: "dedup_store \<Rightarrow> nat \<Rightarrow> iface" where
  "resolve_value s \<equiv> value_resolve (ds_values s)"

abbreviation has_node :: "dedup_store \<Rightarrow> nat \<Rightarrow> bool" where
  "has_node s \<equiv> subtree_has (ds_subtrees s)"

abbreviation has_value :: "dedup_store \<Rightarrow> nat \<Rightarrow> bool" where
  "has_value s \<equiv> value_has (ds_values s)"

section \<open>decompose\<close>

definition intern_value :: "iface \<Rightarrow> dedup_store \<Rightarrow> nat \<times> dedup_store" where
  "intern_value v s = (let (i, p) = value_intern v (ds_values s) in (i, s\<lparr>ds_values := p\<rparr>))"

definition intern_node :: "node \<Rightarrow> dedup_store \<Rightarrow> nat \<times> dedup_store" where
  "intern_node n s = (let (i, p) = subtree_intern n (ds_subtrees s) in (i, s\<lparr>ds_subtrees := p\<rparr>))"

definition intern_scalar :: "iface \<Rightarrow> dedup_store \<Rightarrow> nat \<times> dedup_store" where
  "intern_scalar v s = (let (vid, s1) = intern_value v s in intern_node (scalar_node vid) s1)"

fun decompose :: "gval \<Rightarrow> dedup_store \<Rightarrow> nat \<times> dedup_store"
  and decompose_entries :: "(string, gval) gomap \<Rightarrow> dedup_store \<Rightarrow> map_entry list \<times> dedup_store"
  and decompose_items :: "gval list \<Rightarrow> dedup_store \<Rightarrow> nat list \<times> dedup_store" where
  "decompose (Scalar v) s =
     (case v of
        INil \<Rightarrow> intern_node (scalar_node 0) s
      | IString t \<Rightarrow> intern_scalar (IString t) s
      | IInt64 t \<Rightarrow> intern_scalar (IInt64 t) s
      | IFloat64 t \<Rightarrow> intern_scalar (IFloat64 t) s
      | IBool t \<Rightarrow> intern_scalar (IBool t) s
      | IInt t \<Rightarrow> intern_scalar (IInt64 t) s
      | IInt32 t \<Rightarrow> intern_scalar (IInt64 (scast t)) s
      | IUint t \<Rightarrow> intern_scalar (IInt64 t) s
      | IUint32 t \<Rightarrow> intern_scalar (IInt64 (ucast t)) s
      | IUint64 t \<Rightarrow> intern_scalar (IInt64 t) s
      | IOther r \<Rightarrow> intern_scalar (IString r) s)"
| "decompose (GMap kvs) s =
     (let (entries, s1) = decompose_entries kvs s
      in intern_node (map_node (sort_key entry_key entries)) s1)"
| "decompose (GSlice xs) s =
     (let (items, s1) = decompose_items xs s
      in intern_node (slice_node items) s1)"
| "decompose_entries [] s = ([], s)"
| "decompose_entries ((k, v) # kvs) s =
     (let (key_id, s1) = intern_value (IString k) s;
          (val_id, s2) = decompose v s1;
          (entries, s3) = decompose_entries kvs s2
      in (\<lparr>entry_key = key_id, entry_value = val_id\<rparr> # entries, s3))"
| "decompose_items [] s = ([], s)"
| "decompose_items (x # xs) s =
     (let (i, s1) = decompose x s;
          (items, s2) = decompose_items xs s1
      in (i # items, s2))"

text \<open>The eleven scalar cases are one: nil is ValueID 0, the others intern their canonical form.\<close>

lemma decompose_scalar: "decompose (Scalar v) s = intern_scalar (normalise v) s"
  by (cases v) (auto simp: intern_scalar_def intern_value_def)

declare decompose.simps(1) [simp del] decompose_scalar [simp]

section \<open>reconstruct\<close>

definition key_string :: "dedup_store \<Rightarrow> nat \<Rightarrow> string" where
  "key_string s k = (case resolve_value s k of IString x \<Rightarrow> x | _ \<Rightarrow> '''')"

primrec reconstruct :: "nat \<Rightarrow> dedup_store \<Rightarrow> nat \<Rightarrow> gval option" where
  "reconstruct 0 s i = None"
| "reconstruct (Suc fuel) s i =
     (let n = resolve_node s i
      in case node_kind n of
           NodeKindScalar \<Rightarrow> Some (Scalar (resolve_value s (node_value n)))
         | NodeKindMap \<Rightarrow>
             map_option GMap
               (foldM (\<lambda>e m. case reconstruct fuel s (entry_value e) of
                              None \<Rightarrow> None
                            | Some x \<Rightarrow> Some (go_put (key_string s (entry_key e)) x m))
                  (node_entries n) [])
         | NodeKindSlice \<Rightarrow> map_option GSlice (mapM (reconstruct fuel s) (node_items n)))"

section \<open>Invariant of the node graph\<close>

definition node_ok :: "dedup_store \<Rightarrow> node \<Rightarrow> bool" where
  "node_ok s n \<longleftrightarrow> (case node_kind n of
      NodeKindScalar \<Rightarrow> has_value s (node_value n)
    | NodeKindMap \<Rightarrow> sorted_wrt (<) (map entry_key (node_entries n)) \<and>
        (\<forall>e\<in>set (node_entries n). has_value s (entry_key e) \<and>
           (\<exists>x. resolve_value s (entry_key e) = IString x) \<and> has_node s (entry_value e))
    | NodeKindSlice \<Rightarrow> (\<forall>i\<in>set (node_items n). has_node s i))"

definition nodes_inv :: "dedup_store \<Rightarrow> bool" where
  "nodes_inv s \<longleftrightarrow> value_inv (ds_values s) \<and> subtree_inv (ds_subtrees s) \<and>
     (\<forall>i. has_node s i \<longrightarrow> node_ok s (resolve_node s i) \<and> (\<forall>c\<in>set (children (resolve_node s i)). c < i))"

text \<open>\<open>extends s t\<close>: \<open>t\<close> is \<open>s\<close> after interning more; objects and reference counts are untouched.\<close>

definition extends :: "dedup_store \<Rightarrow> dedup_store \<Rightarrow> bool" where
  "extends s t \<longleftrightarrow> vp.ext (ds_values s) (ds_values t) \<and> sp.ext (ds_subtrees s) (ds_subtrees t) \<and>
     ds_objects t = ds_objects s \<and> ds_refcounts t = ds_refcounts s"

lemma nodes_invD:
  assumes "nodes_inv s"
  shows "value_inv (ds_values s)" "subtree_inv (ds_subtrees s)"
    and "has_node s i \<Longrightarrow> node_ok s (resolve_node s i)"
    and "has_node s i \<Longrightarrow> c \<in> set (children (resolve_node s i)) \<Longrightarrow> c < i"
  using assms by (auto simp: nodes_inv_def)

lemma nodes_inv_new: "nodes_inv NewDedupStore"
  by (simp add: nodes_inv_def NewDedupStore_def value_inv_new subtree_inv_new)
     (simp add: NewSubtreeInternPool_def subtree_has_def bucket_def)

lemma children_has: "node_ok s n \<Longrightarrow> c \<in> set (children n) \<Longrightarrow> has_node s c"
  by (auto simp: node_ok_def children_def split: node_kind.splits)

lemma has_node_child:
  "nodes_inv s \<Longrightarrow> has_node s i \<Longrightarrow> c \<in> set (children (resolve_node s i)) \<Longrightarrow> has_node s c"
  using children_has nodes_invD(3) by blast

lemma extends_refl: "nodes_inv s \<Longrightarrow> extends s s"
  by (simp add: extends_def nodes_invD vp.ext_refl sp.ext_refl)

lemma extends_trans: "extends s t \<Longrightarrow> extends t u \<Longrightarrow> extends s u"
  by (auto simp: extends_def intro: vp.ext_trans sp.ext_trans)

lemma extendsD:
  assumes "extends s t"
  shows "has_value s i \<Longrightarrow> has_value t i" "has_value s i \<Longrightarrow> resolve_value t i = resolve_value s i"
    "has_node s i \<Longrightarrow> has_node t i" "has_node s i \<Longrightarrow> resolve_node t i = resolve_node s i"
    "value_inv (ds_values t)" "subtree_inv (ds_subtrees t)"
    "ds_objects t = ds_objects s" "ds_refcounts t = ds_refcounts s"
  using assms by (auto simp: extends_def vp.ext_def sp.ext_def)

lemma node_ok_extends: "extends s t \<Longrightarrow> node_ok s n \<Longrightarrow> node_ok t n"
  by (auto simp: node_ok_def extendsD split: node_kind.splits)

text \<open>Interning a value or a node whose parts are in use keeps the invariant.\<close>

lemma intern_value_correct:
  assumes "nodes_inv s"
  shows "nodes_inv (snd (intern_value v s))" "extends s (snd (intern_value v s))"
    "has_value (snd (intern_value v s)) (fst (intern_value v s))"
    "scalar_sem (resolve_value (snd (intern_value v s)) (fst (intern_value v s))) = scalar_sem v"
proof -
  let ?t = "snd (intern_value v s)"
  note D = nodes_invD [OF assms]
  have t: "?t = s\<lparr>ds_values := snd (value_intern v (ds_values s))\<rparr>"
    and f: "fst (intern_value v s) = fst (value_intern v (ds_values s))"
    by (simp_all add: intern_value_def split: prod.splits)
  show ext: "extends s ?t"
    using vp.ext_intern [OF D(1)] sp.ext_refl [OF D(2)] by (simp add: t extends_def)
  show "has_value ?t (fst (intern_value v s))"
    "scalar_sem (resolve_value ?t (fst (intern_value v s))) = scalar_sem v"
    using vp.intern_has [OF D(1)] vp.intern_same [OF D(1)] by (simp_all add: t f)
  show "nodes_inv ?t"
    using D(2) D(3) [THEN node_ok_extends [OF ext]] D(4) extendsD(5) [OF ext]
    by (auto simp: nodes_inv_def t)
qed

lemma intern_node_correct:
  assumes "nodes_inv s" "node_normal n" "node_ok s n"
  shows "nodes_inv (snd (intern_node n s))" "extends s (snd (intern_node n s))"
    "has_node (snd (intern_node n s)) (fst (intern_node n s))"
    "resolve_node (snd (intern_node n s)) (fst (intern_node n s)) = n"
proof -
  let ?t = "snd (intern_node n s)"
  note D = nodes_invD [OF assms(1)]
  have t: "?t = s\<lparr>ds_subtrees := snd (subtree_intern n (ds_subtrees s))\<rparr>"
    and f: "fst (intern_node n s) = fst (subtree_intern n (ds_subtrees s))"
    by (simp_all add: intern_node_def split: prod.splits)
  show ext: "extends s ?t"
    using sp.ext_intern [OF D(2) assms(2)] vp.ext_refl [OF D(1)] by (simp add: t extends_def)
  show "has_node ?t (fst (intern_node n s))" "resolve_node ?t (fst (intern_node n s)) = n"
    using sp.intern_has [OF D(2) assms(2)] sp.intern_same [OF D(2) assms(2)] by (simp_all add: t f)
  have "node_ok ?t (resolve_node ?t i)" if "has_node ?t i" for i
  proof (cases "has_node s i")
    case True
    with D(3) ext show ?thesis by (simp add: extendsD(4) node_ok_extends)
  next
    case False
    with that have "resolve_node ?t i = n"
      by (cases rule: subtree_intern_cases [of n "ds_subtrees s"])
         (auto simp: t subtree_resolve_def subtree_add_node)
    with assms(3) ext show ?thesis by (simp add: node_ok_extends)
  qed
  moreover have "c < i" if "has_node ?t i" "c \<in> set (children (resolve_node ?t i))" for i c
    using subtree_intern_descends [OF D(2) assms(2), of i c] D(4) children_has [OF assms(3)] that
    by (simp add: t)
  ultimately show "nodes_inv ?t"
    using extendsD(5,6) [OF ext] by (auto simp: nodes_inv_def)
qed

end
