(* ===== verification/Dedup_Tree.thy ===== *)
theory Dedup_Tree
  imports Dedup_Core
begin

text \<open>
  What \<open>decompose\<close> and \<open>reconstruct\<close> compute. \<open>node_tree s i\<close> is the tree \<open>reconstruct\<close>
  returns for the NodeID \<open>i\<close> and \<open>node_sem s i\<close> what it denotes. The main results: reconstruction
  always returns, decomposing a tree and reconstructing it gives the same meaning back, and decomposing a tree
  whose meaning is stored already returns the stored NodeID and changes nothing (maximal sharing).
\<close>

section \<open>reconstruct returns\<close>

definition node_tree :: "dedup_store \<Rightarrow> nat \<Rightarrow> gval" where
  "node_tree s i = the (reconstruct (Suc i) s i)"

abbreviation node_sem :: "dedup_store \<Rightarrow> nat \<Rightarrow> aval" where
  "node_sem s i \<equiv> sem (node_tree s i)"

lemma string_value_unique:
  assumes "nodes_inv s" "has_value s i" "has_value s j" "resolve_value s i = IString x" "resolve_value s j = IString x"
  shows "i = j"
  using value_intern_reuse [OF nodes_invD(1) [OF assms(1)], of "IString x" i]
    value_intern_reuse [OF nodes_invD(1) [OF assms(1)], of "IString x" j] assms by simp

lemma entries_distinct_strings:
  assumes "nodes_inv s" "node_ok s n" "node_kind n = NodeKindMap"
  shows "distinct (map (\<lambda>e. key_string s (entry_key e)) (node_entries n))"
proof -
  let ?es = "node_entries n"
  from assms have keys: "has_value s (entry_key e)" "\<exists>x. resolve_value s (entry_key e) = IString x" if "e \<in> set ?es" for e
    using that by (auto simp: node_ok_def)
  have "entry_key d = entry_key e"
    if "d \<in> set ?es" "e \<in> set ?es" "key_string s (entry_key d) = key_string s (entry_key e)" for d e
  proof -
    from keys [OF that(1)] keys [OF that(2)] that(3) obtain x
      where x: "resolve_value s (entry_key d) = IString x" "resolve_value s (entry_key e) = IString x"
      by (auto simp: key_string_def)
    with keys(1) [OF that(1)] keys(1) [OF that(2)] show ?thesis by (rule string_value_unique [OF assms(1)])
  qed
  moreover have "distinct (map entry_key ?es)"
    using assms(2,3) strict_sorted_iff by (auto simp: node_ok_def)
  ultimately show ?thesis
    by (auto simp: distinct_map inj_on_def)
qed

lemma reconstruct_unfold:
  assumes "nodes_inv s" "has_node s i"
    and "\<And>c. c \<in> set (children (resolve_node s i)) \<Longrightarrow> reconstruct fuel s c = Some (t c)"
  shows "reconstruct (Suc fuel) s i = Some (let n = resolve_node s i in
    case node_kind n of
      NodeKindScalar \<Rightarrow> Scalar (resolve_value s (node_value n))
    | NodeKindMap \<Rightarrow> GMap (map (\<lambda>e. (key_string s (entry_key e), t (entry_value e))) (node_entries n))
    | NodeKindSlice \<Rightarrow> GSlice (map t (node_items n)))"
proof (cases "node_kind (resolve_node s i)")
  case NodeKindScalar
  then show ?thesis by simp
next
  case NodeKindMap
  let ?es = "node_entries (resolve_node s i)"
  from NodeKindMap assms(3) have "\<And>e. e \<in> set ?es \<Longrightarrow> reconstruct fuel s (entry_value e) = Some (t (entry_value e))"
    by (auto simp: children_def)
  with entries_distinct_strings [OF assms(1) nodes_invD(3) [OF assms(1,2)] NodeKindMap] NodeKindMap show ?thesis
    by (simp add: foldM_go_put)
next
  case NodeKindSlice
  with assms(3) show ?thesis by (simp add: children_def mapM_Some)
qed

text \<open>Fuel above the NodeID is enough, and more changes nothing.\<close>

lemma reconstruct_returns:
  "nodes_inv s \<Longrightarrow> has_node s i \<Longrightarrow> i < fuel \<Longrightarrow> reconstruct fuel s i = Some (node_tree s i)"
proof (induction i arbitrary: fuel rule: less_induct)
  case (less i)
  from less.prems(3) obtain f where f: "fuel = Suc f" "i \<le> f" by (cases fuel) auto
  have child: "c < i" "has_node s c" if "c \<in> set (children (resolve_node s i))" for c
    using nodes_invD(4) has_node_child less.prems that by blast+
  from child less.IH [OF _ less.prems(1)] f(2)
  have "reconstruct g s c = Some (node_tree s c)" if "c \<in> set (children (resolve_node s i))" "i \<le> g" for c g
    using that by (meson le_trans less_le_trans)
  with reconstruct_unfold [OF less.prems(1,2)] f show ?case
    by (simp add: node_tree_def [of s i] del: reconstruct.simps)
qed

lemma node_tree_eq:
  assumes "nodes_inv s" "has_node s i"
  shows "node_tree s i = (let n = resolve_node s i in
    case node_kind n of
      NodeKindScalar \<Rightarrow> Scalar (resolve_value s (node_value n))
    | NodeKindMap \<Rightarrow> GMap (map (\<lambda>e. (key_string s (entry_key e), node_tree s (entry_value e))) (node_entries n))
    | NodeKindSlice \<Rightarrow> GSlice (map (node_tree s) (node_items n)))"
proof -
  have "reconstruct i s c = Some (node_tree s c)" if "c \<in> set (children (resolve_node s i))" for c
    using reconstruct_returns [OF assms(1)] nodes_invD(4) [OF assms that] has_node_child [OF assms that] by blast
  from reconstruct_unfold [OF assms this] show ?thesis by (simp add: node_tree_def [of s i])
qed

lemma node_tree_simps:
  assumes "nodes_inv s" "has_node s i"
  shows "resolve_node s i = scalar_node v \<Longrightarrow> node_tree s i = Scalar (resolve_value s v)"
    "resolve_node s i = map_node es \<Longrightarrow>
       node_tree s i = GMap (map (\<lambda>e. (key_string s (entry_key e), node_tree s (entry_value e))) es)"
    "resolve_node s i = slice_node is \<Longrightarrow> node_tree s i = GSlice (map (node_tree s) is)"
  by (simp_all add: node_tree_eq [OF assms])

lemma node_cases:
  assumes "nodes_inv s" "has_node s i"
  obtains (scalar) v where "resolve_node s i = scalar_node v" "has_value s v"
  | (map) es where "resolve_node s i = map_node es" "sorted_wrt (<) (map entry_key es)"
      "\<And>e. e \<in> set es \<Longrightarrow> has_value s (entry_key e) \<and>
         resolve_value s (entry_key e) = IString (key_string s (entry_key e)) \<and> has_node s (entry_value e) \<and> entry_value e < i"
  | (slice) "is" where "resolve_node s i = slice_node is" "\<And>c. c \<in> set is \<Longrightarrow> has_node s c \<and> c < i"
proof -
  note D = nodes_invD [OF assms(1)]
  have ok: "node_ok s (resolve_node s i)" by (rule D(3) [OF assms(2)])
  have below: "c < i" if "c \<in> set (children (resolve_node s i))" for c
    by (rule D(4) [OF assms(2) that])
  have "node_normal (resolve_node s i)"
    using subtree_hasD(3,4) [OF D(2) assms(2)] by simp
  then show ?thesis
  proof (cases rule: node_normal_cases)
    case (scalar v)
    with ok that(1) show ?thesis by (simp add: node_ok_def)
  next
    case m: (map es)
    from ok below have "has_value s (entry_key e) \<and> resolve_value s (entry_key e) = IString (key_string s (entry_key e)) \<and>
        has_node s (entry_value e) \<and> entry_value e < i" if "e \<in> set es" for e
      using that m by (auto simp: node_ok_def key_string_def)
    moreover from ok m have "sorted_wrt (<) (map entry_key es)" by (simp add: node_ok_def)
    ultimately show ?thesis using that(2) m by blast
  next
    case (slice "is")
    with ok below that(3) show ?thesis by (simp add: node_ok_def)
  qed
qed

lemma tree_ok_node_tree: "nodes_inv s \<Longrightarrow> has_node s i \<Longrightarrow> tree_ok (node_tree s i)"
proof (induction i rule: less_induct)
  case (less i)
  from less.prems show ?case
  proof (cases rule: node_cases)
    case (scalar v)
    with less.prems show ?thesis by (simp add: node_tree_simps)
  next
    case (map es)
    have "distinct (map (\<lambda>e. key_string s (entry_key e)) es)"
      using entries_distinct_strings [OF less.prems(1) nodes_invD(3) [OF less.prems]] map(1) by simp
    with map less show ?thesis by (simp add: node_tree_simps list_all_iff comp_def)
  next
    case (slice "is")
    with less show ?thesis by (simp add: node_tree_simps list_all_iff)
  qed
qed

text \<open>The values a reader can meet: the scalars that unstructured content may have, in well-formed maps and slices.\<close>

primrec well_typed :: "gval \<Rightarrow> bool" where
  "well_typed (Scalar v) = (v = INil \<or> canonical v)"
| "well_typed (GMap kvs) = (distinct (go_keys kvs) \<and> list_all (pred_prod (\<lambda>_. True) well_typed) kvs)"
| "well_typed (GSlice xs) = list_all well_typed xs"

lemma well_typed_node_tree: "nodes_inv s \<Longrightarrow> has_node s i \<Longrightarrow> well_typed (node_tree s i)"
proof (induction i rule: less_induct)
  case (less i)
  note tree = tree_ok_node_tree [OF less.prems]
  from less.prems show ?case
  proof (cases rule: node_cases)
    case (scalar v)
    with less.prems value_resolve_canonical [OF nodes_invD(1) [OF less.prems(1)], of v] nodes_invD(1) [OF less.prems(1)] show ?thesis
      by (cases "v = 0") (simp_all add: node_tree_simps)
  next
    case (map es)
    with less tree show ?thesis by (simp add: node_tree_simps list_all_iff comp_def)
  next
    case (slice "is")
    with less show ?thesis by (simp add: node_tree_simps list_all_iff)
  qed
qed

text \<open>Interning more does not change what a NodeID reconstructs to.\<close>

lemma node_tree_extends:
  "nodes_inv s \<Longrightarrow> nodes_inv t \<Longrightarrow> extends s t \<Longrightarrow> has_node s i \<Longrightarrow> node_tree t i = node_tree s i"
proof (induction i rule: less_induct)
  case (less i)
  note E = extendsD [OF less.prems(3)]
  from less.prems(1,4) show ?case
  proof (cases rule: node_cases)
    case (scalar v)
    with less.prems E show ?thesis by (simp add: node_tree_simps)
  next
    case (map es)
    from map(3) E have "key_string t (entry_key e) = key_string s (entry_key e)" if "e \<in> set es" for e
      using that by (simp add: key_string_def)
    with map less E show ?thesis by (simp add: node_tree_simps)
  next
    case (slice "is")
    with less E show ?thesis by (simp add: node_tree_simps)
  qed
qed

section \<open>decompose builds what it is given\<close>

definition entry_for :: "dedup_store \<Rightarrow> map_entry \<Rightarrow> string \<times> gval \<Rightarrow> bool" where
  "entry_for t e kv \<longleftrightarrow> has_value t (entry_key e) \<and> resolve_value t (entry_key e) = IString (fst kv) \<and>
     has_node t (entry_value e) \<and> node_sem t (entry_value e) = sem (snd kv)"

definition item_for :: "dedup_store \<Rightarrow> nat \<Rightarrow> gval \<Rightarrow> bool" where
  "item_for t i x \<longleftrightarrow> has_node t i \<and> node_sem t i = sem x"

lemma entry_for_extends: "nodes_inv s \<Longrightarrow> nodes_inv t \<Longrightarrow> extends s t \<Longrightarrow> entry_for s e kv \<Longrightarrow> entry_for t e kv"
  by (simp add: entry_for_def extendsD node_tree_extends)

lemma item_for_extends: "nodes_inv s \<Longrightarrow> nodes_inv t \<Longrightarrow> extends s t \<Longrightarrow> item_for s i x \<Longrightarrow> item_for t i x"
  by (simp add: item_for_def extendsD node_tree_extends)

lemma resolve_string:
  assumes "nodes_inv s" "has_value s i" "scalar_sem (resolve_value s i) = AString x"
  shows "resolve_value s i = IString x"
proof -
  have "i \<noteq> 0" using assms(1,3) by (metis aval.distinct(1) nodes_invD(1) scalar_sem.simps(1) value_resolve_0)
  from value_resolve_canonical [OF nodes_invD(1) [OF assms(1)] assms(2) this] assms(3) show ?thesis
    by (cases "resolve_value s i") auto
qed

lemma intern_scalar_correct:
  assumes "nodes_inv s" "intern_scalar v s = (i, t)"
  shows "nodes_inv t \<and> extends s t \<and> item_for t i (Scalar v)"
proof -
  obtain vid s1 where v: "intern_value v s = (vid, s1)" by (cases "intern_value v s")
  note V = intern_value_correct [OF assms(1), of v, unfolded v fst_conv snd_conv]
  from assms(2) have n: "intern_node (scalar_node vid) s1 = (i, t)" by (simp add: intern_scalar_def v)
  have "node_ok s1 (scalar_node vid)" using V(3) by (simp add: node_ok_def)
  note N = intern_node_correct [OF V(1) _ this, unfolded n fst_conv snd_conv, simplified]
  with V extends_trans extendsD(2) [OF N(2)] show ?thesis
    by (auto simp: item_for_def node_tree_simps)
qed

text \<open>The sorted entries are strictly sorted and denote the same map.\<close>

lemma sort_entries:
  assumes "nodes_inv t" "list_all2 (entry_for t) es kvs" "distinct (go_keys kvs)"
  shows "sorted_wrt (<) (map entry_key (sort_key entry_key es))"
    and "map_of (map (\<lambda>e. (key_string t (entry_key e), node_sem t (entry_value e))) (sort_key entry_key es)) =
      map_of (map (map_prod id sem) kvs)"
proof -
  let ?f = "\<lambda>e. (key_string t (entry_key e), node_sem t (entry_value e))"
  have es: "map ?f es = map (map_prod id sem) kvs"
    using assms(2) by (induction rule: list_all2_induct) (auto simp: entry_for_def key_string_def)
  from arg_cong [OF this, of "map fst"] assms(3) have strings: "distinct (map (\<lambda>e. key_string t (entry_key e)) es)"
    by (simp add: comp_def)
  then have "distinct (map entry_key es)"
    by (auto simp: distinct_map inj_on_def)
  then have "distinct (map entry_key (sort_key entry_key es))"
    by (simp add: distinct_map)
  then show "sorted_wrt (<) (map entry_key (sort_key entry_key es))"
    by (simp add: strict_sorted_iff)
  have "distinct (map fst (map ?f (sort_key entry_key es)))"
    using strings by (simp add: comp_def distinct_map)
  moreover have "distinct (map fst (map ?f es))"
    using strings by (simp add: comp_def)
  ultimately have "map_of (map ?f (sort_key entry_key es)) = map_of (map ?f es)"
    by (subst map_of_inject_set) simp_all
  with es show "map_of (map ?f (sort_key entry_key es)) = map_of (map (map_prod id sem) kvs)" by simp
qed

lemma decompose_map_node:
  assumes "nodes_inv s1" "list_all2 (entry_for s1) es kvs" "distinct (go_keys kvs)"
    and "intern_node (map_node (sort_key entry_key es)) s1 = (i, t)"
  shows "nodes_inv t \<and> extends s1 t \<and> item_for t i (GMap kvs)"
proof -
  let ?n = "map_node (sort_key entry_key es)"
  have mem: "\<exists>kv. entry_for s1 e kv" if "e \<in> set es" for e
    using assms(2) that by (metis list_all2_conv_all_nth in_set_conv_nth)
  then have "node_ok s1 ?n"
    using sort_entries(1) [OF assms(1-3)] by (fastforce simp: node_ok_def entry_for_def)
  note N = intern_node_correct [OF assms(1) _ this, unfolded assms(4) fst_conv snd_conv, simplified]
  have "list_all2 (entry_for t) es kvs"
    using assms(2) entry_for_extends [OF assms(1) N(1,2)] by (rule list_all2_mono)
  from sort_entries(2) [OF N(1) this assms(3)] N show ?thesis
    by (simp add: item_for_def node_tree_simps comp_def)
qed

lemma decompose_slice_node:
  assumes "nodes_inv s1" "list_all2 (item_for s1) is xs" "intern_node (slice_node is) s1 = (i, t)"
  shows "nodes_inv t \<and> extends s1 t \<and> item_for t i (GSlice xs)"
proof -
  have "node_ok s1 (slice_node is)"
    using assms(2) by (auto simp: node_ok_def item_for_def list_all2_conv_all_nth in_set_conv_nth)
  note N = intern_node_correct [OF assms(1) _ this, unfolded assms(3) fst_conv snd_conv, simplified]
  have "list_all2 (item_for t) is xs"
    using assms(2) item_for_extends [OF assms(1) N(1,2)] by (rule list_all2_mono)
  then have "map (node_sem t) is = map sem xs"
    by (induction rule: list_all2_induct) (auto simp: item_for_def)
  with N show ?thesis by (simp add: item_for_def node_tree_simps comp_def)
qed

text \<open>An entry of a map: its key is interned, then its value decomposed, then the other entries.\<close>

lemma decompose_entry:
  assumes "nodes_inv s" "intern_value (IString k) s = (kid, s1)"
    and V: "nodes_inv s1 \<Longrightarrow> nodes_inv s2 \<and> extends s1 s2 \<and> item_for s2 vid v"
    and E: "nodes_inv s2 \<Longrightarrow> nodes_inv s3 \<and> extends s2 s3"
  shows "extends s s3 \<and> entry_for s3 \<lparr>entry_key = kid, entry_value = vid\<rparr> (k, v)"
proof -
  note K = intern_value_correct [OF assms(1), of "IString k", unfolded assms(2) fst_conv snd_conv]
  have V: "nodes_inv s2" "extends s1 s2" "item_for s2 vid v" and E: "nodes_inv s3" "extends s2 s3" using V E K(1) by auto
  have "resolve_value s1 kid = IString k"
    using resolve_string [OF K(1,3)] K(4) by simp
  then have "entry_for s2 \<lparr>entry_key = kid, entry_value = vid\<rparr> (k, v)"
    using K(3) V(3) extendsD(1,2) [OF V(2)] by (simp add: entry_for_def item_for_def)
  from entry_for_extends [OF V(1) E this] show ?thesis
    using extends_trans [OF K(2) extends_trans [OF V(2) E(2)]] by blast
qed

lemma decompose_correct:
  "\<And>i t. nodes_inv s \<Longrightarrow> tree_ok v \<Longrightarrow> decompose v s = (i, t) \<Longrightarrow>
     nodes_inv t \<and> extends s t \<and> item_for t i v"
  "\<And>es t. nodes_inv s \<Longrightarrow> list_all (pred_prod (\<lambda>_. True) tree_ok) kvs \<Longrightarrow> decompose_entries kvs s = (es, t) \<Longrightarrow>
     nodes_inv t \<and> extends s t \<and> list_all2 (entry_for t) es kvs"
  "\<And>is t. nodes_inv s \<Longrightarrow> list_all tree_ok xs \<Longrightarrow> decompose_items xs s = (is, t) \<Longrightarrow>
     nodes_inv t \<and> extends s t \<and> list_all2 (item_for t) is xs"
proof (induction v s and kvs s and xs s rule: decompose_decompose_entries_decompose_items.induct)
  case (1 v s)
  from 1(3) have "intern_scalar (normalise v) s = (i, t)" by simp
  from intern_scalar_correct [OF 1(1) this] show ?case by (simp add: item_for_def)
next
  case (2 kvs s)
  obtain es s1 where es: "decompose_entries kvs s = (es, s1)" by (cases "decompose_entries kvs s")
  with 2 have "nodes_inv s1" "extends s s1" "list_all2 (entry_for s1) es kvs" by auto
  moreover from 2(3,4) es have "distinct (go_keys kvs)" "intern_node (map_node (sort_key entry_key es)) s1 = (i, t)"
    by auto
  ultimately show ?case using decompose_map_node extends_trans by blast
next
  case (3 xs s)
  obtain "is" s1 where "is": "decompose_items xs s = (is, s1)" by (cases "decompose_items xs s")
  with 3 have "nodes_inv s1" "extends s s1" "list_all2 (item_for s1) is xs" by auto
  moreover from 3(4) "is" have "intern_node (slice_node is) s1 = (i, t)" by auto
  ultimately show ?case using decompose_slice_node extends_trans by blast
next
  case (4 s)
  then show ?case by (simp add: extends_refl)
next
  case (5 k v kvs s)
  obtain kid s1 where k: "intern_value (IString k) s = (kid, s1)" by (cases "intern_value (IString k) s")
  obtain vid s2 where v: "decompose v s1 = (vid, s2)" by (cases "decompose v s1")
  obtain es' s3 where es: "decompose_entries kvs s2 = (es', s3)" by (cases "decompose_entries kvs s2")
  note K = intern_value_correct(1) [OF 5(3), of "IString k", unfolded k snd_conv]
  from 5(1) [OF k [symmetric] refl K _ v] 5(4)
  have V: "nodes_inv s2 \<and> extends s1 s2 \<and> item_for s2 vid v" by auto
  with 5(2) [OF k [symmetric] refl v [symmetric] refl _ _ es] 5(4)
  have E: "nodes_inv s3 \<and> extends s2 s3 \<and> list_all2 (entry_for s3) es' kvs" by auto
  have "extends s s3 \<and> entry_for s3 \<lparr>entry_key = kid, entry_value = vid\<rparr> (k, v)"
    by (rule decompose_entry [OF 5(3) k]) (use V E in auto)
  moreover from 5(5) have "es = \<lparr>entry_key = kid, entry_value = vid\<rparr> # es'" "t = s3" by (simp_all add: k v es)
  ultimately show ?case using E by simp
next
  case (6 s)
  then show ?case by (simp add: extends_refl)
next
  case (7 x xs s)
  obtain j s1 where x: "decompose x s = (j, s1)" by (cases "decompose x s")
  obtain is' s2 where xs: "decompose_items xs s1 = (is', s2)" by (cases "decompose_items xs s1")
  from 7(1) [OF 7(3) _ x] 7(4) have X: "nodes_inv s1" "extends s s1" "item_for s1 j x" by auto
  from 7(2) [OF x [symmetric] refl X(1) _ xs] 7(4)
  have XS: "nodes_inv s2" "extends s1 s2" "list_all2 (item_for s2) is' xs" by auto
  from item_for_extends [OF X(1) XS(1,2) X(3)] have "item_for s2 j x" .
  moreover from 7(5) have "is = j # is'" "t = s2" by (simp_all add: x xs)
  moreover have "extends s s2" by (rule extends_trans [OF X(2) XS(2)])
  ultimately show ?case using XS by simp
qed

section \<open>Maximal sharing\<close>

lemma intern_value_reuse:
  assumes "nodes_inv s" "\<not> nan_value v" "has_value s i" "scalar_sem (resolve_value s i) = scalar_sem v"
  shows "intern_value v s = (i, s)"
  using value_intern_reuse [OF nodes_invD(1) [OF assms(1)] assms(2-4)] by (simp add: intern_value_def)

lemma intern_node_reuse: "nodes_inv s \<Longrightarrow> has_node s i \<Longrightarrow> resolve_node s i = n \<Longrightarrow> intern_node n s = (i, s)"
  using subtree_intern_reuse nodes_invD(2) by (simp add: intern_node_def)

lemma decompose_entries_reuse:
  assumes "nodes_inv s" "\<And>kv. kv \<in> set kvs \<Longrightarrow> entry_for s (g kv) kv"
    and "\<And>kv. kv \<in> set kvs \<Longrightarrow> decompose (snd kv) s = (entry_value (g kv), s)"
  shows "decompose_entries kvs s = (map g kvs, s)"
  using assms(2,3)
proof (induction kvs)
  case Nil
  show ?case by simp
next
  case (Cons kv kvs)
  obtain k x where kv: "kv = (k, x)" by (cases kv)
  from Cons.prems(1) [of kv] have "intern_value (IString k) s = (entry_key (g kv), s)"
    by (intro intern_value_reuse [OF assms(1)]) (auto simp: entry_for_def kv)
  moreover from Cons.prems(2) [of kv] have "decompose x s = (entry_value (g kv), s)" by (simp add: kv)
  ultimately show ?case using Cons by (simp add: kv)
qed

lemma decompose_items_reuse:
  "(\<And>x. x \<in> set xs \<Longrightarrow> decompose x s = (g x, s)) \<Longrightarrow> decompose_items xs s = (map g xs, s)"
  by (induction xs) auto

lemma sorted_entries_unique:
  assumes "sorted_wrt (<) (map entry_key es)" "distinct (map entry_key fs)" "set fs = set es"
  shows "sort_key entry_key fs = es"
proof (rule map_sorted_distinct_set_unique [where f = entry_key])
  have "distinct (map entry_key es)" using assms(1) by (simp add: strict_sorted_iff)
  then show "inj_on entry_key (set (sort_key entry_key fs) \<union> set es)" by (simp add: assms(3) distinct_map)
  show "distinct (map entry_key (sort_key entry_key fs))" using assms(2) by (simp add: distinct_map)
qed (use assms in \<open>auto simp: strict_sorted_iff\<close>)

lemma map_sem_entries:
  assumes "nodes_inv s" "has_node s i" "resolve_node s i = map_node es" "distinct (go_keys kvs)"
    "sem (GMap kvs) = node_sem s i"
  shows "(\<lambda>e. (key_string s (entry_key e), node_sem s (entry_value e))) ` set es = map_prod id sem ` set kvs"
proof -
  let ?f = "\<lambda>e. (key_string s (entry_key e), node_sem s (entry_value e))"
  have "distinct (map (\<lambda>e. key_string s (entry_key e)) es)"
    using entries_distinct_strings [OF assms(1) nodes_invD(3) [OF assms(1,2)]] assms(3) by simp
  then have "distinct (map fst (map ?f es))" by (simp add: comp_def)
  moreover have "distinct (map fst (map (map_prod id sem) kvs))" using assms(4) by simp
  moreover have "map_of (map ?f es) = map_of (map (map_prod id sem) kvs)"
    using assms(5) by (simp add: node_tree_simps [OF assms(1,2)] assms(3) comp_def)
  ultimately have "set (map ?f es) = set (map (map_prod id sem) kvs)" by (simp only: map_of_inject_set)
  then show ?thesis by simp
qed

text \<open>The entries found for a map are those of its node.\<close>

lemma reused_entries:
  assumes inv: "nodes_inv s" and node: "sorted_wrt (<) (List.map entry_key es)"
    and es: "\<And>e. e \<in> set es \<Longrightarrow> has_value s (entry_key e) \<and> resolve_value s (entry_key e) = IString (key_string s (entry_key e))"
    and kvs: "distinct (go_keys kvs)" and keys: "\<And>e. e \<in> set es \<Longrightarrow> key_string s (entry_key e) \<in> set (go_keys kvs)"
    and g: "\<And>kv. kv \<in> set kvs \<Longrightarrow> g kv \<in> set es \<and> entry_for s (g kv) kv"
  shows "sort_key entry_key (List.map g kvs) = es"
proof (rule sorted_entries_unique [OF node])
  have inj: "kv = kv'" if "kv \<in> set kvs" "kv' \<in> set kvs" "entry_key (g kv) = entry_key (g kv')" for kv kv'
  proof -
    from g [OF that(1)] g [OF that(2)] that(3) have "fst kv = fst kv'" by (simp add: entry_for_def)
    with kvs that(1,2) show ?thesis by (auto simp: distinct_map dest: inj_onD)
  qed
  then show "distinct (List.map entry_key (List.map g kvs))"
    using kvs by (auto simp: distinct_map inj_on_def comp_def)
  have "e \<in> set (List.map g kvs)" if "e \<in> set es" for e
  proof -
    from keys [OF that] obtain kv where kv: "kv \<in> set kvs" "fst kv = key_string s (entry_key e)" by force
    from es [OF that] kv(2) g [OF kv(1)] have "entry_key e = entry_key (g kv)"
      by (intro string_value_unique [OF inv(1), of _ _ "fst kv"]) (auto simp: entry_for_def)
    moreover have "inj_on entry_key (set es)"
      using node by (simp add: strict_sorted_iff distinct_map)
    ultimately have "e = g kv" using that g [OF kv(1)] by (auto dest: inj_onD)
    with kv(1) show ?thesis by simp
  qed
  then show "set (List.map g kvs) = set es" using g by auto
qed

lemma decompose_map_reuse:
  assumes inv: "nodes_inv s" "has_node s i" and kvs: "distinct (go_keys kvs)" and sem: "sem (GMap kvs) = node_sem s i"
    and IH: "\<And>kv j. kv \<in> set kvs \<Longrightarrow> has_node s j \<Longrightarrow> sem (snd kv) = node_sem s j \<Longrightarrow> decompose (snd kv) s = (j, s)"
  shows "decompose (GMap kvs) s = (i, s)"
  using inv
proof (cases rule: node_cases)
  case (map es)
  note img = map_sem_entries [OF inv map(1) kvs sem]
  have "\<exists>e\<in>set es. entry_for s e kv" if "kv \<in> set kvs" for kv
  proof -
    from that img have "map_prod id sem kv \<in> (\<lambda>e. (key_string s (entry_key e), node_sem s (entry_value e))) ` set es"
      by blast
    with map(3) show ?thesis by (auto simp: entry_for_def map_prod_def split_def)
  qed
  then obtain g where g: "g kv \<in> set es" "entry_for s (g kv) kv" if "kv \<in> set kvs" for kv
    by metis
  have "decompose_entries kvs s = (List.map g kvs, s)"
    by (rule decompose_entries_reuse [OF inv(1)]) (use g IH in \<open>auto simp: entry_for_def\<close>)
  moreover have "sort_key entry_key (List.map g kvs) = es"
    by (rule reused_entries [OF inv(1) map(2) _ kvs]) (use map(3) img g in \<open>force+\<close>)
  ultimately show ?thesis using intern_node_reuse [OF inv map(1)] by simp
next
  case (scalar v)
  then show ?thesis using sem by (cases "resolve_value s v") (auto simp: node_tree_simps [OF inv])
next
  case (slice "is")
  then show ?thesis using sem by (simp add: node_tree_simps [OF inv])
qed

lemma decompose_scalar_reuse:
  assumes inv: "nodes_inv s" "has_node s i" and v: "\<not> nan_value v" "scalar_sem v = node_sem s i"
  shows "decompose (Scalar v) s = (i, s)"
  using inv
proof (cases rule: node_cases)
  case (scalar w)
  then have "intern_value (normalise v) s = (w, s)"
    using v by (intro intern_value_reuse [OF inv(1)]) (simp_all add: node_tree_simps [OF inv])
  with intern_node_reuse [OF inv scalar(1)] show ?thesis by (simp add: intern_scalar_def)
next
  case (map es)
  with v show ?thesis by (cases v) (auto simp: node_tree_simps [OF inv])
next
  case (slice "is")
  with v show ?thesis by (cases v) (auto simp: node_tree_simps [OF inv])
qed

lemma decompose_slice_reuse:
  assumes inv: "nodes_inv s" "has_node s i" and sem: "sem (GSlice xs) = node_sem s i"
    and IH: "\<And>x j. x \<in> set xs \<Longrightarrow> has_node s j \<Longrightarrow> sem x = node_sem s j \<Longrightarrow> decompose x s = (j, s)"
  shows "decompose (GSlice xs) s = (i, s)"
  using inv
proof (cases rule: node_cases)
  case (slice "is")
  then have eq: "map (\<lambda>j. node_sem s j) is = map sem xs"
    using sem by (simp add: node_tree_simps [OF inv] comp_def)
  then have len: "length is = length xs" by (metis length_map)
  have "decompose_items xs s = (is, s)"
    using len eq slice(2) IH
  proof (induction "is" xs rule: list_induct2)
    case Nil
    show ?case by simp
  next
    case (Cons j js x xs)
    from Cons.prems(1,2) have "decompose x s = (j, s)" by (intro Cons.prems(3)) auto
    moreover from Cons.prems have "decompose_items xs s = (js, s)" by (intro Cons.IH) auto
    ultimately show ?case by simp
  qed
  with intern_node_reuse [OF inv slice(1)] show ?thesis by simp
next
  case (map es)
  with sem show ?thesis by (simp add: node_tree_simps [OF inv])
next
  case (scalar v)
  with sem show ?thesis by (cases "resolve_value s v") (auto simp: node_tree_simps [OF inv])
qed

lemma decompose_reuse:
  "nodes_inv s \<Longrightarrow> tree_ok v \<Longrightarrow> nan_free v \<Longrightarrow> has_node s i \<Longrightarrow> sem v = node_sem s i \<Longrightarrow> decompose v s = (i, s)"
proof (induction v arbitrary: i)
  case (Scalar v)
  then show ?case using decompose_scalar_reuse by simp
next
  case (GMap kvs)
  show ?case
  proof (rule decompose_map_reuse [OF GMap.prems(1,4) _ GMap.prems(5)])
    fix kv j assume kv: "kv \<in> set kvs" "has_node s j" "sem (snd kv) = node_sem s j"
    with GMap.prems(2,3) have "tree_ok (snd kv)" "nan_free (snd kv)"
      by (auto simp: list_all_iff pred_prod_beta)
    with kv GMap.IH [of kv "snd kv"] GMap.prems(1) show "decompose (snd kv) s = (j, s)"
      by (auto simp: snds.simps)
  qed (use GMap.prems(2) in simp)
next
  case (GSlice xs)
  then show ?case by (intro decompose_slice_reuse) (auto simp: list_all_iff)
qed

text \<open>So NodeIDs are canonical: one per meaning, NaN apart.\<close>

lemma node_sem_inject:
  assumes "nodes_inv s" "has_node s i" "has_node s j" "nan_free (node_tree s i)" "node_sem s i = node_sem s j"
  shows "i = j"
  using decompose_reuse [OF assms(1) tree_ok_node_tree [OF assms(1,2)] assms(4,2) refl]
    decompose_reuse [OF assms(1) tree_ok_node_tree [OF assms(1,2)] assms(4,3,5)] by simp

end
