(* ===== verification/Dedup_Refs.thy ===== *)
theory Dedup_Refs
  imports Dedup_Core
begin

text \<open>
  The reference counts of \<open>DedupStore\<close>: \<open>incRef\<close> and \<open>decRef\<close> walk the whole subtree of a root and
  count each node once for every path that reaches it. The counters are uint32, so they are \<open>32 word\<close> here and
  \<open>++\<close> wraps. The walks take fuel like \<open>reconstruct\<close>; fuel above the root is enough. \<open>paths\<close> is the
  abstract count the counters stand for.
\<close>

section \<open>incRef and decRef\<close>

definition count :: "(nat, 32 word) gomap \<Rightarrow> nat \<Rightarrow> 32 word" where
  "count rc i = (case go_get rc i of None \<Rightarrow> 0 | Some c \<Rightarrow> c)"

primrec inc_ref :: "nat \<Rightarrow> subtree_pool \<Rightarrow> nat \<Rightarrow> (nat, 32 word) gomap \<Rightarrow> (nat, 32 word) gomap option" where
  "inc_ref 0 p i rc = None"
| "inc_ref (Suc fuel) p i rc =
     (if i = 0 then Some rc
      else
        let rc1 = go_put i (count rc i + 1) rc; n = subtree_resolve p i
        in case node_kind n of
             NodeKindMap \<Rightarrow> foldM (\<lambda>e. inc_ref fuel p (entry_value e)) (node_entries n) rc1
           | NodeKindSlice \<Rightarrow> foldM (inc_ref fuel p) (node_items n) rc1
           | NodeKindScalar \<Rightarrow> Some rc1)"

primrec dec_ref :: "nat \<Rightarrow> subtree_pool \<Rightarrow> nat \<Rightarrow> (nat, 32 word) gomap \<Rightarrow> (nat, 32 word) gomap option" where
  "dec_ref 0 p i rc = None"
| "dec_ref (Suc fuel) p i rc =
     (if i = 0 then Some rc
      else
        let rc1 = (if 0 < count rc i then go_put i (count rc i - 1) rc else rc); n = subtree_resolve p i
        in case node_kind n of
             NodeKindMap \<Rightarrow> foldM (\<lambda>e. dec_ref fuel p (entry_value e)) (node_entries n) rc1
           | NodeKindSlice \<Rightarrow> foldM (dec_ref fuel p) (node_items n) rc1
           | NodeKindScalar \<Rightarrow> Some rc1)"

lemma count_put [simp]: "count (go_put i c rc) j = (if j = i then c else count rc j)"
  by (simp add: count_def gomap_simps)

lemma foldM_map: "foldM f (map g xs) s = foldM (\<lambda>x. f (g x)) xs s"
  by (induction xs arbitrary: s) (auto split: option.splits)

text \<open>Both loops of the switch run over the node's children.\<close>

lemma inc_ref_children:
  "i \<noteq> 0 \<Longrightarrow> inc_ref (Suc fuel) p i rc =
     foldM (inc_ref fuel p) (children (subtree_resolve p i)) (go_put i (count rc i + 1) rc)"
  by (auto simp: children_def foldM_map Let_def split: node_kind.splits)

lemma dec_ref_children:
  "i \<noteq> 0 \<Longrightarrow> dec_ref (Suc fuel) p i rc =
     foldM (dec_ref fuel p) (children (subtree_resolve p i))
       (if 0 < count rc i then go_put i (count rc i - 1) rc else rc)"
  by (auto simp: children_def foldM_map Let_def split: node_kind.splits)

section \<open>The number of paths\<close>

primrec paths_fuel :: "nat \<Rightarrow> subtree_pool \<Rightarrow> nat \<Rightarrow> nat \<Rightarrow> nat" where
  "paths_fuel 0 p r i = 0"
| "paths_fuel (Suc fuel) p r i =
     (if r = i then 1 else 0) + sum_list (map (\<lambda>c. paths_fuel fuel p c i) (children (subtree_resolve p r)))"

definition paths :: "subtree_pool \<Rightarrow> nat \<Rightarrow> nat \<Rightarrow> nat" where
  "paths p r i = paths_fuel (Suc r) p r i"

text \<open>
  The pools the walks run on: every child of a node in use is in use and has a smaller NodeID.
\<close>

definition descends :: "subtree_pool \<Rightarrow> bool" where
  "descends p \<longleftrightarrow> (\<forall>i. subtree_has p i \<longrightarrow> i \<noteq> 0 \<and> (\<forall>c\<in>set (children (subtree_resolve p i)). subtree_has p c \<and> c < i))"

lemma nodes_inv_descends: "nodes_inv s \<Longrightarrow> descends (ds_subtrees s)"
  unfolding descends_def using nodes_invD(2,4) has_node_child subtree_has_not_0 by metis

lemma descendsD:
  assumes "descends p" "subtree_has p i"
  shows "i \<noteq> 0" "c \<in> set (children (subtree_resolve p i)) \<Longrightarrow> subtree_has p c"
    "c \<in> set (children (subtree_resolve p i)) \<Longrightarrow> c < i"
  using assms by (auto simp: descends_def)

lemma paths_fuel_enough:
  "descends p \<Longrightarrow> subtree_has p r \<Longrightarrow> r < fuel \<Longrightarrow> paths_fuel fuel p r i = paths p r i"
proof (induction r arbitrary: fuel rule: less_induct)
  case (less r)
  from less.prems(3) obtain f where f: "fuel = Suc f" "r \<le> f" by (cases fuel) auto
  have "paths_fuel g p c i = paths p c i" if "c \<in> set (children (subtree_resolve p r))" "r \<le> g" for c g
    using less.IH [of c g] descendsD [OF less.prems(1,2)] that less.prems(1) by (meson less_le_trans)
  then have "sum_list (map (\<lambda>c. paths_fuel g p c i) (children (subtree_resolve p r))) =
      sum_list (map (\<lambda>c. paths p c i) (children (subtree_resolve p r)))" if "r \<le> g" for g
    using that by (intro sum_list_cong) simp
  with f show ?case by (simp add: paths_def [of p r])
qed

lemma paths_eq:
  assumes "descends p" "subtree_has p r"
  shows "paths p r i = (if r = i then 1 else 0) + sum_list (map (\<lambda>c. paths p c i) (children (subtree_resolve p r)))"
proof -
  have "sum_list (map (\<lambda>c. paths_fuel r p c i) (children (subtree_resolve p r))) =
      sum_list (map (\<lambda>c. paths p c i) (children (subtree_resolve p r)))"
    using paths_fuel_enough [OF assms(1)] descendsD [OF assms] by (intro sum_list_cong) simp
  then show ?thesis by (simp add: paths_def [of p r])
qed

lemma paths_frame:
  assumes "descends p" "descends q"
    and "\<And>j. subtree_has p j \<Longrightarrow> P j \<Longrightarrow> subtree_has q j \<and> subtree_resolve q j = subtree_resolve p j \<and>
      (\<forall>c\<in>set (children (subtree_resolve p j)). P c)"
  shows "subtree_has p r \<Longrightarrow> P r \<Longrightarrow> paths q r i = paths p r i"
proof (induction r rule: less_induct)
  case (less r)
  note q = assms(3) [OF less.prems]
  have "sum_list (map (\<lambda>c. paths q c i) (children (subtree_resolve p r))) =
      sum_list (map (\<lambda>c. paths p c i) (children (subtree_resolve p r)))"
    using less.IH descendsD [OF assms(1) less.prems(1)] q by (intro sum_list_cong) simp
  with q show ?case
    by (simp add: paths_eq [OF assms(1) less.prems(1)] paths_eq [OF assms(2), of r])
qed

lemma paths_above: "descends p \<Longrightarrow> subtree_has p r \<Longrightarrow> paths p r i \<noteq> 0 \<Longrightarrow> i \<le> r"
proof (induction r rule: less_induct)
  case (less r)
  show ?case
  proof (cases "r = i")
    case False
    with less.prems(3) obtain c where c: "c \<in> set (children (subtree_resolve p r))" "paths p c i \<noteq> 0"
      by (auto simp: paths_eq [OF less.prems(1,2)])
    with less.IH [of c] descendsD [OF less.prems(1,2)] less.prems(1) show ?thesis by fastforce
  qed simp
qed

section \<open>The walks count paths\<close>

definition added :: "(nat, 32 word) gomap \<Rightarrow> (nat \<Rightarrow> nat) \<Rightarrow> (nat, 32 word) gomap \<Rightarrow> bool" where
  "added rc f rc' \<longleftrightarrow> (\<forall>i. count rc' i = count rc i + of_nat (f i))"

lemma inc_ref_list:
  assumes "\<And>c rc. c \<in> set cs \<Longrightarrow> returns (inc_ref fuel p c rc) (added rc (paths p c))"
  shows "returns (foldM (inc_ref fuel p) cs rc) (added rc (\<lambda>i. sum_list (map (\<lambda>c. paths p c i) cs)))"
  using assms
proof (induction cs arbitrary: rc)
  case Nil
  show ?case by (simp add: added_def)
next
  case (Cons c cs)
  from Cons.prems [of c rc] obtain rc1 where rc1: "inc_ref fuel p c rc = Some rc1" "added rc (paths p c) rc1"
    by (auto elim: returnsE)
  from Cons.IH [of rc1] Cons.prems have "returns (foldM (inc_ref fuel p) cs rc1) (added rc1 (\<lambda>i. sum_list (map (\<lambda>c. paths p c i) cs)))"
    by simp
  with rc1 show ?case
    by (auto elim!: returns_mono simp: added_def algebra_simps)
qed

lemma inc_ref_correct:
  "descends p \<Longrightarrow> subtree_has p r \<Longrightarrow> r < fuel \<Longrightarrow> returns (inc_ref fuel p r rc) (added rc (paths p r))"
proof (induction r arbitrary: fuel rc rule: less_induct)
  case (less r)
  from less.prems(3) obtain f where f: "fuel = Suc f" "r \<le> f" by (cases fuel) auto
  note D = descendsD [OF less.prems(1,2)]
  have "returns (inc_ref f p c rc) (added rc (paths p c))" if "c \<in> set (children (subtree_resolve p r))" for c rc
    using less.IH [of c f rc] D that f(2) less.prems(1) by (meson less_le_trans)
  from inc_ref_list [OF this]
  show ?case unfolding f(1) inc_ref_children [OF D(1)]
    by (rule returns_mono) (auto simp: added_def paths_eq [OF less.prems(1,2)])
qed

text \<open>Decrementing is exact as long as no counter on the way is smaller than what is taken from it.\<close>

definition removed :: "(nat, 32 word) gomap \<Rightarrow> (nat \<Rightarrow> nat) \<Rightarrow> (nat, 32 word) gomap \<Rightarrow> bool" where
  "removed rc f rc' \<longleftrightarrow> (\<forall>i. unat (count rc' i) = unat (count rc i) - f i)"

lemma dec_ref_list:
  assumes "\<And>c rc. c \<in> set cs \<Longrightarrow> returns (dec_ref fuel p c rc) (removed rc (paths p c))"
  shows "returns (foldM (dec_ref fuel p) cs rc) (removed rc (\<lambda>i. sum_list (map (\<lambda>c. paths p c i) cs)))"
  using assms
proof (induction cs arbitrary: rc)
  case Nil
  show ?case by (simp add: removed_def)
next
  case (Cons c cs)
  from Cons.prems [of c rc] obtain rc1 where rc1: "dec_ref fuel p c rc = Some rc1" "removed rc (paths p c) rc1"
    by (auto elim: returnsE)
  from Cons.IH [of rc1] Cons.prems have "returns (foldM (dec_ref fuel p) cs rc1) (removed rc1 (\<lambda>i. sum_list (map (\<lambda>c. paths p c i) cs)))"
    by simp
  with rc1 show ?case
    by (auto elim!: returns_mono simp: removed_def)
qed

lemma unat_dec: "0 < (x :: 32 word) \<Longrightarrow> unat (x - 1) = unat x - 1"
  by (simp add: unat_minus_one word_greater_zero_iff)

lemma dec_ref_correct:
  "descends p \<Longrightarrow> subtree_has p r \<Longrightarrow> r < fuel \<Longrightarrow> returns (dec_ref fuel p r rc) (removed rc (paths p r))"
proof (induction r arbitrary: fuel rc rule: less_induct)
  case (less r)
  from less.prems(3) obtain f where f: "fuel = Suc f" "r \<le> f" by (cases fuel) auto
  note D = descendsD [OF less.prems(1,2)]
  have "returns (dec_ref f p c rc) (removed rc (paths p c))" if "c \<in> set (children (subtree_resolve p r))" for c rc
    using less.IH [of c f rc] D that f(2) less.prems(1) by (meson less_le_trans)
  from dec_ref_list [OF this]
  show ?case unfolding f(1) dec_ref_children [OF D(1)]
    by (rule returns_mono)
       (auto simp: removed_def paths_eq [OF less.prems(1,2)] unat_dec word_greater_zero_iff split: if_splits)
qed

end
