(* ===== verification/Dedup_Store.thy ===== *)
theory Dedup_Store
  imports Dedup_Tree Dedup_Refs
begin

text \<open>
  The operations of \<open>DedupStore\<close> (\<open>store/dedup_store.go\<close>): \<open>Upsert\<close>, \<open>Delete\<close> and
  \<open>Get\<close>; \<open>GC\<close> is in \<open>Dedup_GC\<close>. Each is one atomic step, as it runs under the store's mutex. \<open>None\<close> is a call that does not
  return; \<open>node_fuel\<close>, the number of node slots, is above every NodeID, so that never happens on a well-formed
  store. \<open>store_view\<close> is the abstract store.
\<close>

definition node_fuel :: "dedup_store \<Rightarrow> nat" where
  "node_fuel s = length (sp_nodes (ds_subtrees s))"

section \<open>Operations\<close>

definition Upsert :: "object_key \<Rightarrow> gobj \<Rightarrow> dedup_store \<Rightarrow> dedup_store option" where
  "Upsert key obj s =
     (let (new_root, s1) = decompose (GMap obj) s
      in do {
        rc1 \<leftarrow> (case go_get (ds_objects s1) key of
                  Some old_root \<Rightarrow> dec_ref (node_fuel s1) (ds_subtrees s1) old_root (ds_refcounts s1)
                | None \<Rightarrow> Some (ds_refcounts s1));
        rc2 \<leftarrow> inc_ref (node_fuel s1) (ds_subtrees s1) new_root rc1;
        Some (s1\<lparr>ds_objects := go_put key new_root (ds_objects s1), ds_refcounts := rc2\<rparr>)
      })"

definition Delete :: "object_key \<Rightarrow> dedup_store \<Rightarrow> dedup_store option" where
  "Delete key s =
     (case go_get (ds_objects s) key of
        None \<Rightarrow> Some s
      | Some root \<Rightarrow> do {
          rc \<leftarrow> dec_ref (node_fuel s) (ds_subtrees s) root (ds_refcounts s);
          Some (s\<lparr>ds_objects := go_del key (ds_objects s), ds_refcounts := rc\<rparr>)
        })"

definition Get :: "object_key \<Rightarrow> dedup_store \<Rightarrow> gobj option option" where
  "Get key s =
     (case go_get (ds_objects s) key of
        None \<Rightarrow> Some None
      | Some root \<Rightarrow> do {
          raw \<leftarrow> reconstruct (node_fuel s) s root;
          Some (case raw of GMap m \<Rightarrow> Some m | _ \<Rightarrow> None)
        })"

section \<open>Invariant and abstract store\<close>

definition store_inv :: "dedup_store \<Rightarrow> bool" where
  "store_inv s \<longleftrightarrow> nodes_inv s \<and> distinct (go_keys (ds_objects s)) \<and>
     (\<forall>r\<in>set (map snd (ds_objects s)). has_node s r \<and> node_kind (resolve_node s r) = NodeKindMap)"

definition store_view :: "dedup_store \<Rightarrow> object_key \<Rightarrow> aval option" where
  "store_view s key = map_option (node_sem s) (go_get (ds_objects s) key)"

definition node_obj :: "dedup_store \<Rightarrow> nat \<Rightarrow> gobj" where
  "node_obj s r = (case node_tree s r of GMap m \<Rightarrow> m | _ \<Rightarrow> [])"

lemma store_invD:
  assumes "store_inv s"
  shows "nodes_inv s" "distinct (go_keys (ds_objects s))"
    and "go_get (ds_objects s) key = Some r \<Longrightarrow> has_node s r"
    and "r \<in> set (map snd (ds_objects s)) \<Longrightarrow> has_node s r"
    and "go_get (ds_objects s) key = Some r \<Longrightarrow> node_kind (resolve_node s r) = NodeKindMap"
  using assms by (force simp: store_inv_def dest: map_of_SomeD)+

lemma store_inv_new: "store_inv NewDedupStore"
  using nodes_inv_new by (simp add: store_inv_def) (simp add: NewDedupStore_def)

text \<open>Trees and the node invariant depend on the pools only.\<close>

lemma reconstruct_pools:
  "ds_values s = ds_values t \<Longrightarrow> ds_subtrees s = ds_subtrees t \<Longrightarrow> reconstruct fuel s i = reconstruct fuel t i"
  by (induction fuel arbitrary: i) (auto simp: Let_def key_string_def cong: foldM_cong mapM_cong option.case_cong split: node_kind.split)

lemma node_tree_pools:
  "ds_values s = ds_values t \<Longrightarrow> ds_subtrees s = ds_subtrees t \<Longrightarrow> node_tree s i = node_tree t i"
  unfolding node_tree_def by (metis reconstruct_pools)

lemma nodes_inv_pools:
  "ds_values s = ds_values t \<Longrightarrow> ds_subtrees s = ds_subtrees t \<Longrightarrow> nodes_inv s = nodes_inv t"
  by (simp add: nodes_inv_def node_ok_def cong: node_kind.case_cong)

lemma node_below_fuel: "nodes_inv s \<Longrightarrow> has_node s i \<Longrightarrow> i < node_fuel s"
  using subtree_hasD(2) nodes_invD(2) by (simp add: node_fuel_def)

lemma reconstruct_fuel: "nodes_inv s \<Longrightarrow> has_node s i \<Longrightarrow> reconstruct (node_fuel s) s i = Some (node_tree s i)"
  by (simp add: reconstruct_returns node_below_fuel)

lemma map_root_tree:
  assumes "nodes_inv s" "has_node s r" "node_kind (resolve_node s r) = NodeKindMap"
  shows "node_tree s r = GMap (node_obj s r)"
  using assms by (simp add: node_obj_def node_tree_eq)

lemma map_sem_root:
  assumes "nodes_inv s" "has_node s r" "node_sem s r = sem (GMap kvs)"
  shows "node_kind (resolve_node s r) = NodeKindMap"
  using assms(1,2)
proof (cases rule: node_cases)
  case (scalar v)
  with assms show ?thesis by (cases "resolve_value s v") (auto simp: node_tree_simps)
qed (use assms in \<open>auto simp: node_tree_simps\<close>)

lemma extends_store:
  assumes "store_inv s" "nodes_inv t" "extends s t"
  shows "store_inv t" "store_view t = store_view s"
proof -
  note E = extendsD [OF assms(3)]
  show "store_inv t"
    using assms(1,2) E(3,4) by (auto simp: store_inv_def E(7))
  show "store_view t = store_view s"
    using store_invD(3) [OF assms(1)] node_tree_extends [OF store_invD(1) [OF assms(1)] assms(2,3)]
    by (auto simp: store_view_def E(7) fun_eq_iff map_option_case split: option.split)
qed

text \<open>Changing the objects and the reference counts of a well-formed store.\<close>

lemma store_inv_put:
  fixes key rc
  assumes "store_inv s" "has_node s r" "node_kind (resolve_node s r) = NodeKindMap"
  defines "t \<equiv> s\<lparr>ds_objects := go_put key r (ds_objects s), ds_refcounts := rc\<rparr>"
  shows "store_inv t" "store_view t = (store_view s)(key \<mapsto> node_sem s r)"
proof -
  have pools: "ds_values t = ds_values s" "ds_subtrees t = ds_subtrees s" by (simp_all add: t_def)
  show "store_inv t"
    using assms(1-3) nodes_inv_pools [OF pools] pools go_put_values [of key r "ds_objects s", THEN subsetD]
    unfolding store_inv_def by (auto simp: t_def simp del: set_map)
  show "store_view t = (store_view s)(key \<mapsto> node_sem s r)"
    using node_tree_pools [OF pools] by (auto simp: store_view_def t_def gomap_simps)
qed

lemma store_inv_del:
  fixes key rc
  assumes "store_inv s"
  defines "t \<equiv> s\<lparr>ds_objects := go_del key (ds_objects s), ds_refcounts := rc\<rparr>"
  shows "store_inv t" "store_view t = (store_view s)(key := None)"
proof -
  have pools: "ds_values t = ds_values s" "ds_subtrees t = ds_subtrees s" by (simp_all add: t_def)
  show "store_inv t"
    using assms(1) nodes_inv_pools [OF pools] pools go_del_subset [of key "ds_objects s"]
    unfolding store_inv_def by (auto simp: t_def)
  show "store_view t = (store_view s)(key := None)"
    using node_tree_pools [OF pools] by (auto simp: store_view_def t_def gomap_simps)
qed

section \<open>Upsert, Delete and Get\<close>

text \<open>What \<open>Upsert\<close> does, step by step.\<close>

lemma Upsert_steps:
  assumes "store_inv s" "tree_ok (GMap obj)"
  obtains r s1 rc1 rc2 where "decompose (GMap obj) s = (r, s1)" "nodes_inv s1" "extends s s1" "item_for s1 r (GMap obj)"
    "case go_get (ds_objects s) key of
       Some old \<Rightarrow> removed (ds_refcounts s) (paths (ds_subtrees s1) old) rc1 | None \<Rightarrow> rc1 = ds_refcounts s"
    "added rc1 (paths (ds_subtrees s1) r) rc2"
    "Upsert key obj s = Some (s1\<lparr>ds_objects := go_put key r (ds_objects s), ds_refcounts := rc2\<rparr>)"
proof -
  obtain r s1 where d: "decompose (GMap obj) s = (r, s1)" by (cases "decompose (GMap obj) s")
  from decompose_correct(1) [OF store_invD(1) [OF assms(1)] assms(2) d]
  have s1: "nodes_inv s1" "extends s s1" "item_for s1 r (GMap obj)" by auto
  note E = extendsD [OF s1(2)] and desc = nodes_inv_descends [OF s1(1)]
  define m where "m = (case go_get (ds_objects s) key of
      Some old \<Rightarrow> dec_ref (node_fuel s1) (ds_subtrees s1) old (ds_refcounts s)
    | None \<Rightarrow> Some (ds_refcounts s))"
  have "returns m (\<lambda>rc1. case go_get (ds_objects s) key of
       Some old \<Rightarrow> removed (ds_refcounts s) (paths (ds_subtrees s1) old) rc1 | None \<Rightarrow> rc1 = ds_refcounts s)"
  proof (cases "go_get (ds_objects s) key")
    case (Some old)
    with store_invD(3) [OF assms(1)] E(3) have old: "has_node s1 old" by blast
    from dec_ref_correct [OF desc old node_below_fuel [OF s1(1) old]] Some show ?thesis by (simp add: m_def)
  qed (simp add: m_def)
  then obtain rc1 where rc1: "m = Some rc1" "case go_get (ds_objects s) key of
       Some old \<Rightarrow> removed (ds_refcounts s) (paths (ds_subtrees s1) old) rc1 | None \<Rightarrow> rc1 = ds_refcounts s"
    by (rule returnsE)
  have r: "has_node s1 r" using s1(3) by (simp add: item_for_def)
  from inc_ref_correct [OF desc r node_below_fuel [OF s1(1) r]]
  obtain rc2 where rc2: "inc_ref (node_fuel s1) (ds_subtrees s1) r rc1 = Some rc2" "added rc1 (paths (ds_subtrees s1) r) rc2"
    by (rule returnsE)
  have "Upsert key obj s = Some (s1\<lparr>ds_objects := go_put key r (ds_objects s), ds_refcounts := rc2\<rparr>)"
    using rc1(1) rc2(1) by (simp add: Upsert_def d E(7,8) m_def del: decompose.simps(2) cong: option.case_cong)
  from that [OF d s1 rc1(2) rc2(2) this] show ?thesis .
qed

lemma Upsert_correct:
  assumes "store_inv s" "tree_ok (GMap obj)"
  shows "returns (Upsert key obj s) (\<lambda>t. store_inv t \<and> store_view t = (store_view s)(key \<mapsto> sem (GMap obj)))"
proof (rule Upsert_steps [OF assms, of key])
  fix r s1 rc1 rc2
  assume s1: "nodes_inv s1" "extends s s1" "item_for s1 r (GMap obj)"
    and t: "Upsert key obj s = Some (s1\<lparr>ds_objects := go_put key r (ds_objects s), ds_refcounts := rc2\<rparr>)"
  note S = extends_store [OF assms(1) s1(1,2)] and E = extendsD(7) [OF s1(2)]
  from s1(3) have r: "has_node s1 r" "node_sem s1 r = sem (GMap obj)" by (simp_all add: item_for_def)
  from store_inv_put [OF S(1) r(1) map_sem_root [OF s1(1) r], where key = key and rc = rc2] r(2) S(2) t
  show ?thesis by (simp add: E)
qed

lemma Delete_correct:
  assumes "store_inv s"
  shows "returns (Delete key s) (\<lambda>t. store_inv t \<and> store_view t = (store_view s)(key := None))"
proof (cases "go_get (ds_objects s) key")
  case None
  with assms show ?thesis by (auto simp: Delete_def store_view_def fun_eq_iff)
next
  case (Some r)
  note N = store_invD(1) [OF assms] and r = store_invD(3) [OF assms Some]
  from dec_ref_correct [OF nodes_inv_descends [OF N] r node_below_fuel [OF N r], of "ds_refcounts s"]
  obtain rc where "dec_ref (node_fuel s) (ds_subtrees s) r (ds_refcounts s) = Some rc" by (auto elim: returnsE)
  with store_inv_del [OF assms, where key = key and rc = rc] Some show ?thesis by (simp add: Delete_def)
qed

lemma Get_eq:
  assumes "store_inv s"
  shows "Get key s = Some (map_option (node_obj s) (go_get (ds_objects s) key))"
proof (cases "go_get (ds_objects s) key")
  case None
  then show ?thesis by (simp add: Get_def)
next
  case (Some r)
  note N = store_invD(1) [OF assms] and r = store_invD(3,5) [OF assms Some]
  from map_root_tree [OF N r] Some show ?thesis
    by (simp add: Get_def reconstruct_fuel [OF N r(1)])
qed

lemma Get_correct:
  assumes "store_inv s"
  shows "returns (Get key s) (\<lambda>m. map_option (\<lambda>obj. sem (GMap obj)) m = store_view s key)"
proof (cases "go_get (ds_objects s) key")
  case (Some r)
  with map_root_tree [OF store_invD(1) store_invD(3,5), OF assms assms Some assms Some] show ?thesis
    by (simp add: Get_eq [OF assms] store_view_def)
qed (simp add: Get_eq [OF assms] store_view_def)

end
