(* ===== verification/Dedup_Mark.thy ===== *)
theory Dedup_Mark
  imports Dedup_Refs
begin

text \<open>
  The mark phase of \<open>GC\<close> (\<open>walk\<close> in \<open>store/dedup_store.go\<close>): a depth-first search from the roots
  that collects the NodeIDs reached and the ValueIDs they mention. It stops at marked nodes, so it visits each
  node once; fuel above the root is enough. What it marks is exactly what is reachable.
\<close>

type_synonym marks = "nat set \<times> nat set"

fun gc_walk :: "nat \<Rightarrow> subtree_pool \<Rightarrow> nat \<Rightarrow> marks \<Rightarrow> marks option" where
  "gc_walk 0 p i m = None"
| "gc_walk (Suc fuel) p i (live_nodes, live_values) =
     (if i = 0 then Some (live_nodes, live_values)
      else if i \<in> live_nodes then Some (live_nodes, live_values)
      else
        let live_nodes' = insert i live_nodes; n = subtree_resolve p i
        in case node_kind n of
             NodeKindScalar \<Rightarrow> Some (live_nodes', insert (node_value n) live_values)
           | NodeKindMap \<Rightarrow>
               foldM (\<lambda>e (ln, lv). gc_walk fuel p (entry_value e) (ln, insert (entry_key e) lv))
                 (node_entries n) (live_nodes', live_values)
           | NodeKindSlice \<Rightarrow> foldM (gc_walk fuel p) (node_items n) (live_nodes', live_values))"

definition gc_mark :: "nat \<Rightarrow> subtree_pool \<Rightarrow> nat list \<Rightarrow> marks option" where
  "gc_mark fuel p roots = foldM (gc_walk fuel p) roots ({}, {})"

section \<open>Reachability\<close>

definition mentions :: "node \<Rightarrow> nat set" where
  "mentions n = (case node_kind n of
      NodeKindScalar \<Rightarrow> {node_value n}
    | NodeKindMap \<Rightarrow> entry_key ` set (node_entries n)
    | NodeKindSlice \<Rightarrow> {})"

inductive reaches :: "subtree_pool \<Rightarrow> nat \<Rightarrow> nat \<Rightarrow> bool" for p where
  reaches_self: "reaches p r r"
| reaches_child: "reaches p r i \<Longrightarrow> c \<in> set (children (subtree_resolve p i)) \<Longrightarrow> reaches p r c"

lemma reaches_from_child:
  assumes "reaches p c i" "c \<in> set (children (subtree_resolve p r))"
  shows "reaches p r i"
  using assms by (induction rule: reaches.induct) (auto intro: reaches.intros)

lemma reaches_has: "reaches p r i \<Longrightarrow> descends p \<Longrightarrow> subtree_has p r \<Longrightarrow> subtree_has p i"
  by (induction rule: reaches.induct) (auto simp: descends_def)

text \<open>
  The marks are closed but for the nodes on the stack \<open>S\<close>: the children of a marked node are marked, and so are
  the values it mentions. Nothing is marked that no marked node accounts for.
\<close>

definition closed_marks :: "subtree_pool \<Rightarrow> nat set \<Rightarrow> marks \<Rightarrow> bool" where
  "closed_marks p S m \<longleftrightarrow>
     (\<forall>x\<in>fst m - S. set (children (subtree_resolve p x)) \<subseteq> fst m \<and> mentions (subtree_resolve p x) \<subseteq> snd m)"

definition grown :: "subtree_pool \<Rightarrow> nat set \<Rightarrow> nat set \<Rightarrow> marks \<Rightarrow> marks \<Rightarrow> bool" where
  "grown p R V m m' \<longleftrightarrow> fst m \<subseteq> fst m' \<and> snd m \<subseteq> snd m' \<and> fst m' \<subseteq> fst m \<union> R \<and>
     snd m' \<subseteq> snd m \<union> V \<union> (\<Union>x\<in>fst m'. mentions (subtree_resolve p x))"

lemma grown_refl: "grown p R V m m"
  by (auto simp: grown_def)

lemma grown_trans: "grown p R V m m' \<Longrightarrow> grown p R V m' m'' \<Longrightarrow> grown p R V m m''"
  unfolding grown_def by (auto; blast)

text \<open>One walk: the root is marked, the marks grow by what it reaches, and stay closed.\<close>

definition walked :: "subtree_pool \<Rightarrow> nat set \<Rightarrow> nat \<Rightarrow> marks \<Rightarrow> marks \<Rightarrow> bool" where
  "walked p S i m m' \<longleftrightarrow> i \<in> fst m' \<and> grown p {x. reaches p i x} {} m m' \<and> closed_marks p S m'"

text \<open>The loops: \<open>pre\<close> is what the body marks of an element before it walks to the child.\<close>

definition visit :: "nat \<Rightarrow> subtree_pool \<Rightarrow> ('e \<Rightarrow> nat) \<Rightarrow> ('e \<Rightarrow> nat set) \<Rightarrow> 'e \<Rightarrow> marks \<Rightarrow> marks option" where
  "visit fuel p child pre e m = gc_walk fuel p (child e) (fst m, pre e \<union> snd m)"

lemma visits:
  assumes walk: "\<And>e m. e \<in> set es \<Longrightarrow> closed_marks p S m \<Longrightarrow> returns (gc_walk fuel p (child e) m) (walked p S (child e) m)"
    and "closed_marks p S m"
  shows "returns (foldM (visit fuel p child pre) es m)
    (\<lambda>m'. child ` set es \<subseteq> fst m' \<and> (\<Union>e\<in>set es. pre e) \<subseteq> snd m' \<and>
       grown p (\<Union>e\<in>set es. {x. reaches p (child e) x}) (\<Union>e\<in>set es. pre e) m m' \<and> closed_marks p S m')"
  using assms
proof (induction es arbitrary: m)
  case Nil
  then show ?case by (simp add: grown_refl)
next
  case (Cons e es)
  have "closed_marks p S (fst m, pre e \<union> snd m)"
    using Cons.prems(2) by (auto simp: closed_marks_def)
  with Cons.prems(1) obtain m1 where m1: "visit fuel p child pre e m = Some m1"
      "walked p S (child e) (fst m, pre e \<union> snd m) m1"
    by (force simp: visit_def elim: returnsE)
  then have "closed_marks p S m1" by (simp add: walked_def)
  with Cons.IH [of m1] Cons.prems(1) obtain m2 where m2: "foldM (visit fuel p child pre) es m1 = Some m2"
      "child ` set es \<subseteq> fst m2" "(\<Union>e\<in>set es. pre e) \<subseteq> snd m2"
      "grown p (\<Union>e\<in>set es. {x. reaches p (child e) x}) (\<Union>e\<in>set es. pre e) m1 m2" "closed_marks p S m2"
    by (force elim: returnsE)
  let ?R = "\<Union>e\<in>set (e # es). {x. reaches p (child e) x}" and ?V = "\<Union>e\<in>set (e # es). pre e"
  have "grown p ?R ?V m m1" using m1(2) by (auto simp: walked_def grown_def)
  moreover have "grown p ?R ?V m1 m2" using m2(4) by (auto simp: grown_def)
  ultimately have "grown p ?R ?V m m2" by (rule grown_trans)
  moreover have "child e \<in> fst m2" "pre e \<subseteq> snd m2"
    using m1(2) m2(4) by (auto simp: walked_def grown_def)
  ultimately show ?case using m1(1) m2 by simp
qed

text \<open>The body of the walk, its three cases as one loop over the node's elements.\<close>

definition node_visits :: "nat \<Rightarrow> subtree_pool \<Rightarrow> node \<Rightarrow> marks \<Rightarrow> marks option" where
  "node_visits fuel p n m = (case node_kind n of
      NodeKindScalar \<Rightarrow> Some (fst m, insert (node_value n) (snd m))
    | NodeKindMap \<Rightarrow> foldM (visit fuel p entry_value (\<lambda>e. {entry_key e})) (node_entries n) m
    | NodeKindSlice \<Rightarrow> foldM (visit fuel p id (\<lambda>_. {})) (node_items n) m)"

lemma gc_walk_visits:
  "i \<noteq> 0 \<Longrightarrow> i \<notin> fst m \<Longrightarrow> gc_walk (Suc fuel) p i m = node_visits fuel p (subtree_resolve p i) (insert i (fst m), snd m)"
  by (cases m)
     (auto simp: node_visits_def visit_def [abs_def] Let_def split_def cong: foldM_cong split: node_kind.splits)

lemma node_visits_walked:
  assumes "\<And>c m. c \<in> set (children n) \<Longrightarrow> closed_marks p S m \<Longrightarrow> returns (gc_walk fuel p c m) (walked p S c m)"
    and "closed_marks p S m"
  shows "returns (node_visits fuel p n m) (\<lambda>m'. set (children n) \<subseteq> fst m' \<and> mentions n \<subseteq> snd m' \<and>
    grown p (\<Union>c\<in>set (children n). {x. reaches p c x}) (mentions n) m m' \<and> closed_marks p S m')"
proof (cases "node_kind n")
  case NodeKindScalar
  with assms(2) show ?thesis
    by (auto simp: node_visits_def children_def mentions_def grown_def closed_marks_def)
next
  case NodeKindMap
  with assms(1) have "returns (gc_walk fuel p (entry_value e) m) (walked p S (entry_value e) m)"
    if "e \<in> set (node_entries n)" "closed_marks p S m" for e m
    using that by (simp add: children_def)
  from visits [where child = entry_value and es = "node_entries n" and pre = "\<lambda>e. {entry_key e}", OF this assms(2)] NodeKindMap show ?thesis
    by (auto simp: node_visits_def children_def mentions_def UNION_singleton_eq_range elim!: returns_mono)
next
  case NodeKindSlice
  with assms(1) have "returns (gc_walk fuel p (id c) m) (walked p S (id c) m)"
    if "c \<in> set (node_items n)" "closed_marks p S m" for c m
    using that by (simp add: children_def)
  from visits [where child = id and es = "node_items n" and pre = "\<lambda>_. {}", OF this assms(2)] NodeKindSlice show ?thesis
    by (auto simp: node_visits_def children_def mentions_def elim!: returns_mono)
qed

lemma gc_walk_correct:
  "descends p \<Longrightarrow> subtree_has p i \<Longrightarrow> i < fuel \<Longrightarrow> closed_marks p S m \<Longrightarrow> returns (gc_walk fuel p i m) (walked p S i m)"
proof (induction i arbitrary: fuel S m rule: less_induct)
  case (less i)
  from less.prems(3) obtain f where f: "fuel = Suc f" "i \<le> f" by (cases fuel) auto
  note D = descendsD [OF less.prems(1,2)]
  let ?n = "subtree_resolve p i"
  show ?case
  proof (cases "i \<in> fst m")
    case True
    with D(1) less.prems(4) show ?thesis
      by (cases m) (auto simp: f(1) walked_def grown_refl)
  next
    case False
    let ?S = "insert i S" and ?m = "(insert i (fst m), snd m)"
    have "returns (gc_walk f p c m') (walked p ?S c m')" if "c \<in> set (children ?n)" "closed_marks p ?S m'" for c m'
      using less.IH [of c f ?S m'] D that f(2) less.prems(1) by (meson less_le_trans)
    moreover have "closed_marks p ?S ?m"
      using less.prems(4) by (auto simp: closed_marks_def)
    ultimately have "returns (node_visits f p ?n ?m) (\<lambda>m'. set (children ?n) \<subseteq> fst m' \<and> mentions ?n \<subseteq> snd m' \<and>
        grown p (\<Union>c\<in>set (children ?n). {x. reaches p c x}) (mentions ?n) ?m m' \<and> closed_marks p ?S m')"
      by (rule node_visits_walked)
    then show ?thesis
      unfolding f(1) gc_walk_visits [OF D(1) False]
    proof (rule returns_mono, elim conjE)
      fix m' assume m': "set (children ?n) \<subseteq> fst m'" "mentions ?n \<subseteq> snd m'"
        "grown p (\<Union>c\<in>set (children ?n). {x. reaches p c x}) (mentions ?n) ?m m'" "closed_marks p ?S m'"
      then have i: "i \<in> fst m'" by (auto simp: grown_def)
      moreover have "closed_marks p S m'" using m'(1,2,4) by (auto simp: closed_marks_def)
      moreover have "grown p {x. reaches p i x} {} m m'"
        using m'(3) i reaches_from_child [of p _ _ i] unfolding grown_def by (auto intro: reaches_self)
      ultimately show "walked p S i m m'" by (simp add: walked_def)
    qed
  qed
qed

text \<open>The whole mark phase marks exactly what the roots reach.\<close>

definition live_nodes :: "subtree_pool \<Rightarrow> nat list \<Rightarrow> nat set" where
  "live_nodes p roots = {i. \<exists>r\<in>set roots. reaches p r i}"

definition live_values :: "subtree_pool \<Rightarrow> nat list \<Rightarrow> nat set" where
  "live_values p roots = (\<Union>i\<in>live_nodes p roots. mentions (subtree_resolve p i))"

lemma gc_mark_correct:
  assumes "descends p" "\<And>r. r \<in> set roots \<Longrightarrow> subtree_has p r \<and> r < fuel"
  shows "gc_mark fuel p roots = Some (live_nodes p roots, live_values p roots)"
proof -
  have walk: "returns (gc_walk fuel p (id r) m) (walked p {} (id r) m)" if "r \<in> set roots" "closed_marks p {} m" for r m
    using gc_walk_correct [OF assms(1)] assms(2) that by simp
  have "closed_marks p {} ({}, {})" by (simp add: closed_marks_def)
  from visits [where child = id and es = roots and pre = "\<lambda>_. {}", OF walk this] obtain m where
    m: "foldM (visit fuel p id (\<lambda>_. {})) roots ({}, {}) = Some m" "set roots \<subseteq> fst m"
      "grown p (\<Union>r\<in>set roots. {x. reaches p r x}) {} ({}, {}) m" "closed_marks p {} m"
    by (auto elim: returnsE)
  have sub: "i \<in> fst m" if "reaches p r i" "r \<in> set roots" for r i
    using that m(2,4) by (induction rule: reaches.induct) (auto simp: closed_marks_def)
  then have "fst m = live_nodes p roots"
    using m(3) by (auto simp: grown_def live_nodes_def)
  moreover from this m(3,4) have "snd m = live_values p roots"
    by (auto simp: grown_def closed_marks_def live_values_def)
  moreover have "gc_mark fuel p roots = Some m"
    using m(1) by (simp add: gc_mark_def visit_def [abs_def] cong: foldM_cong)
  ultimately show ?thesis by (metis prod.collapse)
qed

end
