(* ===== verification/Store_Interface.thy ===== *)
theory Store_Interface
  imports Prelude
begin

text \<open>
  The contract of the \<open>Store\<close> interface (\<open>store/store.go\<close>): what the cache and the informers rely on.
  Every operation returns; \<open>view\<close> is the map from keys to the meaning of the stored objects that an implementation
  stands for. Each operation of \<open>DedupStore\<close> runs under its mutex, so a concurrent run is some sequence of
  operations, and \<open>run_ops\<close> is such a sequence.
\<close>

datatype ('k, 'v) store_op = OpUpsert 'k 'v | OpDelete 'k | OpGC

fun run_op ::
    "('k \<Rightarrow> 'v \<Rightarrow> 's \<Rightarrow> 's option) \<Rightarrow> ('k \<Rightarrow> 's \<Rightarrow> 's option) \<Rightarrow> ('s \<Rightarrow> 's option) \<Rightarrow>
     ('k, 'v) store_op \<Rightarrow> 's \<Rightarrow> 's option" where
  "run_op ups del gc (OpUpsert k v) s = ups k v s"
| "run_op ups del gc (OpDelete k) s = del k s"
| "run_op ups del gc OpGC s = gc s"

definition run_ops ::
    "('k \<Rightarrow> 'v \<Rightarrow> 's \<Rightarrow> 's option) \<Rightarrow> ('k \<Rightarrow> 's \<Rightarrow> 's option) \<Rightarrow> ('s \<Rightarrow> 's option) \<Rightarrow>
     ('k, 'v) store_op list \<Rightarrow> 's \<Rightarrow> 's option" where
  "run_ops ups del gc = foldM (run_op ups del gc)"

text \<open>The abstract store: a map from keys to meanings.\<close>

fun spec_op :: "('v \<Rightarrow> 'a) \<Rightarrow> ('k, 'v) store_op \<Rightarrow> ('k \<Rightarrow> 'a option) \<Rightarrow> ('k \<Rightarrow> 'a option)" where
  "spec_op mean (OpUpsert k v) m = m(k \<mapsto> mean v)"
| "spec_op mean (OpDelete k) m = m(k := None)"
| "spec_op mean OpGC m = m"

fun op_ok :: "('v \<Rightarrow> bool) \<Rightarrow> ('k, 'v) store_op \<Rightarrow> bool" where
  "op_ok ok (OpUpsert k v) = ok v"
| "op_ok ok _ = True"

locale object_store =
  fixes ups :: "'k \<Rightarrow> 'v \<Rightarrow> 's \<Rightarrow> 's option"
    and del :: "'k \<Rightarrow> 's \<Rightarrow> 's option"
    and gc :: "'s \<Rightarrow> 's option"
    and get :: "'k \<Rightarrow> 's \<Rightarrow> 'v option option"
    and init :: 's
    and inv :: "'s \<Rightarrow> bool"
    and view :: "'s \<Rightarrow> 'k \<Rightarrow> 'a option"
    and ok :: "'v \<Rightarrow> bool"
    and mean :: "'v \<Rightarrow> 'a"
  assumes init_law: "inv init" "view init = (\<lambda>_. None)"
    and ups_law: "inv s \<Longrightarrow> ok v \<Longrightarrow> returns (ups k v s) (\<lambda>t. inv t \<and> view t = (view s)(k \<mapsto> mean v))"
    and del_law: "inv s \<Longrightarrow> returns (del k s) (\<lambda>t. inv t \<and> view t = (view s)(k := None))"
    and gc_law: "inv s \<Longrightarrow> returns (gc s) (\<lambda>t. inv t \<and> view t = view s)"
    and get_law: "inv s \<Longrightarrow> returns (get k s) (\<lambda>r. map_option mean r = view s k)"
begin

lemma op_law:
  "inv s \<Longrightarrow> op_ok ok c \<Longrightarrow> returns (run_op ups del gc c s) (\<lambda>t. inv t \<and> view t = spec_op mean c (view s))"
  using ups_law del_law gc_law by (cases c) auto

lemma run_ops_refines:
  assumes "inv s" "\<forall>c\<in>set cs. op_ok ok c"
  shows "returns (run_ops ups del gc cs s) (\<lambda>t. inv t \<and> view t = fold (spec_op mean) cs (view s))"
  unfolding run_ops_def
proof (rule foldM_returns [where P = "\<lambda>pre t. inv t \<and> view t = fold (spec_op mean) pre (view s)"])
  fix pre c rest t
  assume "cs = pre @ c # rest" "inv t \<and> view t = fold (spec_op mean) pre (view s)"
  with assms(2) op_law [of t c]
  show "returns (run_op ups del gc c t) (\<lambda>u. inv u \<and> view u = fold (spec_op mean) (pre @ [c]) (view s))"
    by simp
qed (use assms(1) in simp)

lemma get_after_run:
  assumes "\<forall>c\<in>set cs. op_ok ok c"
  shows "returns (run_ops ups del gc cs init)
    (\<lambda>t. returns (get k t) (\<lambda>r. map_option mean r = fold (spec_op mean) cs (\<lambda>_. None) k))"
proof (rule returns_mono [OF run_ops_refines [OF init_law(1) assms]], elim conjE)
  fix t assume "inv t" "view t = fold (spec_op mean) cs (view init)"
  with get_law [of t k] init_law(2) show "returns (get k t) (\<lambda>r. map_option mean r = fold (spec_op mean) cs (\<lambda>_. None) k)"
    by simp
qed

text \<open>The last write to a key decides what the key holds.\<close>

lemma fold_spec_other:
  "\<forall>c\<in>set cs. (\<forall>v. c \<noteq> OpUpsert k v) \<and> c \<noteq> OpDelete k \<Longrightarrow> fold (spec_op mean) cs m k = m k"
proof (induction cs arbitrary: m)
  case Nil
  show ?case by simp
next
  case (Cons c cs)
  then have "spec_op mean c m k = m k" by (cases c) auto
  with Cons show ?case by simp
qed

lemma get_last_write:
  assumes "\<forall>c\<in>set cs. op_ok ok c" "ok v" "\<forall>c\<in>set ds. op_ok ok c \<and> (\<forall>v. c \<noteq> OpUpsert k v) \<and> c \<noteq> OpDelete k"
  shows "returns (run_ops ups del gc (cs @ OpUpsert k v # ds) init)
    (\<lambda>t. returns (get k t) (\<lambda>r. map_option mean r = Some (mean v)))"
  by (rule returns_mono [OF get_after_run [of _ k]]) (use assms fold_spec_other [of ds k] in auto)

end

end
