(* ===== verification/Dedup_GC.thy ===== *)
theory Dedup_GC
  imports Dedup_Store Dedup_Mark Store_Interface
begin

text \<open>
  \<open>GC\<close> of \<open>store/dedup_store.go\<close>: mark from the object roots, sweep both pools. The duration in
  \<open>GCStats\<close> is wall-clock time and is left out. A collection keeps every object as it was, keeps exactly the
  reachable nodes and counts what it removes. At the end, the interpretation of \<open>object_store\<close> shows that
  \<open>DedupStore\<close> meets the contract of \<open>Store\<close>.
\<close>

section \<open>Operation\<close>

record gc_stats =
  nodes_removed :: nat
  values_removed :: nat

definition drop_zero_refs :: "(nat, 32 word) gomap \<Rightarrow> (nat, 32 word) gomap" where
  "drop_zero_refs rc = fold (\<lambda>i rc'. if count rc i = 0 then go_del i rc' else rc') (go_keys rc) rc"

definition GC :: "dedup_store \<Rightarrow> (gc_stats \<times> dedup_store) option" where
  "GC s =
     (let rc = drop_zero_refs (ds_refcounts s)
      in case gc_mark (node_fuel s) (ds_subtrees s) (map snd (ds_objects s)) of
           None \<Rightarrow> None
         | Some (ln, lv) \<Rightarrow>
             let (nr, subtrees) = subtree_delete_unreachable ln (ds_subtrees s);
                 (vr, vals) = value_delete_unreachable lv (ds_values s)
             in Some (\<lparr>nodes_removed = nr, values_removed = vr\<rparr>,
                      s\<lparr>ds_values := vals, ds_subtrees := subtrees, ds_refcounts := rc\<rparr>))"

section \<open>Reference counts\<close>

lemma go_get_drop_zero: "go_get (drop_zero_refs rc) i = (if count rc i = 0 then None else go_get rc i)"
proof -
  have "go_get (fold (\<lambda>i rc'. if count rc i = 0 then go_del i rc' else rc') ks rc') i =
      (if i \<in> set ks \<and> count rc i = 0 then None else go_get rc' i)" for ks and rc' :: "(nat, 32 word) gomap"
    by (induction ks arbitrary: rc') (auto simp: gomap_simps)
  moreover have "i \<notin> set (go_keys rc) \<Longrightarrow> go_get rc i = None"
    by (simp add: map_of_eq_None_iff)
  ultimately show ?thesis by (auto simp: drop_zero_refs_def)
qed

lemma count_drop_zero [simp]: "count (drop_zero_refs rc) i = count rc i"
  by (simp add: count_def [of "drop_zero_refs rc"] go_get_drop_zero) (simp add: count_def)

section \<open>What a collection keeps\<close>

abbreviation roots :: "dedup_store \<Rightarrow> nat list" where
  "roots s \<equiv> map snd (ds_objects s)"

abbreviation reachable_nodes :: "dedup_store \<Rightarrow> nat set" where
  "reachable_nodes s \<equiv> live_nodes (ds_subtrees s) (roots s)"

abbreviation reachable_values :: "dedup_store \<Rightarrow> nat set" where
  "reachable_values s \<equiv> live_values (ds_subtrees s) (roots s)"

definition swept :: "dedup_store \<Rightarrow> dedup_store" where
  "swept s = s\<lparr>ds_values := snd (value_delete_unreachable (reachable_values s) (ds_values s)),
     ds_subtrees := snd (subtree_delete_unreachable (reachable_nodes s) (ds_subtrees s)),
     ds_refcounts := drop_zero_refs (ds_refcounts s)\<rparr>"

definition gc_removed :: "dedup_store \<Rightarrow> gc_stats" where
  "gc_removed s = \<lparr>nodes_removed = card {i. has_node s i \<and> i \<notin> reachable_nodes s},
     values_removed = card {i \<in> snd ` set (pool_index (ds_values s)). i \<notin> reachable_values s}\<rparr>"

lemma GC_eq:
  assumes "store_inv s"
  shows "GC s = Some (gc_removed s, swept s)"
proof -
  note N = store_invD(1) [OF assms]
  have "gc_mark (node_fuel s) (ds_subtrees s) (roots s) = Some (reachable_nodes s, reachable_values s)"
    using gc_mark_correct [OF nodes_inv_descends [OF N]] store_invD(4) [OF assms] node_below_fuel [OF N] by blast
  then show ?thesis
    using subtree_sweep_count [OF nodes_invD(2) [OF N], of "reachable_nodes s"]
      value_sweep_count [OF nodes_invD(1) [OF N], of "reachable_values s"]
    by (simp add: GC_def gc_removed_def swept_def split_beta)
qed

lemma reachable_has: "store_inv s \<Longrightarrow> i \<in> reachable_nodes s \<Longrightarrow> has_node s i"
  using reaches_has nodes_inv_descends store_invD(1,4) by (auto simp: live_nodes_def simp del: set_map)

lemma reachable_child:
  "i \<in> reachable_nodes s \<Longrightarrow> c \<in> set (children (resolve_node s i)) \<Longrightarrow> c \<in> reachable_nodes s"
  by (auto simp: live_nodes_def intro: reaches_child)

lemma swept_pools:
  assumes "store_inv s"
  shows "has_node (swept s) i \<longleftrightarrow> i \<in> reachable_nodes s"
    "i \<in> reachable_nodes s \<Longrightarrow> resolve_node (swept s) i = resolve_node s i"
    "has_value (swept s) v \<longleftrightarrow> has_value s v \<and> (v \<in> reachable_values s \<or> v = 0)"
    "v \<in> reachable_values s \<or> v = 0 \<Longrightarrow> resolve_value (swept s) v = resolve_value s v"
    "ds_objects (swept s) = ds_objects s" "count (ds_refcounts (swept s)) i = count (ds_refcounts s) i"
    "value_inv (ds_values (swept s))" "subtree_inv (ds_subtrees (swept s))"
proof -
  note V = nodes_invD(1) [OF store_invD(1) [OF assms]] and S = nodes_invD(2) [OF store_invD(1) [OF assms]]
  show "has_node (swept s) i \<longleftrightarrow> i \<in> reachable_nodes s"
    using reachable_has [OF assms, of i] by (auto simp: swept_def subtree_has_sweep [OF S])
  show "i \<in> reachable_nodes s \<Longrightarrow> resolve_node (swept s) i = resolve_node s i"
    using reachable_has [OF assms, of i] by (simp add: swept_def subtree_resolve_sweep [OF S])
qed (simp_all add: swept_def value_has_sweep value_resolve_sweep value_inv_sweep subtree_inv_sweep
      nodes_invD(1,2) [OF store_invD(1) [OF assms]])

lemma node_ok_swept:
  assumes "store_inv s" "i \<in> reachable_nodes s"
  shows "node_ok (swept s) (resolve_node s i)"
proof -
  let ?n = "resolve_node s i"
  note P = swept_pools [OF assms(1)]
  have "node_ok s ?n" using nodes_invD(3) store_invD(1) reachable_has assms by blast
  moreover have "mentions ?n \<subseteq> reachable_values s" using assms(2) by (auto simp: live_values_def)
  moreover have "set (children ?n) \<subseteq> reachable_nodes s" using reachable_child [OF assms(2)] by blast
  ultimately show ?thesis
    by (cases "node_kind ?n") (auto simp: node_ok_def P(1,3,4) mentions_def children_def image_subset_iff)
qed

lemma store_inv_swept:
  assumes "store_inv s"
  shows "store_inv (swept s)"
proof -
  note P = swept_pools [OF assms]
  have "nodes_inv (swept s)"
    using P(1,2,7,8) node_ok_swept [OF assms] nodes_invD(4) [OF store_invD(1) [OF assms]] reachable_has [OF assms]
    by (auto simp: nodes_inv_def)
  moreover have "r \<in> reachable_nodes s" if "r \<in> set (roots s)" for r
    using that by (auto simp: live_nodes_def intro: reaches_self)
  ultimately show ?thesis
    using assms P(1,2) by (auto simp: store_inv_def P(5) simp del: set_map)
qed

lemma node_tree_swept:
  assumes "store_inv s"
  shows "i \<in> reachable_nodes s \<Longrightarrow> node_tree (swept s) i = node_tree s i"
proof (induction i rule: less_induct)
  case (less i)
  note P = swept_pools [OF assms] and N = store_invD(1) [OF assms] and N' = store_invD(1) [OF store_inv_swept [OF assms]]
  from less.prems P(1) reachable_has [OF assms] have has: "has_node s i" "has_node (swept s) i" by auto
  from less reachable_child [OF less.prems] nodes_invD(4) [OF N has(1)]
  have IH: "c \<in> set (children (resolve_node s i)) \<Longrightarrow> node_tree (swept s) c = node_tree s c" for c by blast
  have "mentions (resolve_node s i) \<subseteq> reachable_values s"
    using less.prems by (auto simp: live_values_def)
  then have "v \<in> mentions (resolve_node s i) \<Longrightarrow> resolve_value (swept s) v = resolve_value s v" for v
    using P(4) by blast
  with IH show ?case
    by (auto simp: node_tree_eq [OF N has(1)] node_tree_eq [OF N' has(2)] P(2) [OF less.prems]
        mentions_def children_def key_string_def Let_def split: node_kind.split)
qed

lemma store_view_swept:
  assumes "store_inv s"
  shows "store_view (swept s) = store_view s"
proof -
  have "r \<in> reachable_nodes s" if "go_get (ds_objects s) key = Some r" for key r
    using map_of_SomeD [OF that] by (force simp: live_nodes_def intro: reaches_self)
  then show ?thesis
    by (auto simp: store_view_def fun_eq_iff swept_pools(5) [OF assms] map_option_case node_tree_swept [OF assms]
        split: option.split)
qed

lemma Get_swept:
  assumes "store_inv s"
  shows "Get key (swept s) = Get key s"
proof -
  have "r \<in> reachable_nodes s" if "go_get (ds_objects s) key = Some r" for r
    using map_of_SomeD [OF that] by (force simp: live_nodes_def intro: reaches_self)
  then show ?thesis
    by (auto simp: Get_eq assms store_inv_swept swept_pools(5) node_obj_def map_option_case node_tree_swept
        split: option.split)
qed

section \<open>The contract of \<open>Store\<close>\<close>

text \<open>The store as the cache uses it: the statistics of a collection are dropped.\<close>

definition collect :: "dedup_store \<Rightarrow> dedup_store option" where
  "collect s = map_option snd (GC s)"

lemma store_view_new: "store_view NewDedupStore = (\<lambda>_. None)"
  by (simp add: store_view_def NewDedupStore_def fun_eq_iff)

interpretation ds: object_store Upsert Delete collect Get NewDedupStore store_inv store_view
    "\<lambda>obj. tree_ok (GMap obj)" "\<lambda>obj. sem (GMap obj)"
  by unfold_locales
    (simp_all add: store_inv_new store_view_new Upsert_correct Delete_correct Get_correct collect_def GC_eq
      store_inv_swept store_view_swept del: sem.simps tree_ok.simps)

end
