(* ===== verification/Dedup_Counts.thy ===== *)
theory Dedup_Counts
  imports Dedup_GC
begin

text \<open>
  What the reference counts of \<open>DedupStore\<close> mean: the counter of a node is the number of paths to it from
  the roots of the stored objects. \<open>Upsert\<close>, \<open>Delete\<close> and \<open>GC\<close> keep this as long as no node is reached by
  $2^{32}$ paths, where the uint32 counter would wrap. So a zero counter says exactly that the node is
  unreachable, and the counters that a collection keeps are those of the nodes it keeps.
\<close>

definition refs_total :: "dedup_store \<Rightarrow> nat \<Rightarrow> nat" where
  "refs_total s i = sum_list (map (\<lambda>r. paths (ds_subtrees s) r i) (roots s))"

definition counts_exact :: "dedup_store \<Rightarrow> bool" where
  "counts_exact s \<longleftrightarrow> (\<forall>i. unat (count (ds_refcounts s) i) = refs_total s i)"

lemma counts_exact_new: "counts_exact NewDedupStore"
  by (simp add: counts_exact_def refs_total_def NewDedupStore_def count_def)

section \<open>Sums over a Go map\<close>

lemma sum_go_put:
  fixes f :: "'v \<Rightarrow> nat"
  shows "sum_list (map f (map snd (go_put k v m))) + (case go_get m k of None \<Rightarrow> 0 | Some u \<Rightarrow> f u) =
    sum_list (map f (map snd m)) + f v"
  by (induction m) (auto split: option.splits)

lemma sum_go_del:
  fixes f :: "'v \<Rightarrow> nat"
  shows "distinct (go_keys m) \<Longrightarrow>
    sum_list (map f (map snd (go_del k m))) + (case go_get m k of None \<Rightarrow> 0 | Some u \<Rightarrow> f u) =
    sum_list (map f (map snd m))"
proof (induction m)
  case (Cons e m)
  show ?case
  proof (cases "fst e = k")
    case True
    with Cons.prems have "k \<notin> set (go_keys m)" by auto
    then have "go_del k m = m" by simp
    with True show ?thesis by (simp add: AList.delete_eq split_beta)
  next
    case False
    with Cons show ?thesis by (simp add: AList.delete_eq split_beta split: option.splits)
  qed
qed simp

section \<open>The totals of the changed stores\<close>

lemma paths_extends:
  assumes "nodes_inv s" "nodes_inv t" "extends s t" "has_node s r"
  shows "paths (ds_subtrees t) r i = paths (ds_subtrees s) r i"
  by (rule paths_frame [where P = "\<lambda>_. True"])
    (use assms nodes_inv_descends extendsD(3,4) [OF assms(3)] in auto)

lemma refs_total_extends:
  assumes "store_inv s" "nodes_inv t" "extends s t"
  shows "refs_total t i = refs_total s i"
  using paths_extends [OF store_invD(1) [OF assms(1)] assms(2,3)] store_invD(4) [OF assms(1)]
  by (auto simp: refs_total_def extendsD(7) [OF assms(3)] simp del: map_map set_map intro!: sum_list_cong)

lemma refs_total_root:
  assumes "go_get (ds_objects s) key = Some r"
  shows "paths (ds_subtrees s) r i \<le> refs_total s i"
  using map_of_SomeD [OF assms] by (force simp: refs_total_def intro: member_le_sum_list)

lemma refs_total_swept:
  assumes "store_inv s"
  shows "refs_total (swept s) i = refs_total s i"
proof -
  note P = swept_pools [OF assms]
  note d = nodes_inv_descends [OF store_invD(1) [OF assms]]
    nodes_inv_descends [OF store_invD(1) [OF store_inv_swept [OF assms]]]
  have "paths (ds_subtrees (swept s)) r i = paths (ds_subtrees s) r i" if "r \<in> set (roots s)" for r
  proof (rule paths_frame [OF d, where P = "\<lambda>j. j \<in> reachable_nodes s"])
    show "r \<in> reachable_nodes s" using that by (auto simp: live_nodes_def intro: reaches_self)
  qed (use P(1,2) reachable_child store_invD(4) [OF assms that] in auto)
  then show ?thesis by (auto simp: refs_total_def P(5) simp del: map_map set_map intro!: sum_list_cong)
qed

section \<open>Every operation keeps the counters exact\<close>

lemma counts_exact_swept: "store_inv s \<Longrightarrow> counts_exact s \<Longrightarrow> counts_exact (swept s)"
  by (simp add: counts_exact_def swept_pools(6) refs_total_swept)

lemma Delete_counts:
  assumes "store_inv s" "counts_exact s"
  shows "returns (Delete key s) counts_exact"
proof (cases "go_get (ds_objects s) key")
  case None
  with assms(2) show ?thesis by (simp add: Delete_def)
next
  case (Some r)
  note N = store_invD(1) [OF assms(1)] and r = store_invD(3) [OF assms(1) Some]
  from dec_ref_correct [OF nodes_inv_descends [OF N] r node_below_fuel [OF N r], of "ds_refcounts s"]
  obtain rc where rc: "dec_ref (node_fuel s) (ds_subtrees s) r (ds_refcounts s) = Some rc"
    "removed (ds_refcounts s) (paths (ds_subtrees s) r) rc" by (rule returnsE)
  have "unat (count rc i) = sum_list (map (\<lambda>r. paths (ds_subtrees s) r i) (map snd (go_del key (ds_objects s))))" for i
    using rc(2) assms(2) Some sum_go_del [OF store_invD(2) [OF assms(1)], of "\<lambda>r. paths (ds_subtrees s) r i" key]
    by (simp add: removed_def counts_exact_def refs_total_def del: map_map)
  with rc(1) Some show ?thesis by (simp add: Delete_def counts_exact_def refs_total_def del: map_map)
qed

lemma Upsert_counts:
  assumes "store_inv s" "tree_ok (GMap obj)" "counts_exact s"
  shows "returns (Upsert key obj s) (\<lambda>t. (\<forall>i. refs_total t i < 2 ^ 32) \<longrightarrow> counts_exact t)"
proof (rule Upsert_steps [OF assms(1,2), of key])
  fix r s1 rc1 rc2
  assume s1: "nodes_inv s1" "extends s s1"
    and rc1: "case go_get (ds_objects s) key of
       Some old \<Rightarrow> removed (ds_refcounts s) (paths (ds_subtrees s1) old) rc1 | None \<Rightarrow> rc1 = ds_refcounts s"
    and rc2: "added rc1 (paths (ds_subtrees s1) r) rc2"
    and t: "Upsert key obj s = Some (s1\<lparr>ds_objects := go_put key r (ds_objects s), ds_refcounts := rc2\<rparr>)"
  let ?t = "s1\<lparr>ds_objects := go_put key r (ds_objects s), ds_refcounts := rc2\<rparr>"
  let ?f = "\<lambda>i r. paths (ds_subtrees s1) r i"
  have old: "unat (count (ds_refcounts s) i) = sum_list (map (?f i) (map snd (ds_objects s)))" for i
    using assms(3) refs_total_extends [OF assms(1) s1, of i]
    by (simp add: counts_exact_def refs_total_def extendsD(7) [OF s1(2)] del: map_map)
  have sum: "refs_total ?t i = unat (count rc1 i) + ?f i r" for i
    using rc1 old [of i] sum_go_put [of "?f i" key r "ds_objects s"] member_le_sum_list [of _ "map (?f i) (map snd (ds_objects s))"]
    by (cases "go_get (ds_objects s) key")
       (force simp: removed_def refs_total_def dest: map_of_SomeD simp del: map_map)+
  from rc2 have "count rc2 i = of_nat (refs_total ?t i)" for i
    unfolding sum added_def by simp
  then have "(\<forall>i. refs_total ?t i < 2 ^ 32) \<longrightarrow> counts_exact ?t"
    by (simp add: counts_exact_def unat_of_nat)
  with t show "returns (Upsert key obj s) (\<lambda>t. (\<forall>i. refs_total t i < 2 ^ 32) \<longrightarrow> counts_exact t)" by simp
qed

section \<open>Zero counters and unreachable nodes\<close>

lemma reaches_down:
  "reaches p r i \<Longrightarrow> r = i \<or> (\<exists>c\<in>set (children (subtree_resolve p r)). reaches p c i)"
  by (induction rule: reaches.induct) (auto intro: reaches.intros)

lemma paths_reaches:
  assumes "descends p"
  shows "subtree_has p r \<Longrightarrow> paths p r i \<noteq> 0 \<longleftrightarrow> reaches p r i"
proof (induction r rule: less_induct)
  case (less r)
  from less.IH descendsD [OF assms less.prems]
  have IH: "paths p c i \<noteq> 0 \<longleftrightarrow> reaches p c i" if "c \<in> set (children (subtree_resolve p r))" for c
    using that by blast
  have "paths p r i \<noteq> 0 \<longleftrightarrow> r = i \<or> (\<exists>c\<in>set (children (subtree_resolve p r)). paths p c i \<noteq> 0)"
    by (auto simp: paths_eq [OF assms less.prems])
  with IH reaches_down [of p r i] reaches_from_child reaches_self show ?case by metis
qed

lemma refs_total_zero:
  assumes "store_inv s"
  shows "refs_total s i = 0 \<longleftrightarrow> i \<notin> reachable_nodes s"
proof -
  have "refs_total s i = 0 \<longleftrightarrow> (\<forall>r\<in>set (roots s). paths (ds_subtrees s) r i = 0)"
    by (auto simp: refs_total_def simp del: map_map)
  also have "\<dots> \<longleftrightarrow> (\<forall>r\<in>set (roots s). \<not> reaches (ds_subtrees s) r i)"
    using paths_reaches [OF nodes_inv_descends [OF store_invD(1) [OF assms]] store_invD(4) [OF assms]] by blast
  finally show ?thesis by (simp add: live_nodes_def)
qed

lemma count_zero_iff:
  assumes "store_inv s" "counts_exact s"
  shows "count (ds_refcounts s) i = 0 \<longleftrightarrow> i \<notin> reachable_nodes s"
  using refs_total_zero [OF assms(1)] assms(2) unfolding counts_exact_def by (metis unat_eq_zero)

lemma swept_counters:
  assumes "store_inv s" "counts_exact s"
  shows "go_get (ds_refcounts (swept s)) i \<noteq> None \<longleftrightarrow> has_node (swept s) i"
  using count_zero_iff [OF assms, of i] swept_pools(1) [OF assms(1), of i]
  by (auto simp: swept_def go_get_drop_zero count_def split: option.splits)

end
