(* ===== verification/Store_List.thy ===== *)
theory Store_List
  imports Dedup_Store "HOL-Library.List_Lexorder" "HOL-Library.Char_ord"
begin

text \<open>
  The list options of \<open>store/store.go\<close> and \<open>List\<close>, \<open>labelsMatch\<close> and \<open>fieldMatches\<close> of
  \<open>store/dedup_store.go\<close>. Two parameters stand for code outside the repository: \<open>get_labels\<close> for
  \<open>Unstructured.GetLabels\<close>, and \<open>ff\<close> for the shortest decimal form of a float64 that \<open>fmt\<close> prints.
\<close>

section \<open>Options\<close>

record list_options =
  lo_labelSelector :: "(string, string) gomap"
  lo_fieldSelectors :: "(string, string) gomap"
  lo_namespace :: string

type_synonym list_option = "list_options \<Rightarrow> list_options"

definition no_list_options :: list_options where
  "no_list_options = \<lparr>lo_labelSelector = [], lo_fieldSelectors = [], lo_namespace = ''''\<rparr>"

definition WithLabelSelector :: "(string, string) gomap \<Rightarrow> list_option" where
  "WithLabelSelector labels = (\<lambda>o1. o1\<lparr>lo_labelSelector := labels\<rparr>)"

definition WithNamespace :: "string \<Rightarrow> list_option" where
  "WithNamespace ns = (\<lambda>o1. o1\<lparr>lo_namespace := ns\<rparr>)"

definition WithFieldSelector :: "string \<Rightarrow> string \<Rightarrow> list_option" where
  "WithFieldSelector field value = (\<lambda>o1. o1\<lparr>lo_fieldSelectors := go_put field value (lo_fieldSelectors o1)\<rparr>)"

definition apply_options :: "list_option list \<Rightarrow> list_options" where
  "apply_options opts = fold (\<lambda>opt o1. opt o1) opts no_list_options"

section \<open>Rendering with \<open>%v\<close>\<close>

fun show_nat :: "nat \<Rightarrow> string" where
  "show_nat n = (if n < 10 then [char_of (48 + n)] else show_nat (n div 10) @ [char_of (48 + n mod 10)])"

declare show_nat.simps [simp del]

definition show_int :: "int \<Rightarrow> string" where
  "show_int i = (if i < 0 then CHR ''-'' # show_nat (nat (- i)) else show_nat (nat i))"

fun fmt_scalar :: "(64 word \<Rightarrow> string) \<Rightarrow> iface \<Rightarrow> string" where
  "fmt_scalar ff INil = ''<nil>''"
| "fmt_scalar ff (IString s) = s"
| "fmt_scalar ff (IInt64 w) = show_int (sint w)"
| "fmt_scalar ff (IFloat64 x) = ff x"
| "fmt_scalar ff (IBool b) = (if b then ''true'' else ''false'')"
| "fmt_scalar ff (IInt w) = show_int (sint w)"
| "fmt_scalar ff (IInt32 w) = show_int (sint w)"
| "fmt_scalar ff (IUint w) = show_int (uint w)"
| "fmt_scalar ff (IUint32 w) = show_int (uint w)"
| "fmt_scalar ff (IUint64 w) = show_int (uint w)"
| "fmt_scalar ff (IOther s) = s"

fun join :: "string \<Rightarrow> string list \<Rightarrow> string" where
  "join sep [] = ''''"
| "join sep [x] = x"
| "join sep (x # y # xs) = x @ sep @ join sep (y # xs)"

primrec fmt_v :: "(64 word \<Rightarrow> string) \<Rightarrow> gval \<Rightarrow> string" where
  "fmt_v ff (Scalar v) = fmt_scalar ff v"
| "fmt_v ff (GMap kvs) =
     ''map['' @ join '' '' (map (\<lambda>(k, x). k @ '':'' @ x) (sort_key fst (map (map_prod id (fmt_v ff)) kvs))) @ '']''"
| "fmt_v ff (GSlice xs) = ''['' @ join '' '' (map (fmt_v ff) xs) @ '']''"

section \<open>Filters\<close>

definition labelsMatch :: "(string, string) gomap \<Rightarrow> (string, string) gomap \<Rightarrow> bool" where
  "labelsMatch objLabels selector =
     list_all (\<lambda>(k, v). (case go_get objLabels k of None \<Rightarrow> '''' | Some x \<Rightarrow> x) = v) selector"

fun split_on :: "char \<Rightarrow> string \<Rightarrow> string list" where
  "split_on c [] = [[]]"
| "split_on c (x # xs) =
     (if x = c then [] # split_on c xs
      else case split_on c xs of [] \<Rightarrow> [[x]] | part # parts \<Rightarrow> (x # part) # parts)"

fun walk_field :: "string list \<Rightarrow> gval \<Rightarrow> gval option" where
  "walk_field [] current = Some current"
| "walk_field (part # parts) current =
     (case current of
        GMap m \<Rightarrow> (case go_get m part of None \<Rightarrow> None | Some x \<Rightarrow> walk_field parts x)
      | _ \<Rightarrow> None)"

definition fieldMatches :: "(64 word \<Rightarrow> string) \<Rightarrow> gobj \<Rightarrow> string \<Rightarrow> string \<Rightarrow> bool" where
  "fieldMatches ff obj field value =
     (case walk_field (split_on (CHR ''.'') field) (GMap obj) of
        None \<Rightarrow> False
      | Some current \<Rightarrow>
          (case current of Scalar (IString v) \<Rightarrow> v = value | _ \<Rightarrow> fmt_v ff current = value))"

section \<open>List\<close>

definition selected :: "(64 word \<Rightarrow> string) \<Rightarrow> (gobj \<Rightarrow> (string, string) gomap) \<Rightarrow> list_options \<Rightarrow> gobj \<Rightarrow> bool" where
  "selected ff get_labels lo obj \<longleftrightarrow>
     \<not> (0 < length (lo_labelSelector lo) \<and> \<not> labelsMatch (get_labels obj) (lo_labelSelector lo)) \<and>
     \<not> (0 < length (lo_fieldSelectors lo) \<and>
        \<not> list_all (\<lambda>(field, value). fieldMatches ff obj field value) (lo_fieldSelectors lo))"

definition list_entry ::
    "(64 word \<Rightarrow> string) \<Rightarrow> (gobj \<Rightarrow> (string, string) gomap) \<Rightarrow> dedup_store \<Rightarrow> gvk \<Rightarrow> list_options \<Rightarrow>
     object_key \<times> nat \<Rightarrow> gobj list \<Rightarrow> gobj list option" where
  "list_entry ff get_labels s gvk lo = (\<lambda>(key, root) result.
     if key_gvk key \<noteq> gvk then Some result
     else if lo_namespace lo \<noteq> '''' \<and> key_namespace key \<noteq> lo_namespace lo then Some result
     else
       (case reconstruct (node_fuel s) s root of
          None \<Rightarrow> None
        | Some raw \<Rightarrow>
            (case raw of
               GMap obj \<Rightarrow> if selected ff get_labels lo obj then Some (result @ [obj]) else Some result
             | _ \<Rightarrow> Some result)))"

definition List ::
    "(64 word \<Rightarrow> string) \<Rightarrow> (gobj \<Rightarrow> (string, string) gomap) \<Rightarrow> dedup_store \<Rightarrow> gvk \<Rightarrow> list_option list \<Rightarrow>
     gobj list option" where
  "List ff get_labels s gvk opts =
     (let lo = apply_options opts in foldM (list_entry ff get_labels s gvk lo) (ds_objects s) [])"

section \<open>Lemmas\<close>

lemma split_on_not_Nil [simp]: "split_on c s \<noteq> []"
  by (cases s) (auto split: list.splits)

lemma join_Cons: "xs \<noteq> [] \<Longrightarrow> join sep (x # xs) = x @ sep @ join sep xs"
  by (cases xs) auto

text \<open>Splitting and joining are inverse: the parts are the path, and they hold no dot.\<close>

lemma join_split_on: "join [c] (split_on c s) = s"
proof (induction s)
  case (Cons x s)
  then show ?case
    by (cases "split_on c s"; cases "tl (split_on c s)") (auto simp: join_Cons)
qed simp

lemma split_on_free: "p \<in> set (split_on c s) \<Longrightarrow> c \<notin> set p"
  by (induction s arbitrary: p) (auto split: if_splits list.splits)

lemma split_on_word: "c \<notin> set s \<Longrightarrow> split_on c s = [s]"
  by (induction s) auto

lemma split_on_path: "c \<notin> set p \<Longrightarrow> split_on c (p @ c # s) = p # split_on c s"
  by (induction p) auto

text \<open>Decimal numbers are read back.\<close>

definition read_nat :: "string \<Rightarrow> nat" where
  "read_nat = foldl (\<lambda>n c. 10 * n + (of_char c - 48)) 0"

lemma read_show_nat: "read_nat (show_nat n) = n"
proof (induction n rule: show_nat.induct)
  case (1 n)
  then show ?case
    by (subst show_nat.simps) (auto simp: read_nat_def)
qed

lemma show_nat_first: "show_nat n \<noteq> [] \<and> hd (show_nat n) \<noteq> CHR ''-''"
proof (induction n rule: show_nat.induct)
  case (1 n)
  have "char_of (48 + k) \<noteq> CHR ''-''" if "k < 10" for k :: nat
    using that by (auto dest!: arg_cong [where f = "of_char :: char \<Rightarrow> nat"])
  with 1 show ?case by (subst (1 2) show_nat.simps) auto
qed

lemma show_int_inject: "show_int i = show_int j \<longleftrightarrow> i = j"
proof -
  have "show_nat m = show_nat n \<longleftrightarrow> m = n" for m n by (metis read_show_nat)
  moreover have "CHR ''-'' # s \<noteq> show_nat n" for s n using show_nat_first [of n] by (metis list.sel(1))
  then have "CHR ''-'' # s \<noteq> show_nat n \<and> show_nat n \<noteq> CHR ''-'' # s" for s n by metis
  ultimately show ?thesis by (auto simp: show_int_def)
qed

text \<open>A path into a tree only depends on what the tree denotes.\<close>

fun walk_sem :: "string list \<Rightarrow> aval \<Rightarrow> aval option" where
  "walk_sem [] a = Some a"
| "walk_sem (part # parts) a =
     (case a of AMap m \<Rightarrow> (case m part of None \<Rightarrow> None | Some x \<Rightarrow> walk_sem parts x) | _ \<Rightarrow> None)"

lemma map_of_sem: "map_of (map (map_prod id f) kvs) k = map_option f (map_of kvs k)"
  by (induction kvs) auto

lemma walk_field_sem: "map_option sem (walk_field parts v) = walk_sem parts (sem v)"
proof (induction parts v rule: walk_field.induct)
  case (2 part parts current)
  show ?case
  proof (cases current)
    case (Scalar x)
    then show ?thesis by (cases x) auto
  next
    case (GMap m)
    with 2 show ?thesis by (cases "go_get m part") (auto simp: map_of_sem)
  qed simp
qed simp

text \<open>
  String fields: the filter gives the same answer on every tree with the same meaning, so on an object as it was
  upserted and as it is read back.
\<close>

lemma fieldMatches_string:
  assumes "walk_sem (split_on (CHR ''.'') field) (sem (GMap obj)) = Some (AString x)"
  shows "fieldMatches ff obj field value \<longleftrightarrow> x = value"
proof -
  from assms walk_field_sem [of "split_on (CHR ''.'') field" "GMap obj"]
  obtain v where v: "walk_field (split_on (CHR ''.'') field) (GMap obj) = Some v" "sem v = AString x" by auto
  from v(2) obtain y where "v = Scalar y" by (cases v) auto
  with v show ?thesis by (cases y) (auto simp: fieldMatches_def)
qed

lemma fieldMatches_absent:
  assumes "walk_sem (split_on (CHR ''.'') field) (sem (GMap obj)) = None"
  shows "\<not> fieldMatches ff obj field value"
proof -
  from assms walk_field_sem [of "split_on (CHR ''.'') field" "GMap obj"]
  have "walk_field (split_on (CHR ''.'') field) (GMap obj) = None" by simp
  then show ?thesis by (simp add: fieldMatches_def)
qed

lemma labelsMatch_iff:
  assumes "distinct (go_keys selector)"
  shows "labelsMatch labels selector \<longleftrightarrow>
    (\<forall>k v. go_get selector k = Some v \<longrightarrow> go_get labels k = Some v \<or> v = '''' \<and> go_get labels k = None)"
proof -
  have "labelsMatch labels selector \<longleftrightarrow>
      (\<forall>k v. (k, v) \<in> set selector \<longrightarrow> (case go_get labels k of None \<Rightarrow> '''' | Some x \<Rightarrow> x) = v)"
    by (auto simp: labelsMatch_def list_all_iff)
  also have "\<dots> \<longleftrightarrow> (\<forall>k v. go_get selector k = Some v \<longrightarrow> (case go_get labels k of None \<Rightarrow> '''' | Some x \<Rightarrow> x) = v)"
    by (simp add: go_in_set_iff [OF assms])
  also have "\<dots> \<longleftrightarrow> (\<forall>k v. go_get selector k = Some v \<longrightarrow> go_get labels k = Some v \<or> v = '''' \<and> go_get labels k = None)"
    by (intro iff_allI imp_cong refl) (auto split: option.split)
  finally show ?thesis .
qed

text \<open>\<open>List\<close> returns, and its result is a filter over the objects.\<close>

definition list_hit ::
    "(64 word \<Rightarrow> string) \<Rightarrow> (gobj \<Rightarrow> (string, string) gomap) \<Rightarrow> gvk \<Rightarrow> list_options \<Rightarrow> object_key \<Rightarrow> gobj \<Rightarrow> bool" where
  "list_hit ff get_labels gvk lo key obj \<longleftrightarrow>
     key_gvk key = gvk \<and> (lo_namespace lo = '''' \<or> key_namespace key = lo_namespace lo) \<and> selected ff get_labels lo obj"

lemma List_eq:
  assumes "store_inv s"
  shows "List ff get_labels s gvk opts =
    Some (map (\<lambda>(key, r). node_obj s r)
      (filter (\<lambda>(key, r). list_hit ff get_labels gvk (apply_options opts) key (node_obj s r)) (ds_objects s)))"
proof -
  let ?lo = "apply_options opts"
  have entry: "list_entry ff get_labels s gvk ?lo (key, r) result =
      Some (if list_hit ff get_labels gvk ?lo key (node_obj s r) then result @ [node_obj s r] else result)"
    if "(key, r) \<in> set (ds_objects s)" for key r result
  proof -
    from that have get: "go_get (ds_objects s) key = Some r"
      using store_invD(2) [OF assms] by (simp add: go_in_set_get)
    note r = store_invD(3,5) [OF assms get] and N = store_invD(1) [OF assms]
    show ?thesis
      using map_root_tree [OF N r] reconstruct_fuel [OF N r(1)] by (auto simp: list_entry_def list_hit_def)
  qed
  have "foldM (list_entry ff get_labels s gvk ?lo) es result = Some (result @
      map (\<lambda>(key, r). node_obj s r) (filter (\<lambda>(key, r). list_hit ff get_labels gvk ?lo key (node_obj s r)) es))"
    if "set es \<subseteq> set (ds_objects s)" for es result
    using that by (induction es arbitrary: result) (auto simp: entry)
  then show ?thesis by (simp add: List_def)
qed

lemma List_keys:
  assumes "store_inv s"
  shows "\<exists>keys. distinct keys \<and>
    (\<forall>key. key \<in> set keys \<longleftrightarrow> (\<exists>obj. Get key s = Some (Some obj) \<and> list_hit ff get_labels gvk (apply_options opts) key obj)) \<and>
    map (\<lambda>key. Get key s) keys = map (\<lambda>obj. Some (Some obj)) (the (List ff get_labels s gvk opts)) \<and>
    List ff get_labels s gvk opts \<noteq> None"
proof (intro exI conjI allI)
  let ?P = "\<lambda>(key, r). list_hit ff get_labels gvk (apply_options opts) key (node_obj s r)"
  let ?keys = "map fst (filter ?P (ds_objects s))"
  note d = store_invD(2) [OF assms]
  show "distinct ?keys" using d by (simp add: distinct_map_filter)
  show "List ff get_labels s gvk opts \<noteq> None" by (simp add: List_eq [OF assms])
  show "map (\<lambda>key. Get key s) ?keys = map (\<lambda>obj. Some (Some obj)) (the (List ff get_labels s gvk opts))"
    using d by (auto simp: List_eq [OF assms] Get_eq [OF assms])
  show "key \<in> set ?keys \<longleftrightarrow> (\<exists>obj. Get key s = Some (Some obj) \<and> list_hit ff get_labels gvk (apply_options opts) key obj)" for key
    using d by (force simp: Get_eq [OF assms])
qed

end
