(* ===== verification/Store_Samples.thy ===== *)
theory Store_Samples
  imports Dedup_Counts Store_List
begin

text \<open>
  A pod, and the store that holds it, worked out in full: the concrete input of the witnesses. The node of
  \<open>''n1''\<close> is shared by \<open>spec.nodeName\<close> and \<open>args\<close>, so its reference count is 2.
\<close>

definition core_gvk :: "string \<Rightarrow> gvk" where
  "core_gvk kind = \<lparr>gvk_group = '''', gvk_version = ''v1'', gvk_kind = kind\<rparr>"

definition pod_key :: "string \<Rightarrow> object_key" where
  "pod_key name = \<lparr>key_gvk = core_gvk ''Pod'', key_namespace = ''ns'', key_name = name\<rparr>"

definition pod :: "string \<Rightarrow> gobj" where
  "pod node = [(''kind'', Scalar (IString ''Pod'')),
     (''spec'', GMap [(''nodeName'', Scalar (IString node)), (''replicas'', Scalar (IInt 3))]),
     (''args'', GSlice [Scalar (IString node), Scalar (IBool True)])]"

lemma pod_ok [simp]: "tree_ok (GMap (pod n))" "nan_free (GMap (pod n))"
  by (simp_all add: pod_def)

definition sample_store :: dedup_store where
  "sample_store = \<lparr>
     ds_values = \<lparr>
       pool_values = [INil, IString ''kind'', IString ''Pod'', IString ''spec'', IString ''nodeName'', IString ''n1'',
         IString ''replicas'', IInt64 3, IString ''args'', IBool True],
       pool_index = [(IString ''kind'', 1), (IString ''Pod'', 2), (IString ''spec'', 3), (IString ''nodeName'', 4),
         (IString ''n1'', 5), (IString ''replicas'', 6), (IInt64 3, 7), (IString ''args'', 8), (IBool True, 9)]\<rparr>,
     ds_subtrees = \<lparr>
       sp_nodes = [zero_node, scalar_node 2, scalar_node 5, scalar_node 7,
         map_node [\<lparr>entry_key = 4, entry_value = 2\<rparr>, \<lparr>entry_key = 6, entry_value = 3\<rparr>],
         scalar_node 9, slice_node [2, 5],
         map_node [\<lparr>entry_key = 1, entry_value = 1\<rparr>, \<lparr>entry_key = 3, entry_value = 4\<rparr>, \<lparr>entry_key = 8, entry_value = 6\<rparr>]],
       sp_index = [(12109884900928230781, [1]), (5412938680025462554, [2]), (948307866090283736, [3]),
         (17498782587750100431, [4]), (14930421125864656534, [5]), (17203501346501018210, [6]), (9417669581329710981, [7])]\<rparr>,
     ds_objects = [(pod_key ''a'', 7)],
     ds_refcounts = [(7, 1), (1, 1), (4, 1), (2, 2), (3, 1), (6, 1), (5, 1)]\<rparr>"

lemma sample_upsert: "Upsert (pod_key ''a'') (pod ''n1'') NewDedupStore = Some sample_store"
  by code_simp

lemma sample_inv: "store_inv sample_store"
  using Upsert_correct [OF store_inv_new pod_ok(1), of "pod_key ''a''" "''n1''"] by (simp only: sample_upsert returns_Some)

lemma sample_nodes_inv: "nodes_inv sample_store"
  by (rule store_invD(1) [OF sample_inv])

lemma sample_has: "has_node sample_store 7"
  by (rule store_invD(3) [OF sample_inv, where key = "pod_key ''a''"]) (simp add: sample_store_def)

lemma sample_view: "store_view sample_store = (\<lambda>_. None)(pod_key ''a'' \<mapsto> sem (GMap (pod ''n1'')))"
  using Upsert_correct [OF store_inv_new pod_ok(1), of "pod_key ''a''" "''n1''"]
  by (simp only: sample_upsert returns_Some store_view_new)

lemma sample_sem: "node_sem sample_store 7 = sem (GMap (pod ''n1''))"
  using fun_cong [OF sample_view, of "pod_key ''a''"]
  by (simp add: store_view_def del: sem.simps) (simp add: sample_store_def)

lemma sample_counts: "counts_exact sample_store"
proof -
  have "refs_total sample_store i \<le> 2" for i
  proof (cases "i < 8")
    case True
    have "list_all (\<lambda>i. refs_total sample_store i \<le> 2) [0, 1, 2, 3, 4, 5, 6, 7]" by code_simp
    moreover from True have "i \<in> {0, 1, 2, 3, 4, 5, 6, 7}" by auto
    ultimately show ?thesis by auto
  next
    case False
    with paths_above [OF nodes_inv_descends [OF sample_nodes_inv] sample_has, of i]
    have "paths (ds_subtrees sample_store) 7 i = 0" by auto
    moreover have "map snd (ds_objects sample_store) = [7]" by (simp add: sample_store_def)
    ultimately show ?thesis by (simp add: refs_total_def)
  qed
  then have "refs_total sample_store i < 2 ^ 32" for i
    by (rule le_less_trans) simp
  with Upsert_counts [OF store_inv_new pod_ok(1) counts_exact_new, of "pod_key ''a''" "''n1''"]
  show ?thesis by (simp only: sample_upsert returns_Some) blast
qed

end
