(* ===== verification/Store_Properties.thy ===== *)
theory Store_Properties
  imports Store_Samples
begin

text \<open>
  The properties of the deduplicated store, each over the library lemmas of its component; the witnesses apply
  them to the concrete store of \<open>Store_Samples\<close>.
\<close>

section \<open>The store as a map\<close>

text \<open>
  C1 (refinement): any sequence of Upsert, Delete and GC on a new DedupStore returns, and Get on the store it leaves
  returns what the abstract map of keys to meanings holds after the same sequence: upserts and deletes act as map updates,
  and a collection changes nothing.
\<close>

theorem store_refines_map:
  assumes "\<forall>c\<in>set cs. op_ok (\<lambda>obj. tree_ok (GMap obj)) c"
  shows "returns (run_ops Upsert Delete collect cs NewDedupStore)
    (\<lambda>t. returns (Get k t) (\<lambda>r. map_option (\<lambda>obj. sem (GMap obj)) r =
       fold (spec_op (\<lambda>obj. sem (GMap obj))) cs (\<lambda>_. None) k))"
  using assms by (rule ds.get_after_run)

theorem store_refines_map_witness:
  "returns (run_ops Upsert Delete collect
      [OpUpsert (pod_key ''a'') (pod ''n1''), OpUpsert (pod_key ''b'') (pod ''n2''), OpDelete (pod_key ''b''), OpGC] NewDedupStore)
    (\<lambda>t. returns (Get (pod_key ''a'') t) (\<lambda>r. map_option (\<lambda>obj. sem (GMap obj)) r = Some (sem (GMap (pod ''n1'')))))"
  using store_refines_map [of "[OpUpsert (pod_key ''a'') (pod ''n1''), OpUpsert (pod_key ''b'') (pod ''n2''), OpDelete (pod_key ''b''), OpGC]" "pod_key ''a''"]
  by (simp add: pod_key_def del: sem.simps tree_ok.simps)

text \<open>
  C38 (type): what Get gives out is well typed. Whatever Go scalars went in, of any integer width or of types the store does not know, an object read back has only nil, strings, int64s, float64s and booleans as scalars, the types that
  unstructured content may have, and no map of it has a key twice; so it can be stored again.
\<close>

theorem get_well_typed:
  assumes "\<forall>c\<in>set cs. op_ok (\<lambda>obj. tree_ok (GMap obj)) c"
  shows "returns (run_ops Upsert Delete collect cs NewDedupStore)
    (\<lambda>t. returns (Get k t) (\<lambda>r. case r of None \<Rightarrow> True | Some obj \<Rightarrow> well_typed (GMap obj)))"
proof (rule returns_mono [OF ds.run_ops_refines [OF ds.init_law(1) assms]], elim conjE)
  fix t assume t: "store_inv t"
  show "returns (Get k t) (\<lambda>r. case r of None \<Rightarrow> True | Some obj \<Rightarrow> well_typed (GMap obj))"
  proof (cases "go_get (ds_objects t) k")
    case (Some i)
    note N = store_invD(1) [OF t] and i = store_invD(3,5) [OF t Some]
    from well_typed_node_tree [OF N i(1)] map_root_tree [OF N i] Some show ?thesis by (simp add: Get_eq [OF t] del: well_typed.simps)
  qed (simp add: Get_eq [OF t])
qed

theorem get_well_typed_witness:
  "\<exists>t obj. run_ops Upsert Delete collect [OpUpsert (pod_key ''a'') (pod ''n1'')] NewDedupStore = Some t \<and> Get (pod_key ''a'') t = Some (Some obj) \<and> well_typed (GMap obj)"
proof -
  have run: "run_ops Upsert Delete collect [OpUpsert (pod_key ''a'') (pod ''n1'')] NewDedupStore = Some sample_store"
    by (simp add: run_ops_def sample_upsert)
  have "Get (pod_key ''a'') sample_store \<noteq> Some None"
    by (simp add: Get_eq [OF sample_inv]) (simp add: sample_store_def)
  with get_well_typed [of "[OpUpsert (pod_key ''a'') (pod ''n1'')]" "pod_key ''a''"] run show ?thesis
    by (auto simp: returns_iff simp del: well_typed.simps tree_ok.simps split: option.splits)
qed

text \<open>
  C4 (roundtrip): decomposing a tree into the pools and reconstructing the root gives a tree with the same meaning:
  the same scalars up to the widening of integers and the two zeros, the same maps up to the order of entries, the same slices.
\<close>

theorem decompose_reconstruct:
  assumes "nodes_inv s" "tree_ok v" "decompose v s = (i, t)"
  shows "returns (reconstruct (node_fuel t) t i) (\<lambda>w. sem w = sem v \<and> tree_ok w)"
proof -
  have "nodes_inv t" "has_node t i" "node_sem t i = sem v"
    using decompose_correct(1) [OF assms] by (auto simp: item_for_def)
  then show ?thesis by (simp add: reconstruct_fuel tree_ok_node_tree)
qed

theorem decompose_reconstruct_witness:
  "returns (reconstruct (node_fuel (snd (decompose (GMap (pod ''n1'')) NewDedupStore)))
      (snd (decompose (GMap (pod ''n1'')) NewDedupStore)) (fst (decompose (GMap (pod ''n1'')) NewDedupStore)))
    (\<lambda>w. sem w = sem (GMap (pod ''n1'')) \<and> tree_ok w)"
  using decompose_reconstruct [OF nodes_inv_new pod_ok(1) prod.collapse [symmetric], of "''n1''"] .

text \<open>
  C7 (deduplication): a tree without NaN whose meaning a node of the store already has is stored at no cost: decompose
  returns that node and leaves both pools as they are. So equal subtrees and equal objects share one node.
\<close>

theorem decompose_shares:
  assumes "nodes_inv s" "tree_ok v" "nan_free v" "has_node s i" "node_sem s i = sem v"
  shows "decompose v s = (i, s)"
  using decompose_reuse [OF assms(1-4)] assms(5) by simp

theorem decompose_shares_witness:
  "decompose (GMap (rev (pod ''n1''))) sample_store = (7, sample_store)"
proof -
  have "sem (GMap (rev (pod ''n1''))) = sem (GMap (pod ''n1''))" by (auto simp: pod_def fun_eq_iff)
  moreover have "tree_ok (GMap (rev (pod ''n1'')))" "nan_free (GMap (rev (pod ''n1'')))" by (simp_all add: pod_def)
  ultimately show ?thesis
    using decompose_shares [OF sample_nodes_inv _ _ sample_has] sample_sem by metis
qed

section \<open>Garbage collection\<close>

text \<open>
  C5 (safety): a collection never loses an object and never keeps garbage. It returns, every Get gives what it gave before, the nodes in
  use afterwards are exactly those reachable from an object's root, each as it was, and NodesRemoved is the number of the others.
\<close>

theorem gc_precise:
  assumes "store_inv s"
  shows "returns (GC s) (\<lambda>(stats, t). store_inv t \<and> (\<forall>key. Get key t = Get key s) \<and>
    (\<forall>i. has_node t i \<longleftrightarrow> i \<in> reachable_nodes s) \<and>
    (\<forall>i. has_node t i \<longrightarrow> resolve_node t i = resolve_node s i \<and> node_tree t i = node_tree s i) \<and>
    nodes_removed stats = card {i. has_node s i \<and> \<not> has_node t i})"
  using assms by (simp add: GC_eq gc_removed_def store_inv_swept Get_swept swept_pools(1,2) node_tree_swept)

theorem gc_precise_witness:
  "returns (GC sample_store) (\<lambda>(stats, t). Get (pod_key ''a'') t = Get (pod_key ''a'') sample_store \<and>
     (has_node t 7 \<longleftrightarrow> 7 \<in> reachable_nodes sample_store))"
  by (rule returns_mono [OF gc_precise [OF sample_inv]]) auto

text \<open>C34 (safety): after a collection the value pool resolves nil and exactly those stored values that a reachable node mentions.\<close>

theorem gc_values:
  assumes "store_inv s"
  shows "returns (GC s) (\<lambda>(stats, t). \<forall>v. has_value t v \<longleftrightarrow> has_value s v \<and> (v \<in> reachable_values s \<or> v = 0)) \<and>
    returns (GC s) (\<lambda>(stats, t). \<forall>v. has_value t v \<longrightarrow> resolve_value t v = resolve_value s v)"
  using assms by (auto simp: GC_eq swept_pools(3,4))

theorem gc_values_witness:
  "returns (GC sample_store) (\<lambda>(stats, t). \<forall>v. has_value t v \<longrightarrow> resolve_value t v = resolve_value sample_store v)"
  using gc_values [OF sample_inv] by (rule conjunct2)



text \<open>
  Reference counting and tracing agree. With exact counters, a node's counter is zero exactly when no object reaches it,
  and the counters that a collection keeps are those of the nodes it keeps.
\<close>

lemma counters_trace:
  assumes "store_inv s" "counts_exact s"
  shows "(count (ds_refcounts s) i = 0 \<longleftrightarrow> i \<notin> reachable_nodes s) \<and>
    returns (GC s) (\<lambda>(stats, t). go_get (ds_refcounts t) i \<noteq> None \<longleftrightarrow> has_node t i)"
  using count_zero_iff [OF assms] swept_counters [OF assms] by (simp add: GC_eq [OF assms(1)])

text \<open>
  C33 (termination): the unguarded recursions end. On a well-formed store, reconstruct, incRef, decRef and the walk of GC return
  from any node in use with fuel above the node's ID, whatever the counters and the (closed) marks.
\<close>

theorem walks_terminate:
  assumes "nodes_inv s" "has_node s i" "i < fuel" "closed_marks (ds_subtrees s) {} m"
  shows "reconstruct fuel s i \<noteq> None \<and> inc_ref fuel (ds_subtrees s) i rc \<noteq> None \<and>
    dec_ref fuel (ds_subtrees s) i rc \<noteq> None \<and> gc_walk fuel (ds_subtrees s) i m \<noteq> None"
  using reconstruct_returns [OF assms(1-3)] nodes_inv_descends [OF assms(1)] assms(2-4)
    inc_ref_correct [of "ds_subtrees s" i fuel rc] dec_ref_correct [of "ds_subtrees s" i fuel rc]
    gc_walk_correct [of "ds_subtrees s" i fuel "{}" m]
  by (auto simp: returns_iff)

theorem walks_terminate_witness:
  "reconstruct 8 sample_store 7 \<noteq> None \<and> gc_walk 8 (ds_subtrees sample_store) 7 ({}, {}) \<noteq> None"
  using walks_terminate [OF sample_nodes_inv sample_has, of 8 "({}, {})" "[]"] by (simp add: closed_marks_def)

section \<open>Queries\<close>

text \<open>
  C19 (functional): List returns exactly the stored objects that match: the result is, in the order of the range over objects, what Get returns for
  the keys of the GVK and namespace asked for whose object passes the label and field selectors, once per key.
\<close>

theorem list_exact:
  assumes "store_inv s"
  shows "\<exists>keys. distinct keys \<and>
    (\<forall>key. key \<in> set keys \<longleftrightarrow> (\<exists>obj. Get key s = Some (Some obj) \<and> list_hit ff get_labels gvk (apply_options opts) key obj)) \<and>
    map (\<lambda>key. Get key s) keys = map (\<lambda>obj. Some (Some obj)) (the (List ff get_labels s gvk opts)) \<and>
    List ff get_labels s gvk opts \<noteq> None"
  using assms by (rule List_keys)

theorem list_exact_witness:
  "\<exists>keys. map (\<lambda>key. Get key sample_store) keys =
     map (\<lambda>obj. Some (Some obj)) (the (List (\<lambda>_. ''0'') (\<lambda>_. []) sample_store (core_gvk ''Pod'') [WithNamespace ''ns'']))"
  using list_exact [OF sample_inv] by blast

text \<open>
  A field selector on a string field gives the same answer on an object before it is stored and after: if the path leads to the string
  \<open>x\<close>, it matches exactly the value \<open>x\<close> in every object with the same meaning; if the path leads nowhere, it matches nothing.
\<close>

lemma field_selector_stable:
  assumes "sem (GMap obj) = sem (GMap obj')"
  shows "(walk_field (split_on (CHR ''.'') field) (GMap obj) = Some (Scalar (IString x)) \<longrightarrow> fieldMatches ff obj' field value = (x = value)) \<and>
    (walk_field (split_on (CHR ''.'') field) (GMap obj) = None \<longrightarrow> \<not> fieldMatches ff obj' field value)"
  using assms walk_field_sem [of "split_on (CHR ''.'') field" "GMap obj"] fieldMatches_string [of field obj' x ff "value"]
    fieldMatches_absent [of field obj' ff "value"]
  by auto

text \<open>
  LabelsMatch asks for every selector label to be present with its value, but a selector label with the empty value also
  matches an object that does not have the label.
\<close>

lemma labels_match_exact:
  assumes "distinct (go_keys selector)"
  shows "labelsMatch labels selector \<longleftrightarrow>
    (\<forall>k v. go_get selector k = Some v \<longrightarrow> go_get labels k = Some v \<or> v = '''' \<and> go_get labels k = None)"
  using assms by (rule labelsMatch_iff)

section \<open>The pools\<close>

text \<open>
  Interning a value keeps the pool well-formed, resolves back to the same value and leaves every identifier in use as it was; a
  value that is in the pool already, NaN apart, is found again and nothing is stored.
\<close>

lemma value_pool_interns:
  assumes "value_inv p" "value_intern v p = (i, q)"
  shows "value_inv q \<and> scalar_sem (value_resolve q i) = scalar_sem v \<and>
    (\<forall>j. value_has p j \<longrightarrow> value_has q j \<and> value_resolve q j = value_resolve p j) \<and>
    (\<not> nan_value v \<longrightarrow> (\<forall>j. value_has p j \<and> scalar_sem (value_resolve p j) = scalar_sem v \<longrightarrow> i = j \<and> q = p))"
  using value_intern_correct [OF assms(1), where v = v] value_intern_reuse [OF assms(1), where v = v] assms(2) by auto

text \<open>
  C39 (error): NaN is never deduplicated. Interning it appends a slot and an index entry every time, and a collection clears the slot but not the
  entry, since Go's delete finds no NaN key; so the entry is counted as removed by every later collection too.
\<close>

theorem nan_entries_stay:
  assumes "value_inv p" "nan_value v" "value_intern v p = (i, q)"
  shows "i = value_len p \<and> value_len q = value_len p + 1 \<and>
    (\<forall>live. i \<notin> live \<longrightarrow> (v, i) \<in> set (pool_index (snd (value_delete_unreachable live q))) \<and>
       \<not> value_has (snd (value_delete_unreachable live q)) i \<and>
       0 < fst (value_delete_unreachable live (snd (value_delete_unreachable live q))))"
proof -
  note q = value_intern_nan [OF assms(2), of p]
  have inv: "value_inv q" using value_intern_correct(1) [OF assms(1), of v] assms(3) by simp
  have i: "i = value_len p" "value_len q = value_len p + 1" "(v, i) \<in> set (pool_index q)" "i \<noteq> 0"
    using q assms(3) value_invD(1) [OF assms(1)] by (auto simp: value_len_def)
  have "(v, i) \<in> set (pool_index (snd (value_delete_unreachable live q))) \<and>
      \<not> value_has (snd (value_delete_unreachable live q)) i \<and>
      0 < fst (value_delete_unreachable live (snd (value_delete_unreachable live q)))" if "i \<notin> live" for live
  proof -
    have mem: "(v, i) \<in> set (pool_index (snd (value_delete_unreachable live q)))"
      using value_sweep_index [OF inv i(3)] assms(2) by blast
    then have "i \<in> {i \<in> snd ` set (pool_index (snd (value_delete_unreachable live q))). i \<notin> live}"
      using that by force
    then have "0 < card {i \<in> snd ` set (pool_index (snd (value_delete_unreachable live q))). i \<notin> live}"
      by (intro card_gt_0_iff [THEN iffD2]) auto
    with mem that i(4) show ?thesis
      by (simp add: value_sweep_count [OF value_inv_sweep [OF inv]] value_has_sweep [OF inv])
  qed
  with i show ?thesis by blast
qed

definition nan64 :: iface where
  "nan64 = IFloat64 0x7FF8000000000001"

theorem nan_entries_stay_witness:
  "0 < fst (value_delete_unreachable {} (snd (value_delete_unreachable {} (snd (value_intern nan64 NewValueInternPool)))))"
  using nan_entries_stay [OF value_inv_new _ prod.collapse [symmetric], of nan64]
  by (simp add: nan64_def is_nan_def)

text \<open>
  Interning a node gives it an identifier that resolves to it and keeps the other nodes; a node that the pool has is found again even
  when other nodes have the same FNV hash, and two nodes are never confused: identifiers in use are equal exactly when their nodes are.
\<close>

lemma subtree_pool_interns:
  assumes "subtree_inv p" "node_normal n" "subtree_intern n p = (i, q)"
  shows "subtree_inv q \<and> subtree_resolve q i = n \<and>
    (\<forall>j. subtree_has p j \<longrightarrow> subtree_has q j \<and> subtree_resolve q j = subtree_resolve p j) \<and>
    (\<forall>j. subtree_has p j \<and> subtree_resolve p j = n \<longrightarrow> i = j \<and> q = p) \<and>
    (\<forall>j k. subtree_has q j \<longrightarrow> subtree_has q k \<longrightarrow> (subtree_resolve q j = subtree_resolve q k \<longleftrightarrow> j = k))"
proof -
  note C = subtree_intern_correct [OF assms(1,2)]
  have q: "subtree_inv q" using C(1) assms(3) by simp
  have "subtree_resolve q j = subtree_resolve q k \<longleftrightarrow> j = k" if "subtree_has q j" "subtree_has q k" for j k
    using subtree_intern_reuse [OF q that(1) refl] subtree_intern_reuse [OF q that(2) refl] by (metis fst_conv)
  moreover have "i = j \<and> q = p" if "subtree_has p j" "subtree_resolve p j = n" for j
    using subtree_intern_reuse [OF assms(1) that] assms(3) by simp
  moreover have "subtree_resolve q i = n" "\<forall>j. subtree_has p j \<longrightarrow> subtree_has q j \<and> subtree_resolve q j = subtree_resolve p j"
    using C assms(3) by simp_all
  ultimately show ?thesis using q by blast
qed

text \<open>
  C40 (bounds): an unsigned 64-bit number is stored through a conversion to int64, so one above the largest int64 reads back as the negative number with the
  same bits.
\<close>

theorem uint64_wraps:
  assumes "nodes_inv s" "2 ^ 63 \<le> uint w" "decompose (Scalar (IUint64 w)) s = (i, t)"
  shows "returns (reconstruct (node_fuel t) t i) (\<lambda>x. \<exists>y. x = Scalar (IInt64 y) \<and> sint y = uint w - 2 ^ 64)"
proof -
  have t: "nodes_inv t" "has_node t i" "node_sem t i = AInt w"
    using decompose_correct(1) [OF assms(1) _ assms(3)] by (auto simp: item_for_def)
  have "node_tree t i = Scalar (IInt64 w)"
    using t(1,2)
  proof (cases rule: node_cases)
    case (scalar v)
    have "scalar_sem (resolve_value t v) = AInt w" using t scalar(1) by (simp add: node_tree_simps)
    then have "v \<noteq> 0" using nodes_invD(1) [OF t(1)] by (intro notI) simp
    with value_resolve_canonical [OF nodes_invD(1) [OF t(1)] scalar(2)] t scalar(1) show ?thesis
      by (cases "resolve_value t v") (auto simp: node_tree_simps)
  qed (use t in \<open>auto simp: node_tree_simps\<close>)
  moreover have "uint w div 2 ^ 63 = 1"
    using assms(2) uint_lt2p [of w] by (intro int_div_pos_eq [where r = "uint w - 2 ^ 63"]) simp_all
  then have "bit (uint w) 63" by (simp add: bit_iff_odd)
  then have "sint w = uint w - 2 ^ 64"
    using assms(2) uint_lt2p [of w] by (simp add: sint_uint signed_take_bit_eq_take_bit_minus take_bit_int_eq_self bit_last_iff)
  ultimately show ?thesis using t by (simp add: reconstruct_fuel)
qed

theorem uint64_wraps_witness:
  "returns (reconstruct (node_fuel (snd (decompose (Scalar (IUint64 (-1))) NewDedupStore)))
      (snd (decompose (Scalar (IUint64 (-1))) NewDedupStore)) (fst (decompose (Scalar (IUint64 (-1))) NewDedupStore)))
    (\<lambda>x. \<exists>y. x = Scalar (IInt64 y) \<and> sint y = -1)"
  using uint64_wraps [OF nodes_inv_new _ prod.collapse [symmetric], of "-1"]
  by (simp add: unsigned_minus_1_eq_mask mask_eq_exp_minus_1 del: decompose_scalar)

end
