(* ===== verification/Indexer.thy ===== *)
theory Indexer
  imports Keys
begin

text \<open>
  \<open>cache/index.go\<close>: the field indexes. \<open>data\<close> maps GVK, field and value to a set of object keys, \<open>reverse\<close>
  maps an object key back to the fields and values it is filed under. The nested Go maps are references, so an
  assignment through a path changes the inner map in place (\<open>go_mod\<close>). \<open>'o\<close> is the type of the indexed objects;
  index functions are supplied by the caller of \<open>AddIndex\<close>.
\<close>

section \<open>Nested maps\<close>

definition go_ensure :: "'k \<Rightarrow> 'v \<Rightarrow> ('k, 'v) gomap \<Rightarrow> ('k, 'v) gomap" where
  "go_ensure k d m = (case go_get m k of None \<Rightarrow> go_put k d m | Some _ \<Rightarrow> m)"

definition go_mod :: "'k \<Rightarrow> ('v \<Rightarrow> 'v) \<Rightarrow> ('k, 'v) gomap \<Rightarrow> ('k, 'v) gomap" where
  "go_mod k f m = (case go_get m k of None \<Rightarrow> m | Some x \<Rightarrow> go_put k (f x) m)"

lemma go_get_ensure [gomap_simps]:
  "go_get (go_ensure k d m) k' = (if k' = k \<and> go_get m k = None then Some d else go_get m k')"
  by (simp add: go_ensure_def gomap_simps split: option.split)

lemma go_get_mod [gomap_simps]:
  "go_get (go_mod k f m) k' = (if k' = k then map_option f (go_get m k) else go_get m k')"
  by (simp add: go_mod_def gomap_simps split: option.split)

section \<open>State and operations\<close>

record 'o indexer =
  idx_funcs :: "(gvk, (string, 'o \<Rightarrow> string list) gomap) gomap"
  idx_data :: "(gvk, (string, (string, (object_key, unit) gomap) gomap) gomap) gomap"
  idx_reverse :: "(object_key, (string, (string, unit) gomap) gomap) gomap"

datatype index_error = IndexExists gvk string

definition NewIndexer :: "'o indexer" where
  "NewIndexer = \<lparr>idx_funcs = [], idx_data = [], idx_reverse = []\<rparr>"

definition AddIndex :: "gvk \<Rightarrow> string \<Rightarrow> ('o \<Rightarrow> string list) \<Rightarrow> 'o indexer \<Rightarrow> index_error option \<times> 'o indexer" where
  "AddIndex gvk field fn idx =
     (let funcs = go_ensure gvk [] (idx_funcs idx); idx1 = idx\<lparr>idx_funcs := funcs\<rparr>
      in if Option.bind (go_get funcs gvk) (\<lambda>m. go_get m field) \<noteq> None then (Some (IndexExists gvk field), idx1)
         else (None, idx1\<lparr>idx_funcs := go_mod gvk (go_put field fn) funcs\<rparr>))"

definition Lookup :: "gvk \<Rightarrow> string \<Rightarrow> string \<Rightarrow> 'o indexer \<Rightarrow> object_key list" where
  "Lookup gvk field value idx =
     (case go_get (idx_data idx) gvk of
        None \<Rightarrow> []
      | Some gvkData \<Rightarrow>
          (case go_get gvkData field of
             None \<Rightarrow> []
           | Some fieldData \<Rightarrow>
               (case go_get fieldData value of
                  None \<Rightarrow> []
                | Some keySet \<Rightarrow> go_keys keySet)))"

definition drop_key :: "object_key \<Rightarrow> string \<Rightarrow> (string, (object_key, unit) gomap) gomap \<Rightarrow> (string, (object_key, unit) gomap) gomap" where
  "drop_key key oldVal fieldData =
     (let fd = go_mod oldVal (go_del key) fieldData
      in if length (case go_get fd oldVal of None \<Rightarrow> [] | Some ks \<Rightarrow> ks) = 0 then go_del oldVal fd else fd)"

definition remove_entries :: "object_key \<Rightarrow> 'o indexer \<Rightarrow> 'o indexer" where
  "remove_entries key idx =
     (case go_get (idx_reverse idx) key of
        None \<Rightarrow> idx
      | Some fieldMap \<Rightarrow>
          idx\<lparr>idx_data := fold (\<lambda>(field, oldValues). fold (\<lambda>(oldVal, _).
                  go_mod (key_gvk key) (go_mod field (drop_key key oldVal))) oldValues) fieldMap (idx_data idx),
              idx_reverse := go_del key (idx_reverse idx)\<rparr>)"

definition add_value :: "object_key \<Rightarrow> string \<Rightarrow> string \<Rightarrow> 'o indexer \<Rightarrow> 'o indexer" where
  "add_value key field val idx =
     idx\<lparr>idx_data := go_mod (key_gvk key) (go_mod field (\<lambda>fd. go_mod val (go_put key ()) (go_ensure val [] fd))) (idx_data idx),
         idx_reverse := go_mod key (go_mod field (go_put val ())) (idx_reverse idx)\<rparr>"

definition add_field :: "object_key \<Rightarrow> 'o \<Rightarrow> string \<times> ('o \<Rightarrow> string list) \<Rightarrow> 'o indexer \<Rightarrow> 'o indexer" where
  "add_field key obj = (\<lambda>(field, fn) idx.
     let values = fn obj
     in if length values = 0 then idx
        else
          let idx1 = idx\<lparr>
                idx_data := go_mod (key_gvk key) (go_ensure field []) (go_ensure (key_gvk key) [] (idx_data idx)),
                idx_reverse := go_mod key (go_ensure field []) (go_ensure key [] (idx_reverse idx))\<rparr>
          in fold (add_value key field) values idx1)"

definition UpdateIndex :: "object_key \<Rightarrow> 'o \<Rightarrow> 'o indexer \<Rightarrow> 'o indexer" where
  "UpdateIndex key obj idx =
     (let idx1 = remove_entries key idx
      in case go_get (idx_funcs idx1) (key_gvk key) of
           None \<Rightarrow> idx1
         | Some funcsForGVK \<Rightarrow> fold (add_field key obj) funcsForGVK idx1)"

definition RemoveIndex :: "object_key \<Rightarrow> 'o indexer \<Rightarrow> 'o indexer" where
  "RemoveIndex key idx = remove_entries key idx"

section \<open>Membership\<close>

definition data_at :: "'o indexer \<Rightarrow> gvk \<Rightarrow> string \<Rightarrow> string \<Rightarrow> (object_key, unit) gomap option" where
  "data_at idx g f v = Option.bind (go_get (idx_data idx) g) (\<lambda>gd. Option.bind (go_get gd f) (\<lambda>fd. go_get fd v))"

definition indexed :: "'o indexer \<Rightarrow> gvk \<Rightarrow> string \<Rightarrow> string \<Rightarrow> object_key \<Rightarrow> bool" where
  "indexed idx g f v k \<longleftrightarrow> (\<exists>ks. data_at idx g f v = Some ks \<and> k \<in> set (go_keys ks))"

definition filed :: "'o indexer \<Rightarrow> object_key \<Rightarrow> string \<Rightarrow> string \<Rightarrow> bool" where
  "filed idx k f v \<longleftrightarrow> (\<exists>fm vs. go_get (idx_reverse idx) k = Some fm \<and> go_get fm f = Some vs \<and> v \<in> set (go_keys vs))"

text \<open>
  The two sides agree, an object is only filed under its own GVK, and key sets are sets and not empty.
\<close>

definition sets_ok :: "'o indexer \<Rightarrow> bool" where
  "sets_ok idx \<longleftrightarrow> (\<forall>g f v ks. data_at idx g f v = Some ks \<longrightarrow> distinct (go_keys ks) \<and> ks \<noteq> [])"

definition index_inv :: "'o indexer \<Rightarrow> bool" where
  "index_inv idx \<longleftrightarrow> sets_ok idx \<and> (\<forall>g f v k. indexed idx g f v k \<longleftrightarrow> key_gvk k = g \<and> filed idx k f v) \<and>
     (\<forall>g fs. go_get (idx_funcs idx) g = Some fs \<longrightarrow> distinct (go_keys fs))"

lemma Lookup_data_at: "Lookup g f v idx = (case data_at idx g f v of None \<Rightarrow> [] | Some ks \<Rightarrow> go_keys ks)"
  by (simp add: Lookup_def data_at_def split: option.split)

lemma Lookup_indexed: "k \<in> set (Lookup g f v idx) \<longleftrightarrow> indexed idx g f v k"
  by (cases "data_at idx g f v") (simp_all add: Lookup_data_at indexed_def)

lemma Lookup_distinct: "index_inv idx \<Longrightarrow> distinct (Lookup g f v idx)"
  by (simp add: Lookup_data_at index_inv_def sets_ok_def split: option.split)

lemma index_inv_new: "index_inv NewIndexer"
  by (simp add: index_inv_def sets_ok_def indexed_def filed_def data_at_def NewIndexer_def)

section \<open>Removal\<close>

definition drop_at :: "object_key \<Rightarrow> string \<Rightarrow> string \<Rightarrow>
    (gvk, (string, (string, (object_key, unit) gomap) gomap) gomap) gomap \<Rightarrow>
    (gvk, (string, (string, (object_key, unit) gomap) gomap) gomap) gomap" where
  "drop_at key field oldVal = go_mod (key_gvk key) (go_mod field (drop_key key oldVal))"

lemma drop_key_get:
  "go_get (drop_key key oldVal fd) v =
     (if v = oldVal then
        (case go_get fd v of None \<Rightarrow> None | Some ks \<Rightarrow> if go_del key ks = [] then None else Some (go_del key ks))
      else go_get fd v)"
  by (auto simp: drop_key_def Let_def gomap_simps split: option.split)

lemma data_at_drop:
  "data_at (idx\<lparr>idx_data := drop_at key field oldVal (idx_data idx)\<rparr>) g f v =
     (if g = key_gvk key \<and> f = field \<and> v = oldVal then
        (case data_at idx g f v of None \<Rightarrow> None | Some ks \<Rightarrow> if go_del key ks = [] then None else Some (go_del key ks))
      else data_at idx g f v)"
  by (auto simp: data_at_def drop_at_def gomap_simps drop_key_get bind_eq_None_conv split: option.split Option.bind_split)

lemma indexed_drop:
  "indexed (idx\<lparr>idx_data := drop_at key field oldVal (idx_data idx)\<rparr>) g f v k \<longleftrightarrow>
     indexed idx g f v k \<and> \<not> (g = key_gvk key \<and> f = field \<and> v = oldVal \<and> k = key)"
  by (auto simp: indexed_def data_at_drop AList.delete_eq filter_empty_conv split: option.splits if_splits)

lemma sets_ok_drop: "sets_ok idx \<Longrightarrow> sets_ok (idx\<lparr>idx_data := drop_at key field oldVal (idx_data idx)\<rparr>)"
  by (auto simp: sets_ok_def data_at_drop split: option.splits if_splits)

definition filed_pairs :: "(string, (string, unit) gomap) gomap \<Rightarrow> (string \<times> string) list" where
  "filed_pairs fm = concat (map (\<lambda>(f, vs). map (\<lambda>(v, _). (f, v)) vs) fm)"

lemma drop_loop:
  "fold (\<lambda>(field, oldValues). fold (\<lambda>(oldVal, _). go_mod (key_gvk key) (go_mod field (drop_key key oldVal))) oldValues) fm d =
     fold (\<lambda>(f, v). drop_at key f v) (filed_pairs fm) d"
  by (induction fm arbitrary: d) (auto simp: filed_pairs_def fold_map comp_def split_def drop_at_def)

lemma indexed_drops:
  "indexed (idx\<lparr>idx_data := fold (\<lambda>(f, v). drop_at key f v) ps (idx_data idx)\<rparr>) g f v k \<longleftrightarrow>
     indexed idx g f v k \<and> \<not> (g = key_gvk key \<and> (f, v) \<in> set ps \<and> k = key)"
proof (induction ps arbitrary: idx)
  case (Cons p ps)
  from Cons.IH [of "idx\<lparr>idx_data := drop_at key (fst p) (snd p) (idx_data idx)\<rparr>"] show ?case
    by (cases p) (auto simp: indexed_drop)
qed simp

lemma sets_ok_drops: "sets_ok idx \<Longrightarrow> sets_ok (idx\<lparr>idx_data := fold (\<lambda>(f, v). drop_at key f v) ps (idx_data idx)\<rparr>)"
proof (induction ps arbitrary: idx)
  case (Cons p ps)
  from Cons.IH [OF sets_ok_drop [OF Cons.prems]] show ?case by (cases p) simp
qed simp

lemma remove_entries_correct:
  assumes "index_inv idx"
  shows "index_inv (remove_entries key idx)"
    "indexed (remove_entries key idx) g f v k \<longleftrightarrow> k \<noteq> key \<and> indexed idx g f v k"
    "idx_funcs (remove_entries key idx) = idx_funcs idx"
proof -
  have inv: "indexed idx g f v k \<longleftrightarrow> key_gvk k = g \<and> filed idx k f v" for g f v k
    using assms by (simp add: index_inv_def)
  have "index_inv (remove_entries key idx) \<and> (\<forall>g f v k. indexed (remove_entries key idx) g f v k \<longleftrightarrow> k \<noteq> key \<and> indexed idx g f v k)"
  proof (cases "go_get (idx_reverse idx) key")
    case None
    then have "\<not> filed idx key f v" for f v by (simp add: filed_def)
    with None assms inv show ?thesis by (auto simp: remove_entries_def)
  next
    case (Some fm)
    let ?d = "fold (\<lambda>(f, v). drop_at key f v) (filed_pairs fm) (idx_data idx)"
    let ?t = "idx\<lparr>idx_data := ?d, idx_reverse := go_del key (idx_reverse idx)\<rparr>"
    have t: "remove_entries key idx = ?t" using Some by (simp add: remove_entries_def drop_loop)
    have "filed idx key f v \<Longrightarrow> (f, v) \<in> set (filed_pairs fm)" for f v
      using Some by (force simp: filed_def filed_pairs_def dest: map_of_SomeD)
    moreover have I: "indexed ?t g f v k \<longleftrightarrow> indexed (idx\<lparr>idx_data := ?d\<rparr>) g f v k" "sets_ok ?t \<longleftrightarrow> sets_ok (idx\<lparr>idx_data := ?d\<rparr>)" for g f v k
      by (simp_all add: indexed_def data_at_def sets_ok_def)
    ultimately have J: "indexed ?t g f v k \<longleftrightarrow> k \<noteq> key \<and> indexed idx g f v k" for g f v k
      using inv by (auto simp: indexed_drops)
    moreover have "filed ?t k f v \<longleftrightarrow> k \<noteq> key \<and> filed idx k f v" for k f v
      by (auto simp: filed_def gomap_simps)
    moreover have "sets_ok ?t" using assms by (simp add: I(2) sets_ok_drops index_inv_def)
    ultimately show ?thesis
      using assms inv unfolding t by (auto simp: index_inv_def)
  qed
  then show "index_inv (remove_entries key idx)"
    "indexed (remove_entries key idx) g f v k \<longleftrightarrow> k \<noteq> key \<and> indexed idx g f v k" by blast+
  show "idx_funcs (remove_entries key idx) = idx_funcs idx"
    by (simp add: remove_entries_def split: option.split)
qed

section \<open>Insertion\<close>

text \<open>The inner maps an object of the field is filed in exist.\<close>

definition prepared :: "'o indexer \<Rightarrow> object_key \<Rightarrow> string \<Rightarrow> bool" where
  "prepared idx key field \<longleftrightarrow>
     (\<exists>gd. go_get (idx_data idx) (key_gvk key) = Some gd \<and> go_get gd field \<noteq> None) \<and>
     (\<exists>fm. go_get (idx_reverse idx) key = Some fm \<and> go_get fm field \<noteq> None)"

lemma data_at_add:
  assumes "prepared idx key field"
  shows "data_at (add_value key field val idx) g f v =
    (if g = key_gvk key \<and> f = field \<and> v = val
     then Some (go_put key () (case data_at idx g f v of None \<Rightarrow> [] | Some ks \<Rightarrow> ks)) else data_at idx g f v)"
  using assms by (auto simp: prepared_def data_at_def add_value_def gomap_simps split: option.split)

lemma indexed_add:
  assumes "prepared idx key field"
  shows "indexed (add_value key field val idx) g f v k \<longleftrightarrow>
    indexed idx g f v k \<or> g = key_gvk key \<and> f = field \<and> v = val \<and> k = key"
  by (cases "data_at idx g f v") (auto simp: indexed_def data_at_add [OF assms] dom_update)

lemma filed_add:
  assumes "prepared idx key field"
  shows "filed (add_value key field val idx) k f v \<longleftrightarrow> filed idx k f v \<or> k = key \<and> f = field \<and> v = val"
proof -
  from assms obtain fm vs where fm: "go_get (idx_reverse idx) key = Some fm" "go_get fm field = Some vs"
    by (auto simp: prepared_def)
  then show ?thesis
    by (cases "k = key"; cases "f = field") (auto simp: filed_def add_value_def gomap_simps dom_update)
qed

lemma add_value_correct:
  assumes "index_inv idx" "prepared idx key field"
  shows "index_inv (add_value key field val idx)" "prepared (add_value key field val idx) key field"
proof -
  have "sets_ok (add_value key field val idx)"
    using assms(1) by (auto simp: index_inv_def sets_ok_def data_at_add [OF assms(2)] split: option.splits)
  then show "index_inv (add_value key field val idx)"
    using assms(1) by (auto simp: index_inv_def indexed_add [OF assms(2)] filed_add [OF assms(2)]) (auto simp: add_value_def)
  show "prepared (add_value key field val idx) key field"
    using assms(2) by (auto simp: prepared_def add_value_def gomap_simps)
qed

lemma add_values_correct:
  "index_inv idx \<Longrightarrow> prepared idx key field \<Longrightarrow>
   index_inv (fold (add_value key field) vals idx) \<and>
   (\<forall>g f v k. indexed (fold (add_value key field) vals idx) g f v k \<longleftrightarrow>
      indexed idx g f v k \<or> g = key_gvk key \<and> f = field \<and> v \<in> set vals \<and> k = key)"
  by (induction vals arbitrary: idx) (auto simp: add_value_correct indexed_add)

text \<open>Making the inner maps files nothing.\<close>

definition prepare :: "object_key \<Rightarrow> string \<Rightarrow> 'o indexer \<Rightarrow> 'o indexer" where
  "prepare key field idx = idx\<lparr>
     idx_data := go_mod (key_gvk key) (go_ensure field []) (go_ensure (key_gvk key) [] (idx_data idx)),
     idx_reverse := go_mod key (go_ensure field []) (go_ensure key [] (idx_reverse idx))\<rparr>"

lemma data_at_prepare: "data_at (prepare key field idx) g f v = data_at idx g f v"
  by (auto simp: data_at_def prepare_def gomap_simps bind_eq_None_conv split: Option.bind_split)

lemma filed_prepare: "filed (prepare key field idx) k f v \<longleftrightarrow> filed idx k f v"
  by (cases "go_get (idx_reverse idx) key") (auto simp: filed_def prepare_def gomap_simps split: if_splits)

lemma prepare_correct:
  "index_inv idx \<Longrightarrow> index_inv (prepare key field idx)" "prepared (prepare key field idx) key field"
  "indexed (prepare key field idx) = indexed idx"
  by (simp_all add: index_inv_def sets_ok_def data_at_prepare filed_prepare indexed_def fun_eq_iff)
     (auto simp: prepare_def prepared_def gomap_simps)

lemma add_field_eq:
  "add_field key obj (field, fn) idx =
     (if fn obj = [] then idx else fold (add_value key field) (fn obj) (prepare key field idx))"
  by (simp add: add_field_def prepare_def Let_def)

lemma add_fields_correct:
  "index_inv idx \<Longrightarrow>
   index_inv (fold (add_field key obj) fs idx) \<and>
   (\<forall>g f v k. indexed (fold (add_field key obj) fs idx) g f v k \<longleftrightarrow>
      indexed idx g f v k \<or> g = key_gvk key \<and> k = key \<and> (\<exists>fn. (f, fn) \<in> set fs \<and> v \<in> set (fn obj)))"
proof (induction fs arbitrary: idx)
  case (Cons e fs)
  obtain field fn where e: "e = (field, fn)" by (cases e)
  have "index_inv (add_field key obj e idx) \<and>
    (\<forall>g f v k. indexed (add_field key obj e idx) g f v k \<longleftrightarrow>
      indexed idx g f v k \<or> g = key_gvk key \<and> f = field \<and> v \<in> set (fn obj) \<and> k = key)"
    using Cons.prems add_values_correct [OF prepare_correct(1) [OF Cons.prems] prepare_correct(2), of key field "fn obj"]
    by (auto simp: e add_field_eq prepare_correct(3))
  with Cons.IH [of "add_field key obj e idx"] show ?case
    by (auto simp: e)
qed simp

definition yields :: "'o indexer \<Rightarrow> gvk \<Rightarrow> string \<Rightarrow> 'o \<Rightarrow> string \<Rightarrow> bool" where
  "yields idx g f obj v \<longleftrightarrow> (\<exists>fs fn. go_get (idx_funcs idx) g = Some fs \<and> go_get fs f = Some fn \<and> v \<in> set (fn obj))"

lemma UpdateIndex_correct:
  assumes "index_inv idx"
  shows "index_inv (UpdateIndex key obj idx)"
    "indexed (UpdateIndex key obj idx) g f v k \<longleftrightarrow>
       (if k = key then g = key_gvk key \<and> yields idx g f obj v else indexed idx g f v k)"
proof -
  note R = remove_entries_correct [OF assms, of key]
  have "index_inv (UpdateIndex key obj idx) \<and> (\<forall>g f v k. indexed (UpdateIndex key obj idx) g f v k \<longleftrightarrow>
       (if k = key then g = key_gvk key \<and> yields idx g f obj v else indexed idx g f v k))"
  proof (cases "go_get (idx_funcs idx) (key_gvk key)")
    case None
    with R(1) show ?thesis by (simp add: UpdateIndex_def R(2,3) yields_def)
  next
    case (Some fs)
    then have mem: "go_get fs f = Some fn \<longleftrightarrow> (f, fn) \<in> set fs" for f fn
      using assms by (intro map_of_eq_Some_iff) (auto simp: index_inv_def)
    from Some have "UpdateIndex key obj idx = fold (add_field key obj) fs (remove_entries key idx)"
      by (simp add: UpdateIndex_def R(3))
    with Some add_fields_correct [OF R(1), of key obj fs] show ?thesis
      by (auto simp: R(2) mem yields_def)
  qed
  then show "index_inv (UpdateIndex key obj idx)"
    "indexed (UpdateIndex key obj idx) g f v k \<longleftrightarrow>
       (if k = key then g = key_gvk key \<and> yields idx g f obj v else indexed idx g f v k)" by blast+
qed

lemma add_field_funcs: "idx_funcs (fold (add_field key obj) fs idx) = idx_funcs idx"
proof -
  have "idx_funcs (fold (add_value key field) vals idx) = idx_funcs idx" for field vals and idx :: "'a indexer"
    by (induction vals arbitrary: idx) (auto simp: add_value_def)
  then show ?thesis
    by (induction fs arbitrary: idx) (auto simp: add_field_eq prepare_def)
qed

lemma UpdateIndex_funcs: "idx_funcs (UpdateIndex key obj idx) = idx_funcs idx"
  by (simp add: UpdateIndex_def add_field_funcs remove_entries_def split: option.split)

lemma RemoveIndex_correct:
  assumes "index_inv idx"
  shows "index_inv (RemoveIndex key idx)" "indexed (RemoveIndex key idx) g f v k \<longleftrightarrow> k \<noteq> key \<and> indexed idx g f v k"
    "idx_funcs (RemoveIndex key idx) = idx_funcs idx"
  using remove_entries_correct [OF assms] by (simp_all add: RemoveIndex_def)

lemma AddIndex_correct:
  assumes "index_inv idx"
  shows "index_inv (snd (AddIndex g f fn idx))" "indexed (snd (AddIndex g f fn idx)) = indexed idx"
    "fst (AddIndex g f fn idx) =
       (if \<exists>fs. go_get (idx_funcs idx) g = Some fs \<and> go_get fs f \<noteq> None then Some (IndexExists g f) else None)"
  using assms by (auto simp: AddIndex_def index_inv_def sets_ok_def indexed_def data_at_def filed_def Let_def gomap_simps
      fun_eq_iff split: if_splits option.splits)

section \<open>A run of updates and removals\<close>

datatype 'o index_op = IndexUpdate object_key 'o | IndexRemove object_key

fun index_step :: "'o index_op \<Rightarrow> 'o indexer \<Rightarrow> 'o indexer" where
  "index_step (IndexUpdate key obj) idx = UpdateIndex key obj idx"
| "index_step (IndexRemove key) idx = RemoveIndex key idx"

fun index_spec :: "'o index_op \<Rightarrow> (object_key \<Rightarrow> 'o option) \<Rightarrow> (object_key \<Rightarrow> 'o option)" where
  "index_spec (IndexUpdate key obj) m = m(key \<mapsto> obj)"
| "index_spec (IndexRemove key) m = m(key := None)"

definition reflects :: "'o indexer \<Rightarrow> (object_key \<Rightarrow> 'o option) \<Rightarrow> bool" where
  "reflects idx m \<longleftrightarrow> (\<forall>g f v k. indexed idx g f v k \<longleftrightarrow>
     (\<exists>obj. m k = Some obj \<and> key_gvk k = g \<and> yields idx g f obj v))"

lemma index_step_correct:
  assumes "index_inv idx" "reflects idx m"
  shows "index_inv (index_step p idx)" "reflects (index_step p idx) (index_spec p m)"
    "idx_funcs (index_step p idx) = idx_funcs idx"
proof -
  show "index_inv (index_step p idx)"
    by (cases p) (simp_all add: UpdateIndex_correct(1) RemoveIndex_correct(1) assms(1))
  show funcs: "idx_funcs (index_step p idx) = idx_funcs idx"
    by (cases p) (simp_all add: UpdateIndex_funcs RemoveIndex_correct(3) assms(1))
  have "yields (index_step p idx) = yields idx" by (simp add: yields_def fun_eq_iff funcs)
  then show "reflects (index_step p idx) (index_spec p m)"
  proof (cases p)
    case (IndexUpdate key obj)
    with \<open>yields _ = _\<close> assms(2) UpdateIndex_correct(2) [OF assms(1), of key obj] show ?thesis
      unfolding reflects_def by (simp add: eq_commute)
  next
    case (IndexRemove key)
    with \<open>yields _ = _\<close> assms(2) RemoveIndex_correct(2) [OF assms(1), of key] show ?thesis
      unfolding reflects_def by simp
  qed
qed

lemma index_run_correct:
  "index_inv idx \<Longrightarrow> reflects idx m \<Longrightarrow>
   index_inv (fold index_step ps idx) \<and> reflects (fold index_step ps idx) (fold index_spec ps m) \<and>
   idx_funcs (fold index_step ps idx) = idx_funcs idx"
proof (induction ps arbitrary: idx m)
  case (Cons p ps)
  from Cons.IH [OF index_step_correct(1,2) [OF Cons.prems, of p]] index_step_correct(3) [OF Cons.prems, of p]
  show ?case by simp
qed simp

end
