(* ===== verification/Codec.thy ===== *)
theory Codec
  imports Keys Go_Values
begin

text \<open>
  \<open>codec/codec.go\<close> and \<open>internal/key.go\<close>. A \<open>client.Object\<close> is an \<open>Unstructured\<close> or a typed struct
  (\<open>'t\<close>); the type assertion of the code is the match on the constructor. What the scheme, the converter and the
  accessors of the Kubernetes API machinery compute is a parameter, a field of \<open>api_machinery\<close>. Deep copies are
  identities on values.
\<close>

datatype 't client_object = Unstr gobj | Typed 't

type_synonym go_error = string

text \<open>The API machinery, as far as the repository calls it.\<close>

record 't api_machinery =
  am_ObjectKinds :: "'t client_object \<Rightarrow> gvk list \<times> go_error option"
  am_TypeMeta :: "'t client_object \<Rightarrow> gvk"
  am_GetNamespace :: "'t client_object \<Rightarrow> string"
  am_GetName :: "'t client_object \<Rightarrow> string"
  am_ToMap :: "'t \<Rightarrow> go_error + gobj"
  am_FromMap :: "gobj \<Rightarrow> 't \<Rightarrow> go_error + 't"
  am_SetGVK :: "gvk \<Rightarrow> gobj \<Rightarrow> gobj"

datatype codec_error =
    ToUnstructuredFailed go_error
  | FromUnstructuredFailed go_error
  | SchemeFailed go_error
  | NoGVKFound

section \<open>Codec\<close>

definition GVKForObject :: "'t api_machinery \<Rightarrow> 't client_object \<Rightarrow> codec_error + gvk" where
  "GVKForObject am obj =
     (let (gvks, err) = am_ObjectKinds am obj
      in case (if err = None then find (\<lambda>g. gvk_kind g \<noteq> '''') gvks else None) of
           Some g \<Rightarrow> Inr g
         | None \<Rightarrow>
             (let g = am_TypeMeta am obj
              in if gvk_kind g \<noteq> '''' then Inr g
                 else case err of Some e \<Rightarrow> Inl (SchemeFailed e) | None \<Rightarrow> Inl NoGVKFound))"

definition SetGVK :: "'t api_machinery \<Rightarrow> gobj \<Rightarrow> gvk \<Rightarrow> gobj" where
  "SetGVK am u g = am_SetGVK am g u"

definition ToUnstructured :: "'t api_machinery \<Rightarrow> 't client_object \<Rightarrow> codec_error + gobj" where
  "ToUnstructured am obj =
     (case obj of
        Unstr u \<Rightarrow> Inr u
      | Typed t \<Rightarrow>
          (case am_ToMap am t of
             Inl e \<Rightarrow> Inl (ToUnstructuredFailed e)
           | Inr m \<Rightarrow> (case GVKForObject am obj of Inr g \<Rightarrow> Inr (SetGVK am m g) | Inl _ \<Rightarrow> Inr m)))"

definition FromUnstructured :: "'t api_machinery \<Rightarrow> gobj \<Rightarrow> 't client_object \<Rightarrow> codec_error + 't client_object" where
  "FromUnstructured am u into =
     (case into of
        Unstr _ \<Rightarrow> Inr (Unstr u)
      | Typed t \<Rightarrow> (case am_FromMap am u t of Inl e \<Rightarrow> Inl (FromUnstructuredFailed e) | Inr t' \<Rightarrow> Inr (Typed t')))"

section \<open>Keys of objects\<close>

definition ObjectKeyFromObject :: "'t api_machinery \<Rightarrow> 't client_object \<Rightarrow> string \<times> string" where
  "ObjectKeyFromObject am obj = (am_GetNamespace am obj, am_GetName am obj)"

definition empty_gvk :: gvk where
  "empty_gvk = \<lparr>gvk_group = '''', gvk_version = '''', gvk_kind = ''''\<rparr>"

text \<open>The Go function returns a GVK and an error; both are returned here, since the last branch may return neither.\<close>

definition GVKFromObject :: "'t api_machinery \<Rightarrow> 't client_object \<Rightarrow> gvk \<times> go_error option" where
  "GVKFromObject am obj =
     (let (gvks, err) = am_ObjectKinds am obj
      in if err = None \<and> 0 < length gvks then (hd gvks, None)
         else
           let g = am_TypeMeta am obj
           in if gvk_kind g \<noteq> '''' then (g, None) else (empty_gvk, err))"

text \<open>The key the store files an object under.\<close>

definition store_key :: "'t api_machinery \<Rightarrow> gvk \<Rightarrow> 't client_object \<Rightarrow> object_key" where
  "store_key am g obj = \<lparr>key_gvk = g, key_namespace = am_GetNamespace am obj, key_name = am_GetName am obj\<rparr>"

section \<open>Lemmas\<close>

lemma to_unstructured_unstr [simp]: "ToUnstructured am (Unstr u) = Inr u"
  by (simp add: ToUnstructured_def)

lemma from_unstructured_unstr [simp]: "FromUnstructured am u (Unstr v) = Inr (Unstr u)"
  by (simp add: FromUnstructured_def)

lemma GVKForObject_kind: "GVKForObject am obj = Inr g \<Longrightarrow> gvk_kind g \<noteq> ''''"
  by (auto simp: GVKForObject_def Let_def find_Some_iff split: prod.splits option.splits if_splits)

text \<open>A converter that reads back what it writes makes the codec read back what it writes.\<close>

lemma codec_roundtrip:
  assumes conv: "\<And>t u g. am_ToMap am t = Inr u \<Longrightarrow> am_FromMap am (am_SetGVK am g u) into = Inr t"
    and plain: "\<And>t u. am_ToMap am t = Inr u \<Longrightarrow> am_FromMap am u into = Inr t"
    and to: "ToUnstructured am (Typed t) = Inr u"
  shows "FromUnstructured am u (Typed into) = Inr (Typed t)"
  using to conv plain
  by (auto simp: ToUnstructured_def FromUnstructured_def SetGVK_def split: sum.splits)

text \<open>The two ways to find a GVK agree when the scheme lists a kind first.\<close>

lemma GVK_agree:
  assumes "am_ObjectKinds am obj = (g # gvks, None)" "gvk_kind g \<noteq> ''''"
  shows "GVKForObject am obj = Inr g \<and> GVKFromObject am obj = (g, None)"
  using assms by (simp add: GVKForObject_def GVKFromObject_def)

lemma GVKFromObject_missing:
  assumes "am_ObjectKinds am obj = ([], None)" "gvk_kind (am_TypeMeta am obj) = ''''"
  shows "GVKForObject am obj = Inl NoGVKFound \<and> GVKFromObject am obj = (empty_gvk, None)"
  using assms by (simp add: GVKForObject_def GVKFromObject_def)

end
