(* ===== verification/Informer.thy ===== *)
theory Informer
  imports Dedup_GC Indexer Codec
begin

text \<open>
  \<open>cache/informer.go\<close>: one informer per GVK lists the objects, then watches, and feeds the store and the
  indexer. \<open>handleEvent\<close> and \<open>list\<close> are functions; \<open>Run\<close> is a state machine (\<open>run_step\<close>) whose labels are
  what the outside does next: replies of the API server, events, timers, the end of the context. Each step of it is the code
  between two points where the goroutine may block. The store and the indexer are the shared state \<open>cached\<close>; an operation
  on the store may fail to return (\<open>None\<close>), and on well-formed state it never does.
\<close>

section \<open>Shared state\<close>

record 't cached =
  cd_store :: dedup_store
  cd_index :: "'t client_object indexer"

definition cached_upsert :: "object_key \<Rightarrow> gobj \<Rightarrow> 't cached \<Rightarrow> 't cached option" where
  "cached_upsert key u d =
     (case Upsert key u (cd_store d) of
        None \<Rightarrow> None
      | Some s \<Rightarrow> Some (d\<lparr>cd_store := s, cd_index := UpdateIndex key (Unstr u) (cd_index d)\<rparr>))"

definition cached_delete :: "object_key \<Rightarrow> 't cached \<Rightarrow> 't cached option" where
  "cached_delete key d =
     (case Delete key (cd_store d) of
        None \<Rightarrow> None
      | Some s \<Rightarrow> Some (d\<lparr>cd_store := s, cd_index := RemoveIndex key (cd_index d)\<rparr>))"

section \<open>The informer\<close>

record informer =
  inf_gvk :: gvk
  inf_gvr :: gvr
  inf_namespace :: string
  inf_handlers :: "nat list"
  inf_hasSynced :: bool

definition NewGVKInformer :: "gvk \<Rightarrow> gvr \<Rightarrow> string \<Rightarrow> informer" where
  "NewGVKInformer g r ns = \<lparr>inf_gvk = g, inf_gvr = r, inf_namespace = ns, inf_handlers = [], inf_hasSynced = False\<rparr>"

definition AddEventHandler :: "nat \<Rightarrow> informer \<Rightarrow> informer" where
  "AddEventHandler h nf = nf\<lparr>inf_handlers := inf_handlers nf @ [h]\<rparr>"

definition HasSynced :: "informer \<Rightarrow> bool" where
  [simp]: "HasSynced = inf_hasSynced"

datatype informer_error =
    ListFailed go_error
  | WatchFailed go_error
  | ErrorEventReceived
  | UnexpectedObject
  | ChannelClosed

text \<open>Calls of the registered handlers, in order; a handler is named by a number.\<close>

datatype handler_call = OnAdd nat gobj | OnUpdate nat gobj gobj | OnDelete nat gobj

datatype event_type = Added | Modified | Deleted | Bookmark | ErrorEvent | OtherEvent

text \<open>\<open>ev_object\<close> is \<open>None\<close> when the object of the event is not an \<open>Unstructured\<close>.\<close>

record watch_event =
  ev_type :: event_type
  ev_object :: "gobj option"

definition inf_key :: "'t api_machinery \<Rightarrow> informer \<Rightarrow> gobj \<Rightarrow> object_key" where
  "inf_key am nf u = store_key am (inf_gvk nf) (Unstr u)"

definition handleEvent ::
    "'t api_machinery \<Rightarrow> informer \<Rightarrow> watch_event \<Rightarrow> 't cached \<Rightarrow> (informer_error option \<times> 't cached \<times> handler_call list) option" where
  "handleEvent am nf event d =
     (case ev_type event of
        Bookmark \<Rightarrow> Some (None, d, [])
      | ErrorEvent \<Rightarrow> Some (Some ErrorEventReceived, d, [])
      | OtherEvent \<Rightarrow> Some (None, d, [])
      | Deleted \<Rightarrow>
          (case ev_object event of
             None \<Rightarrow> Some (Some UnexpectedObject, d, [])
           | Some u \<Rightarrow> do {
               d' \<leftarrow> cached_delete (inf_key am nf u) d;
               Some (None, d', map (\<lambda>h. OnDelete h u) (inf_handlers nf))
             })
      | _ \<Rightarrow>
          (case ev_object event of
             None \<Rightarrow> Some (Some UnexpectedObject, d, [])
           | Some u \<Rightarrow> do {
               let key = inf_key am nf u;
               old \<leftarrow> (if ev_type event = Modified then Get key (cd_store d) else Some None);
               d' \<leftarrow> cached_upsert key u d;
               Some (None, d', map (\<lambda>h. if ev_type event = Added then OnAdd h u
                                       else (case old of Some x \<Rightarrow> OnUpdate h x u | None \<Rightarrow> OnAdd h u))
                                 (inf_handlers nf))
             }))"

text \<open>
  \<open>list\<close> sends one request and stores the items of the reply. The reply is given: an error, or the items and the
  resource version. On an error the resource version is the empty string.
\<close>

definition list_request :: "informer \<Rightarrow> gvr \<times> string option" where
  "list_request nf = (inf_gvr nf, if inf_namespace nf \<noteq> '''' then Some (inf_namespace nf) else None)"

definition informer_list ::
    "'t api_machinery \<Rightarrow> informer \<Rightarrow> go_error + (gobj list \<times> string) \<Rightarrow> 't cached \<Rightarrow> (string \<times> informer_error option \<times> 't cached) option" where
  "informer_list am nf reply d =
     (case reply of
        Inl e \<Rightarrow> Some ('''', Some (ListFailed e), d)
      | Inr (items, rv) \<Rightarrow> do {
          d' \<leftarrow> foldM (\<lambda>item. cached_upsert (inf_key am nf item) item) items d;
          Some (rv, None, d')
        })"

text \<open>\<open>watchLoop\<close> opens a watch with this request.\<close>

definition watch_request :: "informer \<Rightarrow> string \<Rightarrow> gvr \<times> string option \<times> string" where
  "watch_request nf rv = (inf_gvr nf, if inf_namespace nf \<noteq> '''' then Some (inf_namespace nf) else None, rv)"

section \<open>\<open>Run\<close>\<close>

text \<open>Durations are in nanoseconds.\<close>

definition second :: int where
  "second = 1000000000"

definition maxBackoff :: int where
  "maxBackoff = 30 * second"

definition next_backoff :: "int \<Rightarrow> int" where
  "next_backoff b = (if b * 2 > maxBackoff then maxBackoff else b * 2)"

datatype run_result = InitialListFailed informer_error | CtxErr

text \<open>Where the goroutine is: the strings are resource versions.\<close>

datatype run_phase =
    InitialList
  | LoopTop string
  | WatchCall string
  | WatchSelect
  | AfterWatch informer_error
  | BackoffWait
  | Relist
  | RelistWait
  | Finished run_result

record 't run_state =
  rs_informer :: informer
  rs_cached :: "'t cached"
  rs_phase :: run_phase
  rs_backoff :: int
  rs_calls :: "handler_call list"

datatype run_label =
    ListReply "go_error + (gobj list \<times> string)"
  | CtxAlive
  | CtxDone
  | WatchReply "go_error option"
  | WatchEvent watch_event
  | WatchClosed
  | Timer

definition run_init :: "informer \<Rightarrow> 't cached \<Rightarrow> 't run_state" where
  "run_init nf d = \<lparr>rs_informer = nf, rs_cached = d, rs_phase = InitialList, rs_backoff = second, rs_calls = []\<rparr>"

inductive run_step :: "'t api_machinery \<Rightarrow> 't run_state \<Rightarrow> run_label \<Rightarrow> 't run_state \<Rightarrow> bool" for am where
  initial_list_error:
    "rs_phase s = InitialList \<Longrightarrow> informer_list am (rs_informer s) reply (rs_cached s) = Some (rv, Some e, d) \<Longrightarrow>
     run_step am s (ListReply reply) (s\<lparr>rs_cached := d, rs_phase := Finished (InitialListFailed e)\<rparr>)"
| initial_list_ok:
    "rs_phase s = InitialList \<Longrightarrow> informer_list am (rs_informer s) reply (rs_cached s) = Some (rv, None, d) \<Longrightarrow>
     run_step am s (ListReply reply)
       (s\<lparr>rs_informer := (rs_informer s)\<lparr>inf_hasSynced := True\<rparr>, rs_cached := d, rs_phase := LoopTop rv, rs_backoff := second\<rparr>)"
| loop_done: "rs_phase s = LoopTop rv \<Longrightarrow> run_step am s CtxDone (s\<lparr>rs_phase := Finished CtxErr\<rparr>)"
| loop_alive: "rs_phase s = LoopTop rv \<Longrightarrow> run_step am s CtxAlive (s\<lparr>rs_phase := WatchCall rv\<rparr>)"
| watch_error: "rs_phase s = WatchCall rv \<Longrightarrow> run_step am s (WatchReply (Some e)) (s\<lparr>rs_phase := AfterWatch (WatchFailed e)\<rparr>)"
| watch_ok: "rs_phase s = WatchCall rv \<Longrightarrow> run_step am s (WatchReply None) (s\<lparr>rs_phase := WatchSelect\<rparr>)"
| select_done: "rs_phase s = WatchSelect \<Longrightarrow> run_step am s CtxDone (s\<lparr>rs_phase := Finished CtxErr\<rparr>)"
| select_closed: "rs_phase s = WatchSelect \<Longrightarrow> run_step am s WatchClosed (s\<lparr>rs_phase := AfterWatch ChannelClosed\<rparr>)"
| select_event:
    "rs_phase s = WatchSelect \<Longrightarrow> handleEvent am (rs_informer s) ev (rs_cached s) = Some (err, d, calls) \<Longrightarrow>
     run_step am s (WatchEvent ev)
       (s\<lparr>rs_cached := d, rs_calls := rs_calls s @ calls,
          rs_phase := (case err of None \<Rightarrow> WatchSelect | Some e \<Rightarrow> AfterWatch e)\<rparr>)"
| after_done: "rs_phase s = AfterWatch e \<Longrightarrow> run_step am s CtxDone (s\<lparr>rs_phase := Finished CtxErr\<rparr>)"
| after_alive: "rs_phase s = AfterWatch e \<Longrightarrow> run_step am s CtxAlive (s\<lparr>rs_phase := BackoffWait\<rparr>)"
| backoff_done: "rs_phase s = BackoffWait \<Longrightarrow> run_step am s CtxDone (s\<lparr>rs_phase := Finished CtxErr\<rparr>)"
| backoff_timer:
    "rs_phase s = BackoffWait \<Longrightarrow> run_step am s Timer (s\<lparr>rs_backoff := next_backoff (rs_backoff s), rs_phase := Relist\<rparr>)"
| relist_error:
    "rs_phase s = Relist \<Longrightarrow> informer_list am (rs_informer s) reply (rs_cached s) = Some (rv, Some e, d) \<Longrightarrow>
     run_step am s (ListReply reply) (s\<lparr>rs_cached := d, rs_phase := RelistWait\<rparr>)"
| relist_ok:
    "rs_phase s = Relist \<Longrightarrow> informer_list am (rs_informer s) reply (rs_cached s) = Some (rv, None, d) \<Longrightarrow>
     run_step am s (ListReply reply) (s\<lparr>rs_cached := d, rs_backoff := second, rs_phase := LoopTop rv\<rparr>)"
| relist_done: "rs_phase s = RelistWait \<Longrightarrow> run_step am s CtxDone (s\<lparr>rs_phase := Finished CtxErr\<rparr>)"
| relist_timer:
    "rs_phase s = RelistWait \<Longrightarrow>
     run_step am s Timer (s\<lparr>rs_backoff := next_backoff (rs_backoff s), rs_phase := LoopTop ''''\<rparr>)"

inductive run_trace :: "'t api_machinery \<Rightarrow> 't run_state \<Rightarrow> run_label list \<Rightarrow> 't run_state \<Rightarrow> bool" for am where
  trace_nil: "run_trace am s [] s"
| trace_snoc: "run_trace am s ls t \<Longrightarrow> run_step am t l u \<Longrightarrow> run_trace am s (ls @ [l]) u"

inductive_cases run_stepE: "run_step am s l t"

section \<open>The mirror\<close>

text \<open>
  \<open>holds d ms mi\<close>: the store holds the objects of the map \<open>ms\<close> and the indexer those of \<open>mi\<close>, and nothing else. An informer
  writes to both, so it keeps them equal (\<open>mirrors\<close>); a client writes to the store only.
\<close>

definition holds :: "'t cached \<Rightarrow> (object_key \<Rightarrow> gobj option) \<Rightarrow> (object_key \<Rightarrow> gobj option) \<Rightarrow> bool" where
  "holds d ms mi \<longleftrightarrow> store_inv (cd_store d) \<and> index_inv (cd_index d) \<and>
     (\<forall>key. store_view (cd_store d) key = map_option (\<lambda>u. sem (GMap u)) (ms key)) \<and>
     reflects (cd_index d) (\<lambda>key. map_option Unstr (mi key))"

abbreviation mirrors :: "'t cached \<Rightarrow> (object_key \<Rightarrow> gobj option) \<Rightarrow> bool" where
  "mirrors d m \<equiv> holds d m m"

definition empty_cached :: "'t cached" where
  "empty_cached = \<lparr>cd_store = NewDedupStore, cd_index = NewIndexer\<rparr>"

lemma mirrors_empty: "mirrors empty_cached (\<lambda>_. None)"
  by (simp add: holds_def empty_cached_def store_inv_new index_inv_new store_view_new reflects_def)
     (simp add: indexed_def data_at_def NewIndexer_def)

lemma holds_upsert:
  assumes "holds d ms mi" "tree_ok (GMap u)"
  shows "returns (cached_upsert key u d) (\<lambda>d'. holds d' (ms(key \<mapsto> u)) (mi(key \<mapsto> u)))"
proof -
  from assms(1) have s: "store_inv (cd_store d)" and i: "index_inv (cd_index d)"
    and r: "reflects (cd_index d) (\<lambda>key. map_option Unstr (mi key))" by (simp_all add: holds_def)
  from ds.ups_law [OF s assms(2)] obtain t where t: "Upsert key u (cd_store d) = Some t" "store_inv t"
    "store_view t = (store_view (cd_store d))(key \<mapsto> sem (GMap u))" by (auto simp: returns_iff)
  have "(\<lambda>key. map_option Unstr (mi key))(key \<mapsto> Unstr u) = (\<lambda>k. map_option Unstr ((mi(key \<mapsto> u)) k))" by auto
  from index_step_correct(2) [OF i r, of "IndexUpdate key (Unstr u)", unfolded index_step.simps index_spec.simps this]
    index_step_correct(1) [OF i r, of "IndexUpdate key (Unstr u)"] t assms(1) show ?thesis
    by (auto simp: cached_upsert_def holds_def)
qed

lemma holds_delete:
  assumes "holds d ms mi"
  shows "returns (cached_delete key d) (\<lambda>d'. holds d' (ms(key := None)) (mi(key := None)))"
proof -
  from assms have s: "store_inv (cd_store d)" and i: "index_inv (cd_index d)"
    and r: "reflects (cd_index d) (\<lambda>key. map_option Unstr (mi key))" by (simp_all add: holds_def)
  from ds.del_law [OF s] obtain t where t: "Delete key (cd_store d) = Some t" "store_inv t"
    "store_view t = (store_view (cd_store d))(key := None)" by (auto simp: returns_iff)
  have "(\<lambda>key. map_option Unstr (mi key))(key := None) = (\<lambda>k. map_option Unstr ((mi(key := None)) k))" by auto
  from index_step_correct(2) [OF i r, of "IndexRemove key", unfolded index_step.simps index_spec.simps this]
    index_step_correct(1) [OF i r, of "IndexRemove key"] t assms show ?thesis
    by (auto simp: cached_delete_def holds_def)
qed

lemma holds_get:
  assumes "holds d ms mi"
  shows "returns (Get key (cd_store d)) (\<lambda>r. map_option (\<lambda>x. sem (GMap x)) r = map_option (\<lambda>x. sem (GMap x)) (ms key))"
  using ds.get_law [of "cd_store d" key] assms by (simp add: holds_def)

text \<open>What an event and a reply to a list say about the objects.\<close>

definition event_ok :: "watch_event \<Rightarrow> bool" where
  "event_ok ev \<longleftrightarrow> (\<forall>u. ev_object ev = Some u \<longrightarrow> tree_ok (GMap u))"

definition event_update :: "'t api_machinery \<Rightarrow> informer \<Rightarrow> watch_event \<Rightarrow> (object_key \<Rightarrow> gobj option) \<Rightarrow> (object_key \<Rightarrow> gobj option)" where
  "event_update am nf ev m =
     (case ev_object ev of
        None \<Rightarrow> m
      | Some u \<Rightarrow>
          (if ev_type ev \<in> {Added, Modified} then m(inf_key am nf u \<mapsto> u)
           else if ev_type ev = Deleted then m(inf_key am nf u := None)
           else m))"

definition event_error :: "watch_event \<Rightarrow> informer_error option" where
  "event_error ev =
     (if ev_type ev = ErrorEvent then Some ErrorEventReceived
      else if ev_type ev \<in> {Added, Modified, Deleted} \<and> ev_object ev = None then Some UnexpectedObject
      else None)"

definition items_update :: "'t api_machinery \<Rightarrow> informer \<Rightarrow> gobj list \<Rightarrow> (object_key \<Rightarrow> gobj option) \<Rightarrow> (object_key \<Rightarrow> gobj option)" where
  "items_update am nf items m = fold (\<lambda>u m. m(inf_key am nf u \<mapsto> u)) items m"

text \<open>
  The handlers are called once each, in order: \<open>OnDelete\<close> for a deletion, \<open>OnUpdate\<close> with the stored object for a
  modification of an object that was there, \<open>OnAdd\<close> otherwise.
\<close>

definition calls_ok :: "informer \<Rightarrow> watch_event \<Rightarrow> gobj option \<Rightarrow> handler_call list \<Rightarrow> bool" where
  "calls_ok nf ev stored calls \<longleftrightarrow>
     (case ev_object ev of
        None \<Rightarrow> calls = []
      | Some u \<Rightarrow>
          (if ev_type ev = Deleted then calls = map (\<lambda>h. OnDelete h u) (inf_handlers nf)
           else if ev_type ev = Added \<or> ev_type ev = Modified \<and> stored = None then calls = map (\<lambda>h. OnAdd h u) (inf_handlers nf)
           else if ev_type ev = Modified then
             (\<exists>old. sem (GMap old) = sem (GMap (the stored)) \<and> calls = map (\<lambda>h. OnUpdate h old u) (inf_handlers nf))
           else calls = []))"

lemma handleEvent_correct:
  assumes "holds d ms mi" "event_ok ev"
  shows "returns (handleEvent am nf ev d) (\<lambda>(err, d', calls). holds d' (event_update am nf ev ms) (event_update am nf ev mi) \<and> err = event_error ev \<and>
    (\<forall>u. ev_object ev = Some u \<longrightarrow> calls_ok nf ev (ms (inf_key am nf u)) calls))"
proof (cases "ev_object ev")
  case None
  with assms(1) show ?thesis
    by (cases "ev_type ev") (auto simp: handleEvent_def event_update_def event_error_def)
next
  case (Some u)
  let ?key = "inf_key am nf u"
  from assms(2) Some have ok: "tree_ok (GMap u)" by (simp add: event_ok_def)
  from holds_upsert [OF assms(1) ok, of ?key] obtain d1 where d1: "cached_upsert ?key u d = Some d1" "holds d1 (ms(?key \<mapsto> u)) (mi(?key \<mapsto> u))"
    by (rule returnsE)
  from holds_delete [OF assms(1), of ?key] obtain d2 where d2: "cached_delete ?key d = Some d2" "holds d2 (ms(?key := None)) (mi(?key := None))"
    by (rule returnsE)
  from holds_get [OF assms(1), of ?key] obtain r where r: "Get ?key (cd_store d) = Some r"
    "map_option (\<lambda>x. sem (GMap x)) r = map_option (\<lambda>x. sem (GMap x)) (ms ?key)" by (rule returnsE)
  show ?thesis
  proof (cases "ev_type ev")
    case Modified
    with Some d1 r show ?thesis
      by (cases r; cases "ms ?key") (auto simp: handleEvent_def event_update_def event_error_def calls_ok_def simp del: sem.simps)
  qed (use Some d1 d2 assms(1) in \<open>auto simp: handleEvent_def event_update_def event_error_def calls_ok_def\<close>)
qed

lemma informer_list_correct:
  assumes "holds d ms mi" "\<forall>u\<in>set items. tree_ok (GMap u)"
  shows "returns (informer_list am nf (Inr (items, rv)) d)
    (\<lambda>(rv', err, d'). rv' = rv \<and> err = None \<and> holds d' (items_update am nf items ms) (items_update am nf items mi))"
proof -
  have "returns (foldM (\<lambda>item. cached_upsert (inf_key am nf item) item) items d) (\<lambda>d'. holds d' (items_update am nf items ms) (items_update am nf items mi))"
  proof (rule foldM_returns [where P = "\<lambda>pre d'. holds d' (items_update am nf pre ms) (items_update am nf pre mi)"])
    fix pre u rest t
    assume "items = pre @ u # rest" "holds t (items_update am nf pre ms) (items_update am nf pre mi)"
    with holds_upsert [of t _ _ u "inf_key am nf u"] assms(2)
    show "returns (cached_upsert (inf_key am nf u) u t) (\<lambda>d'. holds d' (items_update am nf (pre @ [u]) ms) (items_update am nf (pre @ [u]) mi))"
      by (simp add: items_update_def del: tree_ok.simps)
  qed (use assms(1) in \<open>simp add: items_update_def\<close>)
  then show ?thesis by (auto simp: informer_list_def returns_iff)
qed

end
