(* ===== verification/Informer_Run.thy ===== *)
theory Informer_Run
  imports Informer
begin

text \<open>
  What \<open>Run\<close> does over a whole trace: the store and the indexer mirror the replies and events received, the backoff
  stays within its bounds, the watch starts from the resource version of the last list, and no step of the informer is stuck.
\<close>

section \<open>The mirror along a trace\<close>

fun label_ok :: "run_label \<Rightarrow> bool" where
  "label_ok (ListReply (Inr (items, rv))) = (\<forall>u\<in>set items. tree_ok (GMap u))"
| "label_ok (WatchEvent ev) = event_ok ev"
| "label_ok _ = True"

fun label_update :: "'t api_machinery \<Rightarrow> informer \<Rightarrow> run_label \<Rightarrow> (object_key \<Rightarrow> gobj option) \<Rightarrow> (object_key \<Rightarrow> gobj option)" where
  "label_update am nf (ListReply (Inr (items, rv))) m = items_update am nf items m"
| "label_update am nf (WatchEvent ev) m = event_update am nf ev m"
| "label_update am nf _ m = m"

definition same_source :: "informer \<Rightarrow> informer \<Rightarrow> bool" where
  "same_source nf nf' \<longleftrightarrow> inf_gvk nf = inf_gvk nf' \<and> inf_gvr nf = inf_gvr nf' \<and> inf_namespace nf = inf_namespace nf' \<and>
     inf_handlers nf = inf_handlers nf'"

lemma run_step_source: "run_step am s l t \<Longrightarrow> same_source (rs_informer s) (rs_informer t)"
  by (induction rule: run_step.induct) (auto simp: same_source_def)

lemma same_source_update:
  assumes "same_source nf nf'"
  shows "label_update am nf = label_update am nf'"
proof (rule ext, rule ext)
  fix l and m :: "object_key \<Rightarrow> gobj option"
  have "inf_key am nf = inf_key am nf'"
    using assms by (simp add: same_source_def inf_key_def fun_eq_iff)
  then show "label_update am nf l m = label_update am nf' l m"
    by (cases "(am, nf, l, m)" rule: label_update.cases) (simp_all add: items_update_def event_update_def split: option.split)
qed

lemma informer_list_returns:
  assumes "holds d ms mi" "label_ok (ListReply reply)"
  shows "returns (informer_list am nf reply d) (\<lambda>(rv, err, d').
    holds d' (label_update am nf (ListReply reply) ms) (label_update am nf (ListReply reply) mi) \<and>
    (case reply of Inl e \<Rightarrow> rv = '''' \<and> err = Some (ListFailed e) \<and> d' = d | Inr (items, rv') \<Rightarrow> rv = rv' \<and> err = None))"
proof (cases reply)
  case (Inl e)
  with assms show ?thesis by (simp add: informer_list_def)
next
  case (Inr x)
  obtain items rv where x: "x = (items, rv)" by (cases x)
  from informer_list_correct [OF assms(1), of items am nf rv] assms(2) Inr x show ?thesis
    by (auto elim!: returns_mono)
qed

lemma informer_list_holds:
  assumes "informer_list am nf reply d = Some (rv, err, d')" "holds d ms mi" "label_ok (ListReply reply)"
  shows "holds d' (label_update am nf (ListReply reply) ms) (label_update am nf (ListReply reply) mi)"
  using informer_list_returns [OF assms(2,3), of am nf] assms(1) by simp

text \<open>What the result of \<open>list\<close> says of the reply.\<close>

lemma informer_list_ok: "informer_list am nf reply d = Some (rv, None, d') \<Longrightarrow> \<exists>items. reply = Inr (items, rv)"
  by (auto simp: informer_list_def split: sum.splits prod.splits bind_splits)

lemma informer_list_failed: "informer_list am nf reply d = Some (rv, Some e, d') \<Longrightarrow> rv = '''' \<and> d' = d \<and> (\<exists>x. reply = Inl x)"
  by (auto simp: informer_list_def split: sum.splits prod.splits bind_splits)

lemma run_step_holds:
  assumes "run_step am s l t" "holds (rs_cached s) ms mi" "label_ok l"
  shows "holds (rs_cached t) (label_update am (rs_informer s) l ms) (label_update am (rs_informer s) l mi)"
  using assms
proof (cases rule: run_step.cases)
  case (select_event ev err d calls)
  with handleEvent_correct [OF assms(2), of ev am "rs_informer s"] assms(3) show ?thesis by simp
next
  case (initial_list_error reply rv e d)
  with informer_list_holds [OF initial_list_error(4) assms(2)] assms(3) show ?thesis by simp
next
  case (initial_list_ok reply rv d)
  with informer_list_holds [OF initial_list_ok(4) assms(2)] assms(3) show ?thesis by simp
next
  case (relist_error reply rv e d)
  with informer_list_holds [OF relist_error(4) assms(2)] assms(3) show ?thesis by simp
next
  case (relist_ok reply rv d)
  with informer_list_holds [OF relist_ok(4) assms(2)] assms(3) show ?thesis by simp
qed (use assms(2) in simp_all)

lemma run_trace_source: "run_trace am s ls t \<Longrightarrow> same_source (rs_informer s) (rs_informer t)"
  by (induction rule: run_trace.induct) (auto simp: same_source_def dest!: run_step_source)

lemma run_trace_mirrors:
  assumes "run_trace am s ls t" "mirrors (rs_cached s) m" "\<forall>l\<in>set ls. label_ok l"
  shows "mirrors (rs_cached t) (fold (label_update am (rs_informer s)) ls m) \<and> same_source (rs_informer s) (rs_informer t)"
  using assms
proof (induction rule: run_trace.induct)
  case (trace_nil s)
  then show ?case by (simp add: same_source_def)
next
  case (trace_snoc s ls t l u)
  then have "mirrors (rs_cached t) (fold (label_update am (rs_informer s)) ls m)" and same: "same_source (rs_informer s) (rs_informer t)"
    by auto
  from run_step_holds [OF trace_snoc.hyps(2) this(1)] trace_snoc.prems run_step_source [OF trace_snoc.hyps(2)] same
  show ?case by (auto simp: same_source_update [OF same]) (auto simp: same_source_def)
qed

section \<open>No step is stuck\<close>

fun offers :: "run_phase \<Rightarrow> run_label \<Rightarrow> bool" where
  "offers InitialList (ListReply _) = True"
| "offers (LoopTop _) CtxAlive = True"
| "offers (LoopTop _) CtxDone = True"
| "offers (WatchCall _) (WatchReply _) = True"
| "offers WatchSelect CtxDone = True"
| "offers WatchSelect WatchClosed = True"
| "offers WatchSelect (WatchEvent _) = True"
| "offers (AfterWatch _) CtxAlive = True"
| "offers (AfterWatch _) CtxDone = True"
| "offers BackoffWait CtxDone = True"
| "offers BackoffWait Timer = True"
| "offers Relist (ListReply _) = True"
| "offers RelistWait CtxDone = True"
| "offers RelistWait Timer = True"
| "offers _ _ = False"

lemma run_step_offers: "run_step am s l t \<Longrightarrow> offers (rs_phase s) l"
  by (induction rule: run_step.induct) auto

lemma offers_none: "(\<forall>l. \<not> offers p l) \<longleftrightarrow> (\<exists>r. p = Finished r)"
proof (cases p)
  case InitialList
  then show ?thesis using offers.simps(1) by blast
next
  case (WatchCall rv)
  then show ?thesis using offers.simps(4) by blast
next
  case Relist
  then show ?thesis using offers.simps(12) by blast
next
  case (Finished r)
  then show ?thesis by auto
qed (metis offers.simps run_phase.distinct)+

lemma list_step:
  assumes "holds (rs_cached s) ms mi" "label_ok (ListReply reply)" "rs_phase s \<in> {InitialList, Relist}"
  shows "\<exists>t. run_step am s (ListReply reply) t"
proof -
  from informer_list_returns [OF assms(1,2), of am "rs_informer s"]
  obtain rv err d where "informer_list am (rs_informer s) reply (rs_cached s) = Some (rv, err, d)"
    by (auto simp: returns_iff)
  with assms(3) show ?thesis
    by (cases err) (auto intro: initial_list_error initial_list_ok relist_error relist_ok)
qed

lemma event_step:
  assumes "holds (rs_cached s) ms mi" "event_ok ev" "rs_phase s = WatchSelect"
  shows "\<exists>t. run_step am s (WatchEvent ev) t"
proof -
  from handleEvent_correct [OF assms(1,2), of am "rs_informer s"]
  obtain err d calls where "handleEvent am (rs_informer s) ev (rs_cached s) = Some (err, d, calls)"
    by (auto simp: returns_iff)
  with assms(3) show ?thesis by (blast intro: select_event)
qed

lemma run_step_enabled:
  assumes "holds (rs_cached s) ms mi" "label_ok l" "offers (rs_phase s) l"
  shows "\<exists>t. run_step am s l t"
proof (cases "(rs_phase s, l)" rule: offers.cases)
  case 1
  with list_step [OF assms(1)] assms(2) show ?thesis by auto
next
  case 12
  with list_step [OF assms(1)] assms(2) show ?thesis by auto
next
  case 7
  with event_step [OF assms(1)] assms(2) show ?thesis by auto
next
  case (4 rv r)
  then show ?thesis by (cases r) (auto intro: watch_error watch_ok)
qed (use assms(3) in \<open>auto intro: run_step.intros\<close>)

section \<open>Backoff, synchronisation and resource versions\<close>

definition run_inv :: "'t run_state \<Rightarrow> bool" where
  "run_inv s \<longleftrightarrow> second \<le> rs_backoff s \<and> rs_backoff s \<le> maxBackoff \<and>
     (inf_hasSynced (rs_informer s) \<longleftrightarrow> rs_phase s \<noteq> InitialList \<and> (\<forall>e. rs_phase s \<noteq> Finished (InitialListFailed e)))"

lemma next_backoff_bounds: "second \<le> b \<Longrightarrow> b \<le> maxBackoff \<Longrightarrow> second \<le> next_backoff b \<and> next_backoff b \<le> maxBackoff"
  by (auto simp: next_backoff_def maxBackoff_def second_def)

lemma next_backoff_doubles: "next_backoff b = min (2 * b) maxBackoff"
  by (auto simp: next_backoff_def)

lemma run_inv_init: "\<not> inf_hasSynced nf \<Longrightarrow> run_inv (run_init nf d)"
  by (simp add: run_inv_def run_init_def maxBackoff_def second_def)

lemma run_inv_step: "run_step am s l t \<Longrightarrow> run_inv s \<Longrightarrow> run_inv t"
  by (induction rule: run_step.induct)
     (auto simp: run_inv_def next_backoff_bounds maxBackoff_def second_def next_backoff_def split: option.splits)

lemma run_inv_trace: "run_trace am s ls t \<Longrightarrow> run_inv s \<Longrightarrow> run_inv t"
  by (induction rule: run_trace.induct) (auto intro: run_inv_step)

text \<open>The resource version of the last list, the empty string if it failed.\<close>

fun label_rv :: "run_label \<Rightarrow> string \<Rightarrow> string" where
  "label_rv (ListReply (Inr (items, rv))) _ = rv"
| "label_rv (ListReply (Inl e)) _ = ''''"
| "label_rv _ rv = rv"

definition last_rv :: "run_label list \<Rightarrow> string" where
  "last_rv ls = fold label_rv ls ''''"

definition rv_inv :: "run_label list \<Rightarrow> 't run_state \<Rightarrow> bool" where
  "rv_inv ls s \<longleftrightarrow> (\<forall>rv. rs_phase s = LoopTop rv \<or> rs_phase s = WatchCall rv \<longrightarrow> rv = last_rv ls) \<and>
     (rs_phase s = RelistWait \<longrightarrow> last_rv ls = '''')"

lemma rv_inv_step:
  assumes "run_step am s l t" "rv_inv ls s"
  shows "rv_inv (ls @ [l]) t"
  using assms
  by (induction rule: run_step.induct)
     (auto simp: rv_inv_def last_rv_def dest!: informer_list_ok informer_list_failed split: option.splits)

lemma rv_inv_trace: "run_trace am s ls t \<Longrightarrow> rs_phase s = InitialList \<Longrightarrow> rv_inv ls t"
proof (induction rule: run_trace.induct)
  case (trace_nil s)
  then show ?case by (simp add: rv_inv_def)
qed (blast intro: rv_inv_step)

text \<open>How many lists have failed since the last one that succeeded.\<close>

fun label_failed :: "run_label \<Rightarrow> nat \<Rightarrow> nat" where
  "label_failed (ListReply (Inr x)) _ = 0"
| "label_failed (ListReply (Inl e)) n = Suc n"
| "label_failed _ n = n"

definition failed_lists :: "run_label list \<Rightarrow> nat" where
  "failed_lists ls = fold label_failed ls 0"

text \<open>
  The backoff in closed form: after \<open>n\<close> doublings it is \<open>2 ^ n\<close> seconds, or 30 when that is more. A failed relist costs two doublings,
  the one before it and the one after the second wait; a successful one sets the backoff to one second.
\<close>

definition waits :: "nat \<Rightarrow> int" where
  "waits n = min (2 ^ n * second) maxBackoff"

lemma waits_0: "waits 0 = second"
  by (simp add: waits_def second_def maxBackoff_def)

lemma waits_Suc: "next_backoff (waits n) = waits (Suc n)"
  by (simp add: waits_def next_backoff_doubles min_def maxBackoff_def second_def)

lemma waits_even: "waits (2 * n) = min (4 ^ n * second) maxBackoff"
  by (simp add: waits_def power_mult)

lemma waits_odd: "0 < n \<Longrightarrow> waits (2 * n - 1) = min (2 * 4 ^ (n - 1) * second) maxBackoff"
  by (cases n) (simp_all add: waits_def power_mult)

definition backoff_inv :: "run_label list \<Rightarrow> 't run_state \<Rightarrow> bool" where
  "backoff_inv ls s \<longleftrightarrow>
     (case rs_phase s of
        InitialList \<Rightarrow> failed_lists ls = 0
      | Relist \<Rightarrow> rs_backoff s = waits (2 * failed_lists ls + 1)
      | RelistWait \<Rightarrow> 0 < failed_lists ls \<and> rs_backoff s = waits (2 * failed_lists ls - 1)
      | Finished r \<Rightarrow> True
      | _ \<Rightarrow> rs_backoff s = waits (2 * failed_lists ls))"

lemma failed_lists_snoc: "failed_lists (ls @ [l]) = label_failed l (failed_lists ls)"
  by (simp add: failed_lists_def)

lemma backoff_inv_step:
  assumes "run_step am s l t" "backoff_inv ls s"
  shows "backoff_inv (ls @ [l]) t"
  using assms
proof (induction rule: run_step.induct)
  case (relist_timer s)
  then show ?case
    by (cases "failed_lists ls") (auto simp: backoff_inv_def failed_lists_snoc waits_Suc)
qed (auto simp: backoff_inv_def failed_lists_snoc waits_0 waits_Suc dest!: informer_list_ok informer_list_failed split: option.splits)

lemma backoff_inv_trace: "run_trace am s ls t \<Longrightarrow> rs_phase s = InitialList \<Longrightarrow> backoff_inv ls t"
proof (induction rule: run_trace.induct)
  case (trace_nil s)
  then show ?case by (simp add: backoff_inv_def failed_lists_def)
qed (blast intro: backoff_inv_step)

section \<open>What a list stores\<close>

text \<open>The last item with a key wins.\<close>

definition listed :: "'t api_machinery \<Rightarrow> informer \<Rightarrow> gobj list \<Rightarrow> object_key \<Rightarrow> gobj option" where
  "listed am nf items key = find (\<lambda>u. inf_key am nf u = key) (rev items)"

lemma items_update_listed: "items_update am nf items m key = (case listed am nf items key of None \<Rightarrow> m key | Some u \<Rightarrow> Some u)"
  by (induction items rule: rev_induct) (auto simp: items_update_def listed_def)

end
