(* ===== verification/Cache_Interface.thy ===== *)
theory Cache_Interface
  imports Prelude
begin

text \<open>
  The contract of a key/value cache, as the object caches of \<open>cache/cache.go\<close> and \<open>client.go\<close> use one: a hit is the
  value last put under the key and not deleted since; a cache may forget entries at any put. \<open>backed\<close> is the
  coherence a caller can rely on: nothing in the cache contradicts the source it was filled from.
\<close>

datatype ('k, 'v) kv_op = KGet 'k | KPut 'k 'v | KDelete 'k

fun kv_step ::
    "('k \<Rightarrow> 'c \<Rightarrow> 'v option \<times> 'c) \<Rightarrow> ('k \<Rightarrow> 'v \<Rightarrow> 'c \<Rightarrow> 'c) \<Rightarrow> ('k \<Rightarrow> 'c \<Rightarrow> 'c) \<Rightarrow> ('k, 'v) kv_op \<Rightarrow> 'c \<Rightarrow> 'c" where
  "kv_step get put del (KGet k) c = snd (get k c)"
| "kv_step get put del (KPut k v) c = put k v c"
| "kv_step get put del (KDelete k) c = del k c"

definition kv_run ::
    "('k \<Rightarrow> 'c \<Rightarrow> 'v option \<times> 'c) \<Rightarrow> ('k \<Rightarrow> 'v \<Rightarrow> 'c \<Rightarrow> 'c) \<Rightarrow> ('k \<Rightarrow> 'c \<Rightarrow> 'c) \<Rightarrow> ('k, 'v) kv_op list \<Rightarrow> 'c \<Rightarrow> 'c" where
  "kv_run get put del = fold (kv_step get put del)"

fun kv_spec :: "('k, 'v) kv_op \<Rightarrow> ('k \<Rightarrow> 'v option) \<Rightarrow> ('k \<Rightarrow> 'v option)" where
  "kv_spec (KGet k) m = m"
| "kv_spec (KPut k v) m = m(k \<mapsto> v)"
| "kv_spec (KDelete k) m = m(k := None)"

locale kv_cache =
  fixes get :: "'k \<Rightarrow> 'c \<Rightarrow> 'v option \<times> 'c"
    and put :: "'k \<Rightarrow> 'v \<Rightarrow> 'c \<Rightarrow> 'c"
    and del :: "'k \<Rightarrow> 'c \<Rightarrow> 'c"
    and inv :: "'c \<Rightarrow> bool"
    and view :: "'c \<Rightarrow> 'k \<Rightarrow> 'v option"
  assumes get_law: "inv c \<Longrightarrow> fst (get k c) = view c k \<and> inv (snd (get k c)) \<and> view (snd (get k c)) = view c"
    and put_law: "inv c \<Longrightarrow> inv (put k v c) \<and> view (put k v c) k = Some v \<and> view (put k v c) \<subseteq>\<^sub>m (view c)(k \<mapsto> v)"
    and del_law: "inv c \<Longrightarrow> inv (del k c) \<and> view (del k c) = (view c)(k := None)"
begin

definition backed :: "'c \<Rightarrow> ('k \<Rightarrow> 'v option) \<Rightarrow> bool" where
  "backed c source \<longleftrightarrow> inv c \<and> view c \<subseteq>\<^sub>m source"

lemma backed_hit: "backed c source \<Longrightarrow> fst (get k c) = Some v \<Longrightarrow> source k = Some v"
  using get_law [of c k] by (force simp: backed_def map_le_def)

lemma backed_get: "backed c source \<Longrightarrow> backed (snd (get k c)) source"
  using get_law [of c k] by (simp add: backed_def)

lemma map_le_updates: "m \<subseteq>\<^sub>m n \<Longrightarrow> m(k \<mapsto> v) \<subseteq>\<^sub>m n(k \<mapsto> v)" "m \<subseteq>\<^sub>m n \<Longrightarrow> m(k := None) \<subseteq>\<^sub>m n(k := x)"
  by (auto simp: map_le_def)

lemma backed_put: "backed c source \<Longrightarrow> backed (put k v c) (source(k \<mapsto> v))"
  using put_law [of c k v] map_le_updates(1) [of "view c" source k v] by (auto simp: backed_def intro: map_le_trans)

text \<open>Filling the cache from the source keeps it coherent, and so does changing the source and deleting the key.\<close>

lemma backed_fill: "backed c source \<Longrightarrow> source k = Some v \<Longrightarrow> backed (put k v c) source"
  using backed_put [of c source k v] by (simp add: fun_upd_idem)

lemma backed_invalidate: "backed c source \<Longrightarrow> backed (del k c) (source(k := x))"
  using del_law [of c k] map_le_updates(2) [of "view c" source k x] by (simp add: backed_def)

lemma backed_step: "backed c m \<Longrightarrow> backed (kv_step get put del p c) (kv_spec p m)"
  using backed_get backed_put backed_invalidate by (cases p) auto

lemma backed_run: "backed c m \<Longrightarrow> backed (kv_run get put del ps c) (fold kv_spec ps m)"
proof (induction ps arbitrary: c m)
  case (Cons p ps)
  from Cons.IH [OF backed_step [OF Cons.prems]] show ?case by (simp add: kv_run_def)
qed (simp add: kv_run_def)

lemma hit_after_run:
  assumes "inv c" "view c = (\<lambda>_. None)" "fst (get k (kv_run get put del ps c)) = Some v"
  shows "fold kv_spec ps (\<lambda>_. None) k = Some v"
  using backed_run [of c "\<lambda>_. None" ps] backed_hit assms by (simp add: backed_def)

end

end
