(* ===== verification/LRU_Cache.thy ===== *)
theory LRU_Cache
  imports Cache_Interface "HOL-Library.Multiset"
begin

text \<open>
  \<open>cache/lru.go\<close>: the fixed-capacity LRU cache. The map \<open>items\<close> and the list \<open>order\<close> share the
  \<open>lruEntry\<close> structs through pointers, and an entry points back to its list element, so entries live in an explicit
  store of addresses here. \<open>container/list\<close> comes first, as far as the cache uses it: its elements are handles into
  the list, and \<open>MoveToFront\<close> and \<open>Remove\<close> do nothing on a handle that is not in the list. The refinement says
  that the pointers implement a plain list of key/value pairs, the most recently used first.
\<close>

section \<open>\<open>container/list\<close>\<close>

record 'a go_list =
  gl_elems :: "(nat \<times> 'a) list"
  gl_next :: nat

definition list_New :: "'a go_list" where
  "list_New = \<lparr>gl_elems = [], gl_next = 0\<rparr>"

definition list_PushFront :: "'a \<Rightarrow> 'a go_list \<Rightarrow> nat \<times> 'a go_list" where
  "list_PushFront v l = (gl_next l, l\<lparr>gl_elems := (gl_next l, v) # gl_elems l, gl_next := gl_next l + 1\<rparr>)"

definition list_Remove :: "nat \<Rightarrow> 'a go_list \<Rightarrow> 'a go_list" where
  "list_Remove e l = l\<lparr>gl_elems := filter (\<lambda>x. fst x \<noteq> e) (gl_elems l)\<rparr>"

definition list_MoveToFront :: "nat \<Rightarrow> 'a go_list \<Rightarrow> 'a go_list" where
  "list_MoveToFront e l =
     l\<lparr>gl_elems := filter (\<lambda>x. fst x = e) (gl_elems l) @ filter (\<lambda>x. fst x \<noteq> e) (gl_elems l)\<rparr>"

definition list_Back :: "'a go_list \<Rightarrow> (nat \<times> 'a) option" where
  "list_Back l = (if gl_elems l = [] then None else Some (last (gl_elems l)))"

section \<open>The cache\<close>

record 'v lru_entry =
  le_key :: string
  le_val :: 'v
  le_elem :: nat

record 'v lru_cache =
  lru_capacity :: int
  lru_items :: "(string, nat) gomap"
  lru_order :: "nat go_list"
  lru_heap :: "nat \<Rightarrow> 'v lru_entry option"
  lru_next :: nat

definition newLRUCache :: "int \<Rightarrow> 'v lru_cache" where
  "newLRUCache capacity =
     \<lparr>lru_capacity = (if capacity \<le> 0 then 1 else capacity), lru_items = [], lru_order = list_New,
      lru_heap = (\<lambda>_. None), lru_next = 0\<rparr>"

definition lru_get :: "string \<Rightarrow> 'v lru_cache \<Rightarrow> 'v option \<times> 'v lru_cache" where
  "lru_get key c =
     (case Option.bind (go_get (lru_items c) key) (lru_heap c) of
        None \<Rightarrow> (None, c)
      | Some entry \<Rightarrow> (Some (le_val entry), c\<lparr>lru_order := list_MoveToFront (le_elem entry) (lru_order c)\<rparr>))"

definition lru_evict :: "'v lru_cache \<Rightarrow> 'v lru_cache" where
  "lru_evict c =
     (if lru_capacity c \<le> int (length (lru_items c)) then
        (case list_Back (lru_order c) of
           None \<Rightarrow> c
         | Some (back, a) \<Rightarrow>
             (case lru_heap c a of
                None \<Rightarrow> c
              | Some evicted \<Rightarrow>
                  c\<lparr>lru_order := list_Remove back (lru_order c), lru_items := go_del (le_key evicted) (lru_items c)\<rparr>))
      else c)"

definition lru_put :: "string \<Rightarrow> 'v \<Rightarrow> 'v lru_cache \<Rightarrow> 'v lru_cache" where
  "lru_put key val c =
     (case go_get (lru_items c) key of
        Some a \<Rightarrow>
          (case lru_heap c a of
             None \<Rightarrow> c
           | Some entry \<Rightarrow>
               c\<lparr>lru_heap := (lru_heap c)(a \<mapsto> entry\<lparr>le_val := val\<rparr>),
                 lru_order := list_MoveToFront (le_elem entry) (lru_order c)\<rparr>)
      | None \<Rightarrow>
          (let c1 = lru_evict c;
               a = lru_next c1;
               (elem, order) = list_PushFront a (lru_order c1)
           in c1\<lparr>lru_next := a + 1,
                 lru_heap := (lru_heap c1)(a \<mapsto> \<lparr>le_key = key, le_val = val, le_elem = elem\<rparr>),
                 lru_order := order,
                 lru_items := go_put key a (lru_items c1)\<rparr>))"

definition lru_delete :: "string \<Rightarrow> 'v lru_cache \<Rightarrow> 'v lru_cache" where
  "lru_delete key c =
     (case Option.bind (go_get (lru_items c) key) (lru_heap c) of
        None \<Rightarrow> c
      | Some entry \<Rightarrow>
          c\<lparr>lru_order := list_Remove (le_elem entry) (lru_order c), lru_items := go_del key (lru_items c)\<rparr>)"

definition lru_len :: "'v lru_cache \<Rightarrow> nat" where
  "lru_len c = length (lru_items c)"

section \<open>Abstract cache: a list in order of use\<close>

definition spec_get :: "string \<Rightarrow> (string \<times> 'v) list \<Rightarrow> 'v option \<times> (string \<times> 'v) list" where
  "spec_get k xs = (case map_of xs k of None \<Rightarrow> (None, xs) | Some v \<Rightarrow> (Some v, (k, v) # AList.delete k xs))"

definition spec_put :: "nat \<Rightarrow> string \<Rightarrow> 'v \<Rightarrow> (string \<times> 'v) list \<Rightarrow> (string \<times> 'v) list" where
  "spec_put cap k v xs =
     (if k \<in> set (map fst xs) then (k, v) # AList.delete k xs
      else (k, v) # (if cap \<le> length xs then butlast xs else xs))"

section \<open>Invariant and abstraction\<close>

text \<open>
  Read along \<open>order\<close>, the element handles, the addresses and the keys are each without repetition, every address
  holds the entry of its element, and \<open>items\<close> has exactly these entries.
\<close>

definition entry_at :: "'v lru_cache \<Rightarrow> nat \<Rightarrow> 'v lru_entry" where
  "entry_at c a = the (lru_heap c a)"

definition lru_keys :: "'v lru_cache \<Rightarrow> string list" where
  "lru_keys c = map (\<lambda>(e, a). le_key (entry_at c a)) (gl_elems (lru_order c))"

definition lru_abs :: "'v lru_cache \<Rightarrow> (string \<times> 'v) list" where
  "lru_abs c = map (\<lambda>(e, a). (le_key (entry_at c a), le_val (entry_at c a))) (gl_elems (lru_order c))"

definition lru_inv :: "'v lru_cache \<Rightarrow> bool" where
  "lru_inv c \<longleftrightarrow>
     0 < lru_capacity c \<and> int (length (gl_elems (lru_order c))) \<le> lru_capacity c \<and>
     distinct (map fst (gl_elems (lru_order c))) \<and> distinct (map snd (gl_elems (lru_order c))) \<and> distinct (lru_keys c) \<and>
     (\<forall>(e, a)\<in>set (gl_elems (lru_order c)). e < gl_next (lru_order c) \<and> a < lru_next c \<and>
        lru_heap c a \<noteq> None \<and> le_elem (entry_at c a) = e) \<and>
     distinct (go_keys (lru_items c)) \<and>
     set (lru_items c) = (\<lambda>(e, a). (le_key (entry_at c a), a)) ` set (gl_elems (lru_order c))"

lemma lru_invD:
  assumes "lru_inv c"
  shows "0 < lru_capacity c" "int (length (gl_elems (lru_order c))) \<le> lru_capacity c"
    "distinct (map fst (gl_elems (lru_order c)))" "distinct (map snd (gl_elems (lru_order c)))" "distinct (lru_keys c)"
    "(e, a) \<in> set (gl_elems (lru_order c)) \<Longrightarrow> e < gl_next (lru_order c)"
    "(e, a) \<in> set (gl_elems (lru_order c)) \<Longrightarrow> a < lru_next c"
    "(e, a) \<in> set (gl_elems (lru_order c)) \<Longrightarrow> lru_heap c a = Some (entry_at c a)"
    "(e, a) \<in> set (gl_elems (lru_order c)) \<Longrightarrow> le_elem (entry_at c a) = e"
    "distinct (go_keys (lru_items c))"
    "set (lru_items c) = (\<lambda>(e, a). (le_key (entry_at c a), a)) ` set (gl_elems (lru_order c))"
  using assms by (auto simp: lru_inv_def entry_at_def)

lemma lru_inv_new: "lru_inv (newLRUCache cap)"
  by (simp add: lru_inv_def newLRUCache_def list_New_def lru_keys_def)

lemma lru_keys_abs: "lru_keys c = map fst (lru_abs c)"
  by (auto simp: lru_keys_def lru_abs_def)

lemma distinct_abs: "lru_inv c \<Longrightarrow> distinct (map fst (lru_abs c))"
  using lru_invD(5) by (simp add: lru_keys_abs)

lemma lru_get_key:
  assumes "lru_inv c"
  shows "go_get (lru_items c) k = Some a \<longleftrightarrow> (\<exists>e. (e, a) \<in> set (gl_elems (lru_order c)) \<and> le_key (entry_at c a) = k)"
  using lru_invD(11) [OF assms] by (auto simp flip: go_in_set_iff [OF lru_invD(10) [OF assms]])

lemma lru_hit:
  assumes "lru_inv c" "go_get (lru_items c) k = Some a"
  shows "(le_elem (entry_at c a), a) \<in> set (gl_elems (lru_order c))" "lru_heap c a = Some (entry_at c a)"
    "le_key (entry_at c a) = k"
  using assms lru_invD(8,9) [OF assms(1)] by (auto simp: lru_get_key)

lemma lru_miss:
  assumes "lru_inv c"
  shows "go_get (lru_items c) k = None \<longleftrightarrow> k \<notin> set (lru_keys c)"
  using lru_get_key [OF assms, of k] by (force simp: lru_keys_def not_Some_eq [symmetric])

lemma lru_len_abs:
  assumes "lru_inv c"
  shows "lru_len c = length (lru_abs c)"
proof -
  have "lru_len c = card (set (lru_items c))"
    using lru_invD(10) [OF assms] by (simp add: lru_len_def distinct_card distinct_map)
  also have "\<dots> = card (set (gl_elems (lru_order c)))"
    unfolding lru_invD(11) [OF assms]
    using lru_invD(4) [OF assms] by (intro card_image) (force simp: distinct_map inj_on_def)
  also have "\<dots> = length (lru_abs c)"
    using lru_invD(3) [OF assms] by (simp add: lru_abs_def distinct_card distinct_map)
  finally show ?thesis .
qed

section \<open>Changes of the list\<close>

lemma filter_other: "inj_on f (set xs) \<Longrightarrow> x \<in> set xs \<Longrightarrow> filter (\<lambda>y. f y \<noteq> f x) xs = filter (\<lambda>y. y \<noteq> x) xs"
  by (auto intro!: filter_cong dest: inj_onD)

lemma filter_only:
  assumes "distinct (map f xs)" "x \<in> set xs"
  shows "filter (\<lambda>y. f y = f x) xs = [x]"
  using assms by (induction xs) (auto simp: filter_empty_conv image_iff)

text \<open>The list with the element of a hit taken out: by its handle or by its key, it is the same.\<close>

lemma without_filter:
  assumes "lru_inv c" "go_get (lru_items c) k = Some a"
  shows "filter (\<lambda>x. fst x \<noteq> le_elem (entry_at c a)) (gl_elems (lru_order c)) =
    filter (\<lambda>x. le_key (entry_at c (snd x)) \<noteq> k) (gl_elems (lru_order c))"
proof -
  note D = lru_invD [OF assms(1)] and h = lru_hit [OF assms]
  let ?os = "gl_elems (lru_order c)" and ?key = "\<lambda>x. le_key (entry_at c (snd x))"
  have inj: "inj_on fst (set ?os)" "inj_on ?key (set ?os)"
    using D(3,5) by (simp_all add: lru_keys_def distinct_map split_def)
  show ?thesis
    using filter_other [OF inj(1) h(1)] filter_other [OF inj(2) h(1)] h(3) by simp
qed

lemma abs_without:
  assumes "lru_inv c" "go_get (lru_items c) k = Some a"
  shows "map (\<lambda>(e, a). (le_key (entry_at c a), le_val (entry_at c a)))
      (filter (\<lambda>x. fst x \<noteq> le_elem (entry_at c a)) (gl_elems (lru_order c))) = AList.delete k (lru_abs c)"
  unfolding without_filter [OF assms]
  by (auto simp: lru_abs_def AList.delete_eq filter_map comp_def split_def intro!: arg_cong2 [where f = map] filter_cong)

lemma abs_hit:
  assumes "lru_inv c" "go_get (lru_items c) k = Some a"
  shows "map_of (lru_abs c) k = Some (le_val (entry_at c a))"
proof (rule map_of_is_SomeI [OF distinct_abs [OF assms(1)]])
  show "(k, le_val (entry_at c a)) \<in> set (lru_abs c)"
    using lru_hit [OF assms] by (force simp: lru_abs_def)
qed

lemma moved_elems:
  assumes "lru_inv c" "go_get (lru_items c) k = Some a"
  shows "gl_elems (list_MoveToFront (le_elem (entry_at c a)) (lru_order c)) =
    (le_elem (entry_at c a), a) # filter (\<lambda>x. fst x \<noteq> le_elem (entry_at c a)) (gl_elems (lru_order c))"
  using filter_only [OF lru_invD(3) [OF assms(1)] lru_hit(1) [OF assms]] by (simp add: list_MoveToFront_def)

text \<open>Reordering the list, and changing values, keeps the invariant.\<close>

lemma lru_inv_reorder:
  assumes "lru_inv c" "mset (gl_elems order) = mset (gl_elems (lru_order c))" "gl_next order = gl_next (lru_order c)"
    and "\<And>b. lru_heap c b \<noteq> None \<Longrightarrow> \<exists>v. heap b = Some ((entry_at c b)\<lparr>le_val := v\<rparr>)"
  shows "lru_inv (c\<lparr>lru_heap := heap, lru_order := order\<rparr>)"
proof -
  let ?d = "c\<lparr>lru_heap := heap, lru_order := order\<rparr>" and ?os = "gl_elems (lru_order c)"
  note D = lru_invD [OF assms(1)]
  have S: "set (gl_elems order) = set ?os" using mset_eq_setD [OF assms(2)] .
  have E: "heap b \<noteq> None" "le_key (entry_at ?d b) = le_key (entry_at c b)" "le_elem (entry_at ?d b) = le_elem (entry_at c b)"
    if "(e, b) \<in> set ?os" for e b
  proof -
    from assms(4) [of b] D(8) [OF that] obtain v where "heap b = Some ((entry_at c b)\<lparr>le_val := v\<rparr>)" by auto
    then show "heap b \<noteq> None" "le_key (entry_at ?d b) = le_key (entry_at c b)" "le_elem (entry_at ?d b) = le_elem (entry_at c b)"
      by (simp_all add: entry_at_def [of ?d])
  qed
  have K: "map (\<lambda>x. le_key (entry_at ?d (snd x))) ?os = map (\<lambda>x. le_key (entry_at c (snd x))) ?os"
    using E(2) by auto
  have perm: "distinct (map f (gl_elems order)) \<longleftrightarrow> distinct (map f ?os)" for f :: "nat \<times> nat \<Rightarrow> 'b"
    by (intro mset_eq_imp_distinct_iff) (simp add: assms(2))
  have "distinct (lru_keys ?d)"
    using D(5) perm [of "\<lambda>x. le_key (entry_at ?d (snd x))"] K by (simp add: lru_keys_def split_def)
  moreover have "length (gl_elems order) = length ?os" by (rule mset_eq_length [OF assms(2)])
  moreover have "(\<lambda>(e, b). (le_key (entry_at ?d b), b)) ` set ?os = (\<lambda>(e, b). (le_key (entry_at c b), b)) ` set ?os"
    using E(2) by (intro image_cong) auto
  ultimately show ?thesis
    using D(1-4,6,7,9,10) E(1,3) unfolding lru_inv_def by (auto simp: perm S assms(3) D(11))
qed

lemma moved_mset:
  "lru_inv c \<Longrightarrow> go_get (lru_items c) k = Some a \<Longrightarrow>
   mset (gl_elems (list_MoveToFront (le_elem (entry_at c a)) (lru_order c))) = mset (gl_elems (lru_order c))"
  using multiset_partition [of "mset (gl_elems (lru_order c))" "\<lambda>x. fst x = le_elem (entry_at c a)"]
  by (simp add: list_MoveToFront_def)

section \<open>Refinement\<close>

lemma entry_at_order [simp]: "entry_at (c\<lparr>lru_order := order\<rparr>) a = entry_at c a"
  by (simp add: entry_at_def)

lemma lru_entry_same: "\<exists>v. entry = entry\<lparr>le_val := v\<rparr>"
  by (intro exI [of _ "le_val entry"]) simp

lemma lru_get_correct:
  assumes "lru_inv c"
  shows "lru_inv (snd (lru_get k c))" "fst (lru_get k c) = fst (spec_get k (lru_abs c))"
    "lru_abs (snd (lru_get k c)) = snd (spec_get k (lru_abs c))"
proof -
  have "lru_inv (snd (lru_get k c)) \<and> fst (lru_get k c) = fst (spec_get k (lru_abs c)) \<and>
    lru_abs (snd (lru_get k c)) = snd (spec_get k (lru_abs c))"
  proof (cases "go_get (lru_items c) k")
    case None
    then have "map_of (lru_abs c) k = None"
      using lru_miss [OF assms, of k] by (simp add: lru_keys_abs map_of_eq_None_iff)
    with None assms show ?thesis by (simp add: lru_get_def spec_get_def)
  next
    case (Some a)
    note h = lru_hit [OF assms Some]
    let ?order = "list_MoveToFront (le_elem (entry_at c a)) (lru_order c)"
    have get: "lru_get k c = (Some (le_val (entry_at c a)), c\<lparr>lru_order := ?order\<rparr>)"
      using Some h(2) by (simp add: lru_get_def)
    have "lru_inv (c\<lparr>lru_heap := lru_heap c, lru_order := ?order\<rparr>)"
      by (rule lru_inv_reorder [OF assms moved_mset [OF assms Some]]) (auto simp: list_MoveToFront_def entry_at_def lru_entry_same)
    moreover have "lru_abs (c\<lparr>lru_order := ?order\<rparr>) = (k, le_val (entry_at c a)) # AList.delete k (lru_abs c)"
      using abs_without [OF assms Some] h(3) by (simp add: lru_abs_def moved_elems [OF assms Some])
    ultimately show ?thesis
      using abs_hit [OF assms Some] by (simp add: get spec_get_def)
  qed
  then show "lru_inv (snd (lru_get k c))" "fst (lru_get k c) = fst (spec_get k (lru_abs c))"
    "lru_abs (snd (lru_get k c)) = snd (spec_get k (lru_abs c))" by simp_all
qed

lemma filter_image: "{y \<in> f ` S. P y} = f ` {x \<in> S. P (f x)}"
  by auto

text \<open>Taking an entry out, of the list and of the map.\<close>

lemma lru_remove:
  assumes "lru_inv c" "go_get (lru_items c) k = Some a"
  defines "d \<equiv> c\<lparr>lru_order := list_Remove (le_elem (entry_at c a)) (lru_order c), lru_items := go_del k (lru_items c)\<rparr>"
  shows "lru_inv d" "lru_abs d = AList.delete k (lru_abs c)" "k \<notin> set (lru_keys d)"
proof -
  note D = lru_invD [OF assms(1)] and h = lru_hit [OF assms(1,2)]
  let ?os = "gl_elems (lru_order c)"
  have os: "gl_elems (lru_order d) = filter (\<lambda>x. fst x \<noteq> le_elem (entry_at c a)) ?os"
    by (simp add: d_def list_Remove_def)
  have E: "entry_at d = entry_at c" by (simp add: d_def entry_at_def fun_eq_iff)
  show abs: "lru_abs d = AList.delete k (lru_abs c)"
    unfolding lru_abs_def [of d] os E by (rule abs_without [OF assms(1,2)])
  then show "k \<notin> set (lru_keys d)" using delete_notin_dom [of k "lru_abs c"] by (simp add: lru_keys_abs)
  have "set (lru_items d) = {x \<in> set (lru_items c). fst x \<noteq> k}"
    by (auto simp: d_def AList.delete_eq)
  also have "\<dots> = (\<lambda>x. (le_key (entry_at c (snd x)), snd x)) ` {x \<in> set ?os. le_key (entry_at c (snd x)) \<noteq> k}"
    by (simp only: D(11) split_def filter_image fst_conv)
  finally have "set (lru_items d) = (\<lambda>(e, a). (le_key (entry_at d a), a)) ` set (gl_elems (lru_order d))"
    by (simp only: os E without_filter [OF assms(1,2)] split_def set_filter)
  moreover have "distinct (lru_keys d)"
    using distinct_abs [OF assms(1)] by (simp add: lru_keys_abs abs)
  moreover have "distinct (map f ?os) \<Longrightarrow> distinct (map f (gl_elems (lru_order d)))" for f :: "nat \<times> nat \<Rightarrow> nat"
    by (simp add: os distinct_map_filter)
  moreover have "int (length (gl_elems (lru_order d))) \<le> lru_capacity c"
    unfolding os by (rule order_trans [OF of_nat_mono [OF length_filter_le] D(2)])
  ultimately show "lru_inv d"
    using D(1,3,4,6-10) unfolding lru_inv_def by (auto simp: E os) (auto simp: d_def list_Remove_def)
qed

lemma lru_delete_correct:
  assumes "lru_inv c"
  shows "lru_inv (lru_delete k c)" "lru_abs (lru_delete k c) = AList.delete k (lru_abs c)"
proof -
  have "lru_inv (lru_delete k c) \<and> lru_abs (lru_delete k c) = AList.delete k (lru_abs c)"
  proof (cases "go_get (lru_items c) k")
    case None
    with lru_miss [OF assms, of k] assms show ?thesis by (simp add: lru_delete_def lru_keys_abs)
  next
    case (Some a)
    with lru_hit [OF assms Some] lru_remove [OF assms Some] show ?thesis by (simp add: lru_delete_def)
  qed
  then show "lru_inv (lru_delete k c)" "lru_abs (lru_delete k c) = AList.delete k (lru_abs c)" by simp_all
qed

text \<open>Evicting makes room: the back of the list goes, and with it its key.\<close>

lemma delete_last:
  assumes "distinct (map fst xs)" "xs \<noteq> []"
  shows "AList.delete (fst (last xs)) xs = butlast xs"
proof -
  from assms(2) obtain ys x where xs: "xs = ys @ [x]" by (cases xs rule: rev_cases) auto
  with assms(1) show ?thesis by (auto simp: AList.delete_eq filter_id_conv split_def)
qed

lemma lru_evict_correct:
  assumes "lru_inv c"
  shows "lru_inv (lru_evict c)" "int (length (lru_abs (lru_evict c))) < lru_capacity c"
    "lru_abs (lru_evict c) = (if nat (lru_capacity c) \<le> length (lru_abs c) then butlast (lru_abs c) else lru_abs c)"
    "lru_capacity (lru_evict c) = lru_capacity c"
proof -
  note D = lru_invD [OF assms]
  have len: "length (lru_items c) = length (lru_abs c)" "length (gl_elems (lru_order c)) = length (lru_abs c)"
    using lru_len_abs [OF assms] by (simp_all add: lru_len_def lru_abs_def)
  have "lru_inv (lru_evict c) \<and> int (length (lru_abs (lru_evict c))) < lru_capacity c \<and>
    lru_abs (lru_evict c) = (if nat (lru_capacity c) \<le> length (lru_abs c) then butlast (lru_abs c) else lru_abs c) \<and>
    lru_capacity (lru_evict c) = lru_capacity c"
  proof (cases "lru_capacity c \<le> int (length (lru_abs c))")
    case False
    with assms show ?thesis by (simp add: lru_evict_def len nat_le_iff)
  next
    case True
    with D(1) len(2) have ne: "gl_elems (lru_order c) \<noteq> []" "lru_abs c \<noteq> []" by auto
    obtain e a where bk: "last (gl_elems (lru_order c)) = (e, a)" by fastforce
    with ne(1) have mem: "(e, a) \<in> set (gl_elems (lru_order c))" by (metis last_in_set)
    let ?k = "le_key (entry_at c a)"
    have a: "go_get (lru_items c) ?k = Some a" using mem by (auto simp: lru_get_key [OF assms])
    have k: "fst (last (lru_abs c)) = ?k" using ne(1) by (simp add: lru_abs_def last_map bk)
    have evict: "lru_evict c = c\<lparr>lru_order := list_Remove (le_elem (entry_at c a)) (lru_order c), lru_items := go_del ?k (lru_items c)\<rparr>"
      using True ne(1) D(8,9) [OF mem] by (simp add: lru_evict_def len list_Back_def bk)
    note R = lru_remove [OF assms a, folded evict]
    have "lru_abs (lru_evict c) = butlast (lru_abs c)"
      using R(2) delete_last [OF distinct_abs [OF assms] ne(2)] by (simp add: k)
    moreover have "int (length (lru_abs c)) \<le> lru_capacity c" using D(2) by (simp add: len(2))
    ultimately show ?thesis
      using R(1) True D(1) ne(2) by (simp add: evict nat_le_iff)
  qed
  then show "lru_inv (lru_evict c)" "int (length (lru_abs (lru_evict c))) < lru_capacity c"
    "lru_abs (lru_evict c) = (if nat (lru_capacity c) \<le> length (lru_abs c) then butlast (lru_abs c) else lru_abs c)"
    "lru_capacity (lru_evict c) = lru_capacity c" by blast+
qed

text \<open>Pushing a fresh entry.\<close>

lemma lru_push:
  fixes v
  assumes "lru_inv c" "k \<notin> set (lru_keys c)" "int (length (lru_abs c)) < lru_capacity c"
  defines "d \<equiv> (let (elem, order) = list_PushFront (lru_next c) (lru_order c)
    in c\<lparr>lru_next := lru_next c + 1, lru_heap := (lru_heap c)(lru_next c \<mapsto> \<lparr>le_key = k, le_val = v, le_elem = elem\<rparr>),
         lru_order := order, lru_items := go_put k (lru_next c) (lru_items c)\<rparr>)"
  shows "lru_inv d" "lru_abs d = (k, v) # lru_abs c"
proof -
  note D = lru_invD [OF assms(1)]
  let ?os = "gl_elems (lru_order c)" and ?n = "gl_next (lru_order c)" and ?a = "lru_next c"
  have os: "gl_elems (lru_order d) = (?n, ?a) # ?os" by (simp add: d_def list_PushFront_def)
  have new: "entry_at d ?a = \<lparr>le_key = k, le_val = v, le_elem = ?n\<rparr>"
    by (simp add: d_def entry_at_def list_PushFront_def)
  have old: "entry_at d b = entry_at c b" "lru_heap d b = lru_heap c b" if "(e, b) \<in> set ?os" for e b
    using D(7) [OF that] by (auto simp: d_def entry_at_def list_PushFront_def)
  show abs: "lru_abs d = (k, v) # lru_abs c"
    using old(1) by (auto simp: lru_abs_def os new)
  have put: "go_put k ?a (lru_items c) = lru_items c @ [(k, ?a)]"
    using lru_miss [OF assms(1), of k] assms(2) by (intro go_put_fresh) (simp add: map_of_eq_None_iff)
  have "set (lru_items d) = (\<lambda>(e, a). (le_key (entry_at d a), a)) ` set (gl_elems (lru_order d))"
  proof -
    have "(\<lambda>(e, a). (le_key (entry_at d a), a)) ` set ?os = set (lru_items c)"
      unfolding D(11) using old(1) by (intro image_cong) auto
    then show ?thesis by (simp add: os new) (simp add: d_def list_PushFront_def put)
  qed
  moreover have "distinct (lru_keys d)"
    using distinct_abs [OF assms(1)] assms(2) by (simp add: lru_keys_abs abs)
  moreover have "distinct (map fst (gl_elems (lru_order d)))" "distinct (map snd (gl_elems (lru_order d)))"
    using D(3,4,6,7) by (force simp: os)+
  moreover have "int (length (gl_elems (lru_order d))) \<le> lru_capacity c"
    using assms(3) by (simp add: os lru_abs_def)
  ultimately show "lru_inv d"
    using D(1) D(6-10) old unfolding lru_inv_def by (auto simp: os new less_Suc_eq) (auto simp: d_def list_PushFront_def less_Suc_eq)
qed

lemma lru_put_correct:
  assumes "lru_inv c"
  shows "lru_inv (lru_put k v c)" "lru_abs (lru_put k v c) = spec_put (nat (lru_capacity c)) k v (lru_abs c)"
proof -
  have "lru_inv (lru_put k v c) \<and> lru_abs (lru_put k v c) = spec_put (nat (lru_capacity c)) k v (lru_abs c)"
  proof (cases "go_get (lru_items c) k")
    case None
    note E = lru_evict_correct [OF assms]
    have k: "k \<notin> set (lru_keys c)" using lru_miss [OF assms, of k] None by simp
    then have "k \<notin> set (lru_keys (lru_evict c))"
      by (auto simp: lru_keys_abs E(3) dest: in_set_butlastD split: if_splits)
    from lru_push [OF E(1) this, of v] E(2,4) None have "lru_inv (lru_put k v c)"
      "lru_abs (lru_put k v c) = (k, v) # lru_abs (lru_evict c)"
      by (simp_all add: lru_put_def Let_def)
    with k show ?thesis by (simp add: spec_put_def E(3) lru_keys_abs)
  next
    case (Some a)
    note h = lru_hit [OF assms Some] and D = lru_invD [OF assms]
    let ?order = "list_MoveToFront (le_elem (entry_at c a)) (lru_order c)"
    let ?heap = "(lru_heap c)(a \<mapsto> (entry_at c a)\<lparr>le_val := v\<rparr>)"
    let ?d = "c\<lparr>lru_heap := ?heap, lru_order := ?order\<rparr>"
    have put: "lru_put k v c = ?d" using Some h(2) by (simp add: lru_put_def)
    have "lru_inv ?d"
      by (rule lru_inv_reorder [OF assms moved_mset [OF assms Some]])
         (auto simp: list_MoveToFront_def entry_at_def lru_entry_same)
    moreover have "lru_abs ?d = (k, v) # AList.delete k (lru_abs c)"
    proof -
      have E: "entry_at (c\<lparr>lru_heap := ?heap\<rparr>) b = (if b = a then (entry_at c a)\<lparr>le_val := v\<rparr> else entry_at c b)" for b
        by (simp add: entry_at_def)
      let ?rest = "filter (\<lambda>x. fst x \<noteq> le_elem (entry_at c a)) (gl_elems (lru_order c))"
      have "map (\<lambda>(e, b). (le_key (entry_at (c\<lparr>lru_heap := ?heap\<rparr>) b), le_val (entry_at (c\<lparr>lru_heap := ?heap\<rparr>) b))) ?rest =
          map (\<lambda>(e, b). (le_key (entry_at c b), le_val (entry_at c b))) ?rest"
        using D(9) by (intro map_cong refl) (auto simp: E split: prod.split)
      with abs_without [OF assms Some] h(3) show ?thesis
        by (simp add: lru_abs_def [of ?d] moved_elems [OF assms Some]) (simp add: E)
    qed
    moreover have "k \<in> set (map fst (lru_abs c))" using abs_hit [OF assms Some] by (metis map_of_eq_None_iff option.distinct(1) set_map)
    ultimately show ?thesis by (simp add: put spec_put_def)
  qed
  then show "lru_inv (lru_put k v c)" "lru_abs (lru_put k v c) = spec_put (nat (lru_capacity c)) k v (lru_abs c)" by blast+
qed

section \<open>The cache contract\<close>

definition lru_view :: "'v lru_cache \<Rightarrow> string \<Rightarrow> 'v option" where
  "lru_view c = map_of (lru_abs c)"

lemma lru_view_new: "lru_view (newLRUCache n) = (\<lambda>_. None)"
  by (simp add: lru_view_def lru_abs_def newLRUCache_def list_New_def fun_eq_iff)

lemma map_of_butlast: "distinct (map fst xs) \<Longrightarrow> map_of (butlast xs) \<subseteq>\<^sub>m map_of xs"
  by (cases xs rule: rev_cases) (auto simp: map_le_def map_add_def dest: map_of_SomeD split: option.split)

interpretation lru: kv_cache lru_get lru_put lru_delete lru_inv lru_view
proof
  fix c :: "'v lru_cache" and k and v :: 'v
  assume c: "lru_inv c"
  show "fst (lru_get k c) = lru_view c k \<and> lru_inv (snd (lru_get k c)) \<and> lru_view (snd (lru_get k c)) = lru_view c"
    using lru_get_correct [OF c, of k]
    by (auto simp: lru_view_def spec_get_def fun_eq_iff delete_conv' split: option.split)
  show "lru_inv (lru_put k v c) \<and> lru_view (lru_put k v c) k = Some v \<and> lru_view (lru_put k v c) \<subseteq>\<^sub>m (lru_view c)(k \<mapsto> v)"
    using lru_put_correct [OF c, of k v] map_of_butlast [OF distinct_abs [OF c]]
    by (auto simp: lru_view_def spec_put_def map_le_def delete_conv' dom_def split: if_splits)
  show "lru_inv (lru_delete k c) \<and> lru_view (lru_delete k c) = (lru_view c)(k := None)"
    using lru_delete_correct [OF c, of k] by (simp add: lru_view_def delete_conv')
qed

section \<open>Capacity and recency\<close>

lemma lru_bound:
  assumes "lru_inv c"
  shows "int (lru_len c) \<le> lru_capacity c"
  using lru_invD(2) [OF assms] by (simp add: lru_len_abs [OF assms] lru_abs_def)

abbreviation lru_run :: "(string, 'v) kv_op list \<Rightarrow> 'v lru_cache \<Rightarrow> 'v lru_cache" where
  "lru_run \<equiv> kv_run lru_get lru_put lru_delete"

lemma lru_run_inv: "lru_inv c \<Longrightarrow> lru_inv (lru_run ps c)"
  using lru.backed_run [of c "lru_view c" ps] by (simp add: lru.backed_def)

lemma lru_step_capacity: "lru_inv c \<Longrightarrow> lru_capacity (kv_step lru_get lru_put lru_delete p c) = lru_capacity c"
  using lru_evict_correct(4) [of c]
  by (cases p) (auto simp: lru_get_def lru_put_def lru_delete_def Let_def split: option.splits prod.splits)

text \<open>
  An entry among the first \<open>n\<close> of the list is among the first \<open>n + 1\<close> after an operation on another key, so it
  survives as many operations on other keys as the cache has places behind it.
\<close>

lemma take_filter: "x \<in> set (take n xs) \<Longrightarrow> P x \<Longrightarrow> x \<in> set (take n (filter P xs))"
proof (induction xs arbitrary: n)
  case (Cons y ys)
  have "set (take m zs) \<subseteq> set (take (Suc m) zs)" for m and zs :: "'a list"
    by (rule set_take_subset_set_take) simp
  with Cons show ?case by (cases n) auto
qed simp

lemma take_delete: "(k, v) \<in> set (take n xs) \<Longrightarrow> k \<noteq> k' \<Longrightarrow> (k, v) \<in> set (take n (AList.delete k' xs))"
  unfolding AList.delete_eq by (rule take_filter) auto

lemma take_butlast_mem: "x \<in> set (take n xs) \<Longrightarrow> n < cap \<Longrightarrow> length xs \<le> cap \<Longrightarrow> x \<in> set (take n (if cap \<le> length xs then butlast xs else xs))"
  by (simp add: take_butlast)

fun kv_key :: "('k, 'v) kv_op \<Rightarrow> 'k" where
  "kv_key (KGet k) = k"
| "kv_key (KPut k v) = k"
| "kv_key (KDelete k) = k"

lemma lru_step_rank:
  assumes "lru_inv c" "(k, v) \<in> set (take n (lru_abs c))" "kv_key p \<noteq> k" "n < nat (lru_capacity c)"
  shows "(k, v) \<in> set (take (Suc n) (lru_abs (kv_step lru_get lru_put lru_delete p c)))"
proof -
  have up: "x \<in> set (take n xs) \<Longrightarrow> x \<in> set (take (Suc n) xs)" for x :: "string \<times> 'a" and xs
    using set_take_subset_set_take [of n "Suc n" xs] by auto
  have len: "length (lru_abs c) \<le> nat (lru_capacity c)"
    using lru_bound [OF assms(1)] by (simp add: lru_len_abs [OF assms(1)])
  have del: "(k, v) \<in> set (take n (AList.delete (kv_key p) (lru_abs c)))"
    using take_delete [OF assms(2)] assms(3) by metis
  show ?thesis
  proof (cases p)
    case (KGet k')
    with del up [OF assms(2)] show ?thesis
      by (auto simp: lru_get_correct [OF assms(1)] spec_get_def split: option.split)
  next
    case (KPut k' w)
    with del take_butlast_mem [OF assms(2,4) len] show ?thesis
      by (auto simp: lru_put_correct [OF assms(1)] spec_put_def)
  next
    case (KDelete k')
    with up [OF del] show ?thesis by (simp add: lru_delete_correct [OF assms(1)])
  qed
qed

lemma lru_run_rank:
  assumes "lru_inv c" "(k, v) \<in> set (take n (lru_abs c))" "\<forall>p\<in>set ps. kv_key p \<noteq> k" "n + length ps \<le> nat (lru_capacity c)"
  shows "(k, v) \<in> set (take (n + length ps) (lru_abs (lru_run ps c)))"
  using assms
proof (induction ps arbitrary: c n)
  case Nil
  then show ?case by (simp add: kv_run_def)
next
  case (Cons p ps)
  let ?c = "kv_step lru_get lru_put lru_delete p c"
  have "lru_inv ?c" using lru_run_inv [OF Cons.prems(1), of "[p]"] by (simp add: kv_run_def)
  moreover have "(k, v) \<in> set (take (Suc n) (lru_abs ?c))"
    using lru_step_rank [OF Cons.prems(1,2)] Cons.prems(3,4) by simp
  ultimately have "(k, v) \<in> set (take (Suc n + length ps) (lru_abs (lru_run ps ?c)))"
    using Cons.prems(3,4) by (intro Cons.IH) (simp_all add: lru_step_capacity [OF Cons.prems(1)])
  then show ?case by (simp add: kv_run_def)
qed

lemma lru_survives:
  assumes "lru_inv c" "\<forall>p\<in>set ps. kv_key p \<noteq> k" "int (length ps) < lru_capacity c"
  shows "fst (lru_get k (lru_run ps (lru_put k v c))) = Some v"
proof -
  let ?d = "lru_put k v c"
  have d: "lru_inv ?d" "lru_capacity ?d = lru_capacity c"
    using lru_put_correct(1) [OF assms(1)] lru_step_capacity [OF assms(1), of "KPut k v"] by simp_all
  have "(k, v) \<in> set (take 1 (lru_abs ?d))"
    by (auto simp: lru_put_correct(2) [OF assms(1)] spec_put_def)
  moreover have "1 + length ps \<le> nat (lru_capacity ?d)" using assms(3) d(2) by linarith
  ultimately have "(k, v) \<in> set (take (1 + length ps) (lru_abs (lru_run ps ?d)))"
    by (rule lru_run_rank [OF d(1) _ assms(2)])
  then have "(k, v) \<in> set (lru_abs (lru_run ps ?d))" by (auto dest: in_set_takeD)
  moreover note i = lru_run_inv [OF d(1), of ps]
  ultimately have "lru_view (lru_run ps ?d) k = Some v"
    using distinct_abs [OF i] by (simp add: lru_view_def)
  with lru.get_law [OF i, of k] show ?thesis by simp
qed

end
