(* ===== verification/Object_Cache.thy ===== *)
theory Object_Cache
  imports Informer Store_List LRU_Cache
begin

text \<open>
  \<open>cache/cache.go\<close> and \<open>cache/informer_map.go\<close>: the cache that serves reads from the store, with the optional LRU
  of reconstructed objects in front, and the map of informers. A goroutine that the code starts is recorded by its GVK in
  \<open>im_running\<close>; what it then does is the state machine of \<open>Informer\<close>.
\<close>

section \<open>The informer map\<close>

record informer_map =
  im_informers :: "(gvk, informer) gomap"
  im_namespaces :: "string list"
  im_running :: "gvk list"

definition NewInformerMap :: "string list \<Rightarrow> informer_map" where
  "NewInformerMap namespaces = \<lparr>im_informers = [], im_namespaces = namespaces, im_running = []\<rparr>"

text \<open>\<open>GetOrCreate\<close> looks under the read lock, and again under the write lock before it creates the informer.\<close>

definition informer_lookup :: "gvk \<Rightarrow> informer_map \<Rightarrow> informer option" where
  "informer_lookup g m = go_get (im_informers m) g"

definition GetOrCreate_slow :: "gvk \<Rightarrow> informer_map \<Rightarrow> informer \<times> informer_map" where
  "GetOrCreate_slow g m =
     (case informer_lookup g m of
        Some nf \<Rightarrow> (nf, m)
      | None \<Rightarrow>
          (let gvr = GVRFromGVK g;
               namespace = (if length (im_namespaces m) = 1 then im_namespaces m ! 0 else '''');
               nf = NewGVKInformer g gvr namespace
           in (nf, m\<lparr>im_informers := go_put g nf (im_informers m)\<rparr>)))"

definition GetOrCreate :: "gvk \<Rightarrow> informer_map \<Rightarrow> informer \<times> informer_map" where
  "GetOrCreate g m =
     (case informer_lookup g m of
        Some nf \<Rightarrow> (nf, m)
      | None \<Rightarrow> GetOrCreate_slow g m)"

lemma GetOrCreate_eq:
  "GetOrCreate g m =
     (case go_get (im_informers m) g of
        Some nf \<Rightarrow> (nf, m)
      | None \<Rightarrow>
          (let nf = NewGVKInformer g (GVRFromGVK g) (if length (im_namespaces m) = 1 then im_namespaces m ! 0 else '''')
           in (nf, m\<lparr>im_informers := go_put g nf (im_informers m)\<rparr>)))"
  by (simp add: GetOrCreate_def GetOrCreate_slow_def informer_lookup_def Let_def split: option.split)

interpretation nd: double_checked informer_lookup GetOrCreate_slow "\<lambda>_. True" "\<lambda>_. True" "\<lambda>_. True"
  by unfold_locales
    (auto simp: informer_lookup_def GetOrCreate_slow_def Let_def gomap_simps split: option.splits)

definition InformerMap_Start :: "informer_map \<Rightarrow> informer_map" where
  "InformerMap_Start m = m\<lparr>im_running := im_running m @ go_keys (im_informers m)\<rparr>"

text \<open>
  \<open>WaitForCacheSync\<close> polls. A poll is what one turn of the loop sees: whether the context is done at the top, the informers, and
  whether the context or the timer ends the wait. \<open>None\<close> is a run that is still waiting when the polls given end.
\<close>

fun WaitForCacheSync :: "(bool \<times> (gvk, informer) gomap \<times> bool) list \<Rightarrow> bool option" where
  "WaitForCacheSync [] = None"
| "WaitForCacheSync ((ended, informers, ended2) # polls) =
     (if ended then Some False
      else if list_all (\<lambda>(g, nf). HasSynced nf) informers then Some True
      else if ended2 then Some False
      else WaitForCacheSync polls)"

section \<open>The cache\<close>

record 't cache =
  ca_cached :: "'t cached"
  ca_map :: informer_map
  ca_started :: bool
  ca_lru :: "gobj lru_cache option"

definition NewCache :: "string list \<Rightarrow> int \<Rightarrow> 't cache" where
  "NewCache namespaces reconstructLRUSize =
     \<lparr>ca_cached = empty_cached, ca_map = NewInformerMap namespaces, ca_started = False,
      ca_lru = (if reconstructLRUSize > 0 then Some (newLRUCache reconstructLRUSize) else None)\<rparr>"

datatype cache_error =
    CannotDetermineGVK codec_error
  | EnsureInformerFailed cache_error
  | ObjectNotFound string string
  | CacheConversion codec_error
  | ListGVKUnknown
  | IndexFailed index_error

definition InvalidateLRU :: "gvk \<Rightarrow> string \<Rightarrow> string \<Rightarrow> 't cache \<Rightarrow> 't cache" where
  "InvalidateLRU g ns name c =
     (case ca_lru c of None \<Rightarrow> c | Some lru \<Rightarrow> c\<lparr>ca_lru := Some (lru_delete (lruKey g ns name) lru)\<rparr>)"

definition EnsureInformer :: "'t api_machinery \<Rightarrow> 't client_object \<Rightarrow> 't cache \<Rightarrow> cache_error option \<times> 't cache" where
  "EnsureInformer am obj c =
     (case GVKForObject am obj of
        Inl e \<Rightarrow> (Some (CannotDetermineGVK e), c)
      | Inr g \<Rightarrow>
          (let (nf, m) = GetOrCreate g (ca_map c)
           in (None, c\<lparr>ca_map := (if ca_started c \<and> \<not> HasSynced nf then m\<lparr>im_running := im_running m @ [g]\<rparr> else m)\<rparr>)))"

text \<open>The result of a read: an error, or the object that was passed in, filled.\<close>

definition Cache_Get ::
    "'t api_machinery \<Rightarrow> string \<Rightarrow> string \<Rightarrow> 't client_object \<Rightarrow> 't cache \<Rightarrow> ((cache_error + 't client_object) \<times> 't cache) option" where
  "Cache_Get am ns name obj c =
     (case GVKForObject am obj of
        Inl e \<Rightarrow> Some (Inl (CannotDetermineGVK e), c)
      | Inr g \<Rightarrow>
          (let (err, c1) = EnsureInformer am obj c
           in case err of
                Some e \<Rightarrow> Some (Inl (EnsureInformerFailed e), c1)
              | None \<Rightarrow>
                  (let storeKey = \<lparr>key_gvk = g, key_namespace = ns, key_name = name\<rparr>;
                       convert = (\<lambda>u c. (case FromUnstructured am u obj of Inl e \<Rightarrow> Inl (CacheConversion e) | Inr obj' \<Rightarrow> Inr obj', c))
                   in case ca_lru c1 of
                        Some lru \<Rightarrow>
                          (let cacheKey = lruKey g ns name; (hit, lru1) = lru_get cacheKey lru; c2 = c1\<lparr>ca_lru := Some lru1\<rparr>
                           in case hit of
                                Some u \<Rightarrow> Some (convert u c2)
                              | None \<Rightarrow>
                                  (case Get storeKey (cd_store (ca_cached c2)) of
                                     None \<Rightarrow> None
                                   | Some None \<Rightarrow> Some (Inl (ObjectNotFound ns name), c2)
                                   | Some (Some u) \<Rightarrow> Some (convert u (c2\<lparr>ca_lru := Some (lru_put cacheKey u lru1)\<rparr>))))
                      | None \<Rightarrow>
                          (case Get storeKey (cd_store (ca_cached c1)) of
                             None \<Rightarrow> None
                           | Some None \<Rightarrow> Some (Inl (ObjectNotFound ns name), c1)
                           | Some (Some u) \<Rightarrow> Some (convert u c1)))))"

definition IndexField ::
    "'t api_machinery \<Rightarrow> 't client_object \<Rightarrow> string \<Rightarrow> ('t client_object \<Rightarrow> string list) \<Rightarrow> 't cache \<Rightarrow> cache_error option \<times> 't cache" where
  "IndexField am obj field extractValue c =
     (case GVKForObject am obj of
        Inl e \<Rightarrow> (Some (CannotDetermineGVK e), c)
      | Inr g \<Rightarrow>
          (let (err, idx) = AddIndex g field extractValue (cd_index (ca_cached c))
           in (map_option IndexFailed err, c\<lparr>ca_cached := (ca_cached c)\<lparr>cd_index := idx\<rparr>\<rparr>)))"

definition Cache_Start :: "'t cache \<Rightarrow> 't cache" where
  "Cache_Start c = c\<lparr>ca_started := True, ca_map := InformerMap_Start (ca_map c)\<rparr>"

section \<open>Lists\<close>

datatype sel_op = OpEquals | OpDoubleEquals | OpIn | OpNotEquals | OpNotIn | OpExists | OpDoesNotExist | OpGreaterThan | OpLessThan

text \<open>
  \<open>client.ListOptions\<close> after the options have been applied: the requirements of the label selector with the flag
  \<open>selectable\<close>, each with the sorted list of its values, and those of the field selector with the operator as a string.
\<close>

record client_list_options =
  clo_namespace :: string
  clo_labels :: "((string \<times> sel_op \<times> string list) list \<times> bool) option"
  clo_fields :: "(string \<times> string \<times> string) list option"

definition label_map :: "(string \<times> sel_op \<times> string list) list \<Rightarrow> (string, string) gomap" where
  "label_map reqs =
     fold (\<lambda>(key, op, vals) m.
       if op = OpEquals \<or> op = OpDoubleEquals \<or> op = OpIn then (if length vals = 1 then go_put key (hd vals) m else m) else m) reqs []"

definition store_options :: "client_list_options \<Rightarrow> list_option list" where
  "store_options lo =
     (if clo_namespace lo \<noteq> '''' then [WithNamespace (clo_namespace lo)] else []) @
     (case clo_labels lo of
        None \<Rightarrow> []
      | Some (reqs, selectable) \<Rightarrow>
          (if selectable then (let m = label_map reqs in if 0 < length m then [WithLabelSelector m] else []) else [])) @
     (case clo_fields lo of
        None \<Rightarrow> []
      | Some reqs \<Rightarrow>
          concat (map (\<lambda>(field, op, value). if op = ''='' \<or> op = ''=='' then [WithFieldSelector field value] else []) reqs))"

text \<open>\<open>strings.TrimSuffix(kind, "List")\<close>.\<close>

definition trim_list :: "string \<Rightarrow> string" where
  "trim_list kind =
     (if drop (length kind - 4) kind = ''List'' \<and> 4 \<le> length kind then take (length kind - 4) kind else kind)"

text \<open>The list object passed in: an \<open>UnstructuredList\<close> with its GVK, or a typed list with what the scheme says of it.\<close>

datatype list_target = UnstructuredList gvk | TypedList "gvk list \<times> go_error option"

definition gvkForList :: "list_target \<Rightarrow> cache_error + gvk" where
  "gvkForList target =
     (case target of
        UnstructuredList g \<Rightarrow>
          (let g' = g\<lparr>gvk_kind := trim_list (gvk_kind g)\<rparr> in if gvk_kind g' \<noteq> '''' then Inr g' else Inl ListGVKUnknown)
      | TypedList (gvks, err) \<Rightarrow>
          (if err \<noteq> None then Inl ListGVKUnknown
           else case find (\<lambda>g. gvk_kind g \<noteq> '''') gvks of
                  Some g \<Rightarrow> Inr (\<lparr>gvk_group = gvk_group g, gvk_version = gvk_version g, gvk_kind = trim_list (gvk_kind g)\<rparr>)
                | None \<Rightarrow> Inl ListGVKUnknown))"

text \<open>
  What the call leaves: the items of an \<open>UnstructuredList\<close> with its GVK, the typed items handed to \<open>meta.SetList\<close>, or, in the
  fallback, the map handed to the converter, which is the object of a fresh list with its GVK set.
\<close>

datatype 't list_outcome =
    ListItems gvk "gobj list"
  | TypedItems "'t client_object list"
  | ConvertMap gobj
  | ListError cache_error

definition list_gvk :: "gvk \<Rightarrow> gvk" where
  "list_gvk g = g\<lparr>gvk_kind := gvk_kind g @ ''List''\<rparr>"

definition populateListFromUnstructured :: "'t api_machinery \<Rightarrow> gobj list \<Rightarrow> gvk \<Rightarrow> 't list_outcome" where
  "populateListFromUnstructured am items g = ConvertMap (am_SetGVK am (list_gvk g) [])"

definition Cache_List ::
    "(64 word \<Rightarrow> string) \<Rightarrow> (gobj \<Rightarrow> (string, string) gomap) \<Rightarrow> 't api_machinery \<Rightarrow> (gvk \<Rightarrow> 't client_object option) \<Rightarrow>
     list_target \<Rightarrow> client_list_options \<Rightarrow> 't cache \<Rightarrow> ('t list_outcome \<times> 't cache) option" where
  "Cache_List ff get_labels am scheme_New target opts c =
     (case gvkForList target of
        Inl e \<Rightarrow> Some (ListError e, c)
      | Inr g \<Rightarrow>
          (let (err, c1) = EnsureInformer am (Unstr (am_SetGVK am g [])) c
           in case err of
                Some e \<Rightarrow> Some (ListError (EnsureInformerFailed e), c1)
              | None \<Rightarrow>
                  (case List ff get_labels (cd_store (ca_cached c1)) g (store_options opts) of
                     None \<Rightarrow> None
                   | Some items \<Rightarrow>
                       Some
                         (case target of
                            UnstructuredList _ \<Rightarrow> ListItems (list_gvk g) items
                          | TypedList _ \<Rightarrow>
                              (case scheme_New g of
                                 None \<Rightarrow> populateListFromUnstructured am items g
                               | Some itemObj \<Rightarrow>
                                   (case those (map (\<lambda>u. case FromUnstructured am u itemObj of Inl e \<Rightarrow> None | Inr x \<Rightarrow> Some x) items) of
                                      Some xs \<Rightarrow> TypedItems xs
                                    | None \<Rightarrow>
                                        ListError (CacheConversion (hd (concat (map (\<lambda>u.
                                          case FromUnstructured am u itemObj of Inl e \<Rightarrow> [e] | Inr x \<Rightarrow> []) items)))))),
                          c1))))"

end
