(* ===== verification/Cache_Coherence.thy ===== *)
theory Cache_Coherence
  imports Object_Cache
begin

text \<open>
  Coherence of the cache: what the LRU may hold, what \<open>Cache.Get\<close> returns, and which writes keep the LRU coherent. The
  LRU keys join their parts with slashes, so the statements are about keys whose GVK and namespace have none, as in Kubernetes.
\<close>

definition key_ok :: "object_key \<Rightarrow> bool" where
  "key_ok key \<longleftrightarrow> gvk_slash_free (key_gvk key) \<and> slash_free (key_namespace key)"

definition key_lru :: "object_key \<Rightarrow> string" where
  "key_lru key = lruKey (key_gvk key) (key_namespace key) (key_name key)"

lemma key_lru_inject: "key_ok k \<Longrightarrow> key_ok k' \<Longrightarrow> key_lru k = key_lru k' \<longleftrightarrow> k = k'"
  by (auto simp: key_ok_def key_lru_def lruKey_inject)

text \<open>An LRU is coherent with a store when every entry means what the store holds under its key.\<close>

definition lru_coherent :: "dedup_store \<Rightarrow> gobj lru_cache \<Rightarrow> bool" where
  "lru_coherent s lru \<longleftrightarrow> lru_inv lru \<and>
     (\<forall>key u. key_ok key \<longrightarrow> lru_view lru (key_lru key) = Some u \<longrightarrow> store_view s key = Some (sem (GMap u)))"

definition option_coherent :: "dedup_store \<Rightarrow> gobj lru_cache option \<Rightarrow> bool" where
  "option_coherent s lru \<longleftrightarrow> (case lru of None \<Rightarrow> True | Some l \<Rightarrow> lru_coherent s l)"

lemma lru_coherent_new: "lru_coherent s (newLRUCache n)"
  by (simp add: lru_coherent_def lru_inv_new lru_view_new)

lemma lru_coherent_hit:
  assumes "lru_coherent s lru" "key_ok key" "fst (lru_get (key_lru key) lru) = Some u"
  shows "store_view s key = Some (sem (GMap u))"
  using assms lru.get_law [of lru "key_lru key"] by (auto simp: lru_coherent_def)

lemma lru_coherent_get: "lru_coherent s lru \<Longrightarrow> lru_coherent s (snd (lru_get k lru))"
  using lru.get_law [of lru k] by (auto simp: lru_coherent_def)

lemma lru_coherent_fill:
  assumes "lru_coherent s lru" "key_ok key" "store_view s key = Some (sem (GMap u))"
  shows "lru_coherent s (lru_put (key_lru key) u lru)"
proof -
  from assms(1) have i: "lru_inv lru" by (simp add: lru_coherent_def)
  note P = lru.put_law [OF i, of "key_lru key" u]
  have "store_view s k = Some (sem (GMap v))" if "key_ok k" "lru_view (lru_put (key_lru key) u lru) (key_lru k) = Some v" for k v
  proof (cases "k = key")
    case True
    with P that(2) assms(3) show ?thesis by simp
  next
    case False
    with that P have "lru_view lru (key_lru k) = Some v"
      by (force simp: map_le_def key_lru_inject [OF that(1) assms(2)])
    with assms(1) that(1) show ?thesis by (simp add: lru_coherent_def)
  qed
  with P show ?thesis by (simp add: lru_coherent_def)
qed

text \<open>Changing the store at a key and deleting the key's entry keeps the LRU coherent.\<close>

lemma lru_coherent_invalidate:
  assumes "lru_coherent s lru" "\<And>k. k \<noteq> key \<Longrightarrow> store_view t k = store_view s k"
  shows "lru_coherent t (lru_delete (key_lru key) lru)"
proof -
  from assms(1) have i: "lru_inv lru" by (simp add: lru_coherent_def)
  note D = lru.del_law [OF i, of "key_lru key"]
  have "store_view t k = Some (sem (GMap u))" if "key_ok k" "lru_view (lru_delete (key_lru key) lru) (key_lru k) = Some u" for k u
  proof -
    from that(2) D have "key_lru k \<noteq> key_lru key" "lru_view lru (key_lru k) = Some u" by (auto split: if_splits)
    with assms that(1) show ?thesis unfolding lru_coherent_def by metis
  qed
  with D show ?thesis by (simp add: lru_coherent_def)
qed

lemma lru_coherent_view: "lru_coherent s lru \<Longrightarrow> store_view t = store_view s \<Longrightarrow> lru_coherent t lru"
  by (simp add: lru_coherent_def)

section \<open>Informers\<close>

lemma GetOrCreate_stable:
  "go_get (im_informers (snd (GetOrCreate g m))) g = Some (fst (GetOrCreate g m)) \<and>
   GetOrCreate g (snd (GetOrCreate g m)) = (fst (GetOrCreate g m), snd (GetOrCreate g m)) \<and>
   (\<forall>h. h \<noteq> g \<longrightarrow> go_get (im_informers (snd (GetOrCreate g m))) h = go_get (im_informers m) h)"
  by (auto simp: GetOrCreate_eq Let_def gomap_simps split: option.split)


lemma EnsureInformer_frame:
  "ca_cached (snd (EnsureInformer am obj c)) = ca_cached c" "ca_lru (snd (EnsureInformer am obj c)) = ca_lru c"
  "ca_started (snd (EnsureInformer am obj c)) = ca_started c"
  "fst (EnsureInformer am obj c) = (case GVKForObject am obj of Inl e \<Rightarrow> Some (CannotDetermineGVK e) | Inr g \<Rightarrow> None)"
  by (auto simp: EnsureInformer_def Let_def split: sum.split prod.split)

lemma EnsureInformer_registers:
  assumes "GVKForObject am obj = Inr g"
  shows "go_get (im_informers (ca_map (snd (EnsureInformer am obj c)))) g \<noteq> None"
  using assms GetOrCreate_stable [of g "ca_map c"] by (auto simp: EnsureInformer_def Let_def split: prod.split)

text \<open>The informers of a map that starts empty: one for each GVK asked for, all on the same namespace.\<close>

definition sole_namespace :: "string list \<Rightarrow> string option" where
  "sole_namespace ns = (case ns of [n] \<Rightarrow> (if n = '''' then None else Some n) | _ \<Rightarrow> None)"

definition map_ok :: "string list \<Rightarrow> informer_map \<Rightarrow> bool" where
  "map_ok ns m \<longleftrightarrow> im_namespaces m = ns \<and> distinct (go_keys (im_informers m)) \<and>
     list_all (\<lambda>(g, nf). inf_gvk nf = g \<and> list_request nf = (GVRFromGVK g, sole_namespace ns)) (im_informers m)"

lemma GetOrCreate_new:
  assumes "go_get (im_informers m) g = None"
  shows "inf_gvk (fst (GetOrCreate g m)) = g \<and> list_request (fst (GetOrCreate g m)) = (GVRFromGVK g, sole_namespace (im_namespaces m)) \<and>
    snd (GetOrCreate g m) = m\<lparr>im_informers := im_informers m @ [(g, fst (GetOrCreate g m))]\<rparr>"
proof -
  from assms have "g \<notin> set (go_keys (im_informers m))" by (simp add: map_of_eq_None_iff)
  with assms show ?thesis
    by (auto simp: GetOrCreate_eq Let_def NewGVKInformer_def list_request_def sole_namespace_def go_put_fresh
        simp del: set_map split: list.split)
qed

lemma GetOrCreate_map_ok:
  assumes "map_ok ns m"
  shows "map_ok ns (snd (GetOrCreate g m)) \<and>
    set (go_keys (im_informers (snd (GetOrCreate g m)))) = insert g (set (go_keys (im_informers m)))"
proof (cases "go_get (im_informers m) g")
  case None
  with GetOrCreate_new [OF None] assms show ?thesis by (auto simp: map_ok_def map_of_eq_None_iff)
next
  case (Some nf)
  with assms show ?thesis by (auto simp: GetOrCreate_eq dest!: map_of_SomeD intro: rev_image_eqI)
qed

lemma informers_of:
  "map_ok ns (fold (\<lambda>g m. snd (GetOrCreate g m)) gs (NewInformerMap ns)) \<and>
   set (go_keys (im_informers (fold (\<lambda>g m. snd (GetOrCreate g m)) gs (NewInformerMap ns)))) = set gs"
proof (induction gs rule: rev_induct)
  case Nil
  show ?case by (simp add: NewInformerMap_def map_ok_def)
next
  case (snoc g gs)
  then show ?case
    using GetOrCreate_map_ok [of ns "fold (\<lambda>g m. snd (GetOrCreate g m)) gs (NewInformerMap ns)" g] by auto
qed

text \<open>Once the cache runs, each call for a GVK whose informer has not synced starts one more run of it.\<close>

definition unsynced :: "gvk \<Rightarrow> 't cache \<Rightarrow> bool" where
  "unsynced g c \<longleftrightarrow> (case go_get (im_informers (ca_map c)) g of None \<Rightarrow> True | Some nf \<Rightarrow> \<not> inf_hasSynced nf)"

lemma EnsureInformer_starts:
  assumes "GVKForObject am obj = Inr g"
  shows "im_running (ca_map (snd (EnsureInformer am obj c))) = im_running (ca_map c) @ (if ca_started c \<and> unsynced g c then [g] else []) \<and>
    unsynced g (snd (EnsureInformer am obj c)) = unsynced g c"
  using assms
  by (auto simp: EnsureInformer_def GetOrCreate_eq Let_def unsynced_def NewGVKInformer_def gomap_simps split: option.splits)

lemma EnsureInformer_repeated:
  assumes "GVKForObject am obj = Inr g"
  shows "im_running (ca_map (((\<lambda>c. snd (EnsureInformer am obj c)) ^^ n) c)) =
      im_running (ca_map c) @ (if ca_started c \<and> unsynced g c then replicate n g else []) \<and>
    unsynced g (((\<lambda>c. snd (EnsureInformer am obj c)) ^^ n) c) = unsynced g c \<and>
    ca_started (((\<lambda>c. snd (EnsureInformer am obj c)) ^^ n) c) = ca_started c"
  by (induction n) (auto simp: EnsureInformer_starts [OF assms] EnsureInformer_frame replicate_append_same)

section \<open>Get\<close>

definition cache_inv :: "'t cache \<Rightarrow> bool" where
  "cache_inv c \<longleftrightarrow> store_inv (cd_store (ca_cached c)) \<and> option_coherent (cd_store (ca_cached c)) (ca_lru c)"

lemma cache_inv_new: "cache_inv (NewCache ns n)"
  by (simp add: cache_inv_def NewCache_def option_coherent_def lru_coherent_new empty_cached_def store_inv_new)

abbreviation cache_view :: "'t cache \<Rightarrow> object_key \<Rightarrow> aval option" where
  "cache_view c \<equiv> store_view (cd_store (ca_cached c))"

text \<open>What a read delivers of an object with the content \<open>u\<close>.\<close>

definition delivers :: "'t api_machinery \<Rightarrow> 't client_object \<Rightarrow> gobj \<Rightarrow> cache_error + 't client_object \<Rightarrow> bool" where
  "delivers am obj u result \<longleftrightarrow> result = (case FromUnstructured am u obj of Inl e \<Rightarrow> Inl (CacheConversion e) | Inr obj' \<Rightarrow> Inr obj')"

definition get_result :: "'t api_machinery \<Rightarrow> object_key \<Rightarrow> 't client_object \<Rightarrow> 't cache \<Rightarrow> cache_error + 't client_object \<Rightarrow> bool" where
  "get_result am key obj c result \<longleftrightarrow>
     (case cache_view c key of
        None \<Rightarrow> result = Inl (ObjectNotFound (key_namespace key) (key_name key))
      | Some a \<Rightarrow> (\<exists>u. sem (GMap u) = a \<and> delivers am obj u result))"

lemma get_result_found:
  assumes "cache_view c key = Some (sem (GMap u))"
  shows "get_result am key obj c (case FromUnstructured am u obj of Inl e \<Rightarrow> Inl (CacheConversion e) | Inr obj' \<Rightarrow> Inr obj')"
  using assms by (auto simp: get_result_def delivers_def simp del: sem.simps)

lemma get_result_absent:
  "cache_view c key = None \<Longrightarrow> get_result am key obj c (Inl (ObjectNotFound (key_namespace key) (key_name key)))"
  by (simp add: get_result_def)

lemma Cache_Get_correct:
  assumes "cache_inv c" "GVKForObject am obj = Inr g" "gvk_slash_free g" "slash_free ns"
  shows "returns (Cache_Get am ns name obj c) (\<lambda>(result, c').
    get_result am \<lparr>key_gvk = g, key_namespace = ns, key_name = name\<rparr> obj c result \<and>
    cache_inv c' \<and> ca_cached c' = ca_cached c)"
proof -
  let ?key = "\<lparr>key_gvk = g, key_namespace = ns, key_name = name\<rparr>"
  have key: "key_ok ?key" "lruKey g ns name = key_lru ?key" using assms(3,4) by (simp_all add: key_ok_def key_lru_def)
  obtain c1 where c1: "EnsureInformer am obj c = (None, c1)" "ca_cached c1 = ca_cached c" "ca_lru c1 = ca_lru c"
    using EnsureInformer_frame [of am obj c] assms(2) by (cases "EnsureInformer am obj c") simp
  let ?s = "cd_store (ca_cached c)"
  from assms(1) have s: "store_inv ?s" by (simp add: cache_inv_def)
  from ds.get_law [OF s, of ?key] obtain r where r: "Get ?key ?s = Some r"
    "map_option (\<lambda>obj. sem (GMap obj)) r = store_view ?s ?key" by (rule returnsE)
  note found = get_result_found [of c ?key _ am obj] and absent = get_result_absent [of c ?key am obj]
  show ?thesis
  proof (cases "ca_lru c")
    case None
    show ?thesis
    proof (cases r)
      case (Some u)
      with r found [of u] None assms(1,2) c1 show ?thesis by (simp add: Cache_Get_def cache_inv_def del: sem.simps)
    qed (use r absent None assms(1,2) c1 in \<open>simp add: Cache_Get_def cache_inv_def\<close>)
  next
    case (Some lru)
    obtain hit lru1 where g: "lru_get (key_lru ?key) lru = (hit, lru1)" by fastforce
    from assms(1) Some have coh: "lru_coherent ?s lru" by (simp add: cache_inv_def option_coherent_def)
    have coh1: "lru_coherent ?s lru1" using lru_coherent_get [OF coh, of "key_lru ?key"] g by simp
    note facts = Some g coh1 s c1 assms(2)
    show ?thesis
    proof (cases hit)
      case (Some u)
      with lru_coherent_hit [OF coh key(1)] g have "store_view ?s ?key = Some (sem (GMap u))" by simp
      from found [OF this] Some facts show ?thesis
        by (simp add: Cache_Get_def cache_inv_def option_coherent_def key(2) del: sem.simps)
    next
      case None
      show ?thesis
      proof (cases r)
        case (Some u)
        with r have v: "store_view ?s ?key = Some (sem (GMap u))" by simp
        from lru_coherent_fill [OF coh1 key(1) v] found [OF v] Some r None facts show ?thesis
          by (simp add: Cache_Get_def cache_inv_def option_coherent_def key(2) del: sem.simps)
      qed (use r absent None facts in \<open>simp add: Cache_Get_def cache_inv_def option_coherent_def key(2)\<close>)
    qed
  qed
qed

text \<open>A read that found the object leaves it in the LRU.\<close>

lemma Cache_Get_fills:
  assumes "cache_inv c" "GVKForObject am obj = Inr g" "ca_lru c \<noteq> None" "Cache_Get am ns name obj c = Some (Inr x, c')"
  shows "\<exists>lru u. ca_lru c' = Some lru \<and> fst (lru_get (lruKey g ns name) lru) = Some u \<and> FromUnstructured am u obj = Inr x"
proof -
  obtain c1 where c1: "EnsureInformer am obj c = (None, c1)" "ca_lru c1 = ca_lru c"
    using EnsureInformer_frame [of am obj c] assms(2) by (cases "EnsureInformer am obj c") simp
  from assms(3) obtain lru where lru: "ca_lru c = Some lru" by auto
  with assms(1) have i: "lru_inv lru" by (simp add: cache_inv_def option_coherent_def lru_coherent_def)
  let ?k = "lruKey g ns name"
  obtain hit lru1 where g: "lru_get ?k lru = (hit, lru1)" by fastforce
  with lru.get_law [OF i, of ?k] have G: "hit = lru_view lru ?k" "lru_inv lru1" "lru_view lru1 = lru_view lru" by simp_all
  note hit = lru.get_law [OF G(2), of ?k] and put = lru.put_law [OF G(2), of ?k]
  have put_hit: "fst (lru_get ?k (lru_put ?k u lru1)) = Some u" for u
    using put [of u] lru.get_law [of "lru_put ?k u lru1" ?k] by simp
  from assms(2,4) c1 lru g G(1,3) hit put_hit show ?thesis
    by (auto simp: Cache_Get_def Let_def split: option.splits sum.splits)
qed

text \<open>A second read of an object that the LRU holds does not look at the store.\<close>

lemma Cache_Get_hit:
  assumes "GVKForObject am obj = Inr g" "ca_lru c = Some lru" "fst (lru_get (lruKey g ns name) lru) = Some u"
  shows "\<exists>c'. Cache_Get am ns name obj c = Some ((case FromUnstructured am u obj of Inl e \<Rightarrow> Inl (CacheConversion e) | Inr obj' \<Rightarrow> Inr obj'), c')"
proof -
  obtain c1 where c1: "EnsureInformer am obj c = (None, c1)" "ca_lru c1 = ca_lru c"
    using EnsureInformer_frame [of am obj c] assms(1) by (cases "EnsureInformer am obj c") simp
  with assms show ?thesis
    by (cases "lru_get (lruKey g ns name) lru") (simp add: Cache_Get_def Let_def)
qed

section \<open>Waiting for the informers\<close>

definition all_synced :: "(gvk, informer) gomap \<Rightarrow> bool" where
  "all_synced nfs \<longleftrightarrow> list_all (\<lambda>(g, nf). inf_hasSynced nf) nfs"

lemma WaitForCacheSync_find:
  "WaitForCacheSync polls =
     map_option (\<lambda>(ended, nfs, ended2). \<not> ended \<and> all_synced nfs)
       (find (\<lambda>(ended, nfs, ended2). ended \<or> all_synced nfs \<or> ended2) polls)"
  by (induction polls rule: WaitForCacheSync.induct) (auto simp: all_synced_def)

end
