(* ===== verification/Cache_Samples.thy ===== *)
theory Cache_Samples
  imports Store_Samples Informer_Run Cache_Coherence
begin

text \<open>
  The concrete inputs of the witnesses about caches, informers and clients: an API machinery that names every object \<open>ns/a\<close>,
  finds the kind \<open>Pod\<close> in every object and knows no typed objects, and an informer with one handler.
\<close>

definition sample_am :: "unit api_machinery" where
  "sample_am = \<lparr>am_ObjectKinds = (\<lambda>_. ([], Some ''not registered'')), am_TypeMeta = (\<lambda>_. core_gvk ''Pod''),
     am_GetNamespace = (\<lambda>_. ''ns''), am_GetName = (\<lambda>_. ''a''), am_ToMap = (\<lambda>_. Inl ''unsupported''),
     am_FromMap = (\<lambda>_ _. Inl ''unsupported''), am_SetGVK = (\<lambda>_ u. u)\<rparr>"

lemma sample_gvk: "GVKForObject sample_am obj = Inr (core_gvk ''Pod'')" "GVKFromObject sample_am obj = (core_gvk ''Pod'', None)"
  by (simp_all add: GVKForObject_def GVKFromObject_def sample_am_def core_gvk_def)

lemma sample_slash_free: "gvk_slash_free (core_gvk ''Pod'')" "slash_free ''ns''"
  by (simp_all add: gvk_slash_free_def slash_free_def core_gvk_def)

lemma sample_key: "store_key sample_am (core_gvk ''Pod'') obj = pod_key ''a''"
  by (simp add: store_key_def sample_am_def pod_key_def)

definition sample_informer :: informer where
  "sample_informer = (AddEventHandler 1 (NewGVKInformer (core_gvk ''Pod'') (GVRFromGVK (core_gvk ''Pod'')) ''''))"

lemma sample_inf_key: "inf_key sample_am sample_informer u = pod_key ''a''"
  by (simp add: inf_key_def sample_informer_def AddEventHandler_def NewGVKInformer_def sample_key)

lemma sample_handlers: "inf_handlers sample_informer = [1]" "inf_namespace sample_informer = ''''" "\<not> inf_hasSynced sample_informer"
  by (simp_all add: sample_informer_def AddEventHandler_def NewGVKInformer_def)

lemma pod_key_fold: "\<lparr>key_gvk = core_gvk ''Pod'', key_namespace = ''ns'', key_name = name\<rparr> = pod_key name"
  by (simp add: pod_key_def)

lemma sample_key_ok: "key_ok (pod_key name)"
  by (simp add: key_ok_def pod_key_def sample_slash_free)

end
