(* ===== verification/Cache_Properties.thy ===== *)
theory Cache_Properties
  imports Cache_Samples
begin

text \<open>
  The properties of the LRU cache, the keys and the indexer, each with a witness on the concrete values of \<open>Cache_Samples\<close>.
\<close>

section \<open>LRU cache\<close>

text \<open>
  C9 (refinement): the LRU cache, with its map, its list and the pointers between them, is a list of key/value pairs in order of use: get moves
  a hit to the front, put sets the front and drops the back when the cache is full, delete removes one key. The pointers stay consistent and the
  size is at most the capacity.
\<close>

theorem lru_refines_list:
  assumes "lru_inv c"
  shows "(fst (lru_get k c), lru_abs (snd (lru_get k c))) = spec_get k (lru_abs c) \<and>
    lru_abs (lru_put k v c) = spec_put (nat (lru_capacity c)) k v (lru_abs c) \<and>
    lru_abs (lru_delete k c) = AList.delete k (lru_abs c) \<and>
    lru_inv (snd (lru_get k c)) \<and> lru_inv (lru_put k v c) \<and> lru_inv (lru_delete k c) \<and>
    lru_len c = length (lru_abs c) \<and> int (lru_len c) \<le> lru_capacity c"
  using lru_get_correct [OF assms] lru_put_correct [OF assms] lru_delete_correct [OF assms] lru_len_abs [OF assms] lru_bound [OF assms]
  by (simp add: prod_eq_iff)

theorem lru_refines_list_witness:
  "lru_abs (lru_put ''a'' (1 :: nat) (newLRUCache 0)) = [(''a'', 1)]"
  using lru_refines_list [OF lru_inv_new [of 0], of "''a''" "1 :: nat"]
  by (simp add: spec_put_def newLRUCache_def lru_abs_def list_New_def)

text \<open>
  A hit is never wrong. Whatever sequence of gets, puts and deletes has run on a new cache of whatever capacity, a get that hits returns the value
  last put under the key, and the key has not been deleted since.
\<close>

lemma lru_hits_last_put:
  assumes "fst (lru_get k (lru_run ps (newLRUCache n))) = Some v"
  shows "fold kv_spec ps (\<lambda>_. None) k = Some v"
  using lru.hit_after_run [OF lru_inv_new lru_view_new assms] .

text \<open>
  An entry survives as long as its place lasts: after a put, any sequence of fewer operations on other keys than the
  capacity leaves the key in the cache, with its value.
\<close>

lemma lru_keeps_recent:
  assumes "lru_inv c" "\<forall>p\<in>set ps. kv_key p \<noteq> k" "int (length ps) < lru_capacity c"
  shows "fst (lru_get k (lru_run ps (lru_put k v c))) = Some v"
  using assms by (rule lru_survives)

section \<open>Keys\<close>

text \<open>
  The LRU key and the printed GVK are injective on names without slashes, so two objects of the cluster never share an LRU entry.
\<close>

lemma lru_key_injective:
  assumes "gvk_slash_free g" "gvk_slash_free h" "slash_free ns" "slash_free ns'"
  shows "(lruKey g ns name = lruKey h ns' name' \<longleftrightarrow> g = h \<and> ns = ns' \<and> name = name') \<and> (GVKToString g = GVKToString h \<longleftrightarrow> g = h)"
  using lruKey_inject [OF assms] GVKToString_inject [OF assms(1,2)] by simp

section \<open>Indexer\<close>

text \<open>
  C11 (functional): after any sequence of updates and removals, Lookup returns each key once, and exactly the keys whose last indexed object
  (not removed since) yields the value under the index function of the field.
\<close>

theorem lookup_exact:
  assumes "index_inv idx" "reflects idx m"
  shows "distinct (Lookup g f v (fold index_step ps idx)) \<and>
    set (Lookup g f v (fold index_step ps idx)) = {k. \<exists>obj. fold index_spec ps m k = Some obj \<and> key_gvk k = g \<and> yields idx g f obj v}"
proof -
  let ?idx = "fold index_step ps idx"
  from index_run_correct [OF assms, of ps] have r: "index_inv ?idx" "reflects ?idx (fold index_spec ps m)" "idx_funcs ?idx = idx_funcs idx"
    by auto
  have "yields ?idx = yields idx" by (simp add: yields_def fun_eq_iff r(3))
  with r show ?thesis by (auto simp: Lookup_distinct Lookup_indexed reflects_def)
qed

definition sample_indexer :: "string indexer" where
  "sample_indexer = snd (AddIndex (core_gvk ''Pod'') ''self'' (\<lambda>s. [s]) NewIndexer)"

lemma sample_indexer_ok: "index_inv sample_indexer" "reflects sample_indexer (\<lambda>_. None)"
  using AddIndex_correct(1,2) [OF index_inv_new, of "core_gvk ''Pod''" "''self''" "\<lambda>s. [s]"]
  by (simp_all add: sample_indexer_def reflects_def) (simp add: indexed_def data_at_def NewIndexer_def)

theorem lookup_exact_witness:
  "set (Lookup (core_gvk ''Pod'') ''self'' ''y'' (fold index_step
      [IndexUpdate (pod_key ''a'') ''x'', IndexUpdate (pod_key ''b'') ''y'', IndexUpdate (pod_key ''a'') ''y'', IndexRemove (pod_key ''b'')] sample_indexer))
    = {pod_key ''a''}"
proof -
  have "yields sample_indexer (core_gvk ''Pod'') ''self'' s v \<longleftrightarrow> v = s" for s v
    by (simp add: yields_def sample_indexer_def AddIndex_def NewIndexer_def go_ensure_def go_mod_def)
  moreover have "pod_key ''a'' \<noteq> pod_key ''b''" "key_gvk (pod_key n) = core_gvk ''Pod''" for n by (simp_all add: pod_key_def)
  ultimately show ?thesis
    using lookup_exact [OF sample_indexer_ok, of "core_gvk ''Pod''" "''self''" "''y''"
        "[IndexUpdate (pod_key ''a'') ''x'', IndexUpdate (pod_key ''b'') ''y'', IndexUpdate (pod_key ''a'') ''y'', IndexRemove (pod_key ''b'')]"]
    by (auto split: if_splits)
qed

text \<open>
  AddIndex fails exactly when the GVK has an index of that name, and then the registered function stays; otherwise the function is registered. The
  objects that are indexed already stay as they were, without values for the new index.
\<close>

lemma add_index_once:
  assumes "index_inv idx" "AddIndex g f fn idx = (err, idx')"
  defines "registered \<equiv> \<exists>fs. go_get (idx_funcs idx) g = Some fs \<and> go_get fs f \<noteq> None"
  shows "err = (if registered then Some (IndexExists g f) else None) \<and> index_inv idx' \<and> indexed idx' = indexed idx \<and>
    (registered \<longrightarrow> idx_funcs idx' = idx_funcs idx) \<and> (\<not> registered \<longrightarrow> (\<forall>obj v. yields idx' g f obj v \<longleftrightarrow> v \<in> set (fn obj)))"
  using AddIndex_correct [OF assms(1), of g f fn] assms(2) unfolding registered_def
  by (auto simp: AddIndex_def Let_def yields_def gomap_simps go_ensure_def go_mod_def split: if_splits option.splits)

end
