(* ===== verification/Informer_Exec.thy ===== *)
theory Informer_Exec
  imports Informer_Run
begin

text \<open>
  \<open>Run\<close> as a function: what the goroutine does with the next thing that happens to it. The step relation \<open>run_step\<close> is the graph of this function, so a run is determined by what it receives, and a
  trace can be computed.
\<close>

definition listed_with ::
    "'t api_machinery \<Rightarrow> 't run_state \<Rightarrow> go_error + (gobj list \<times> string) \<Rightarrow>
     (informer_error \<Rightarrow> 't cached \<Rightarrow> 't run_state) \<Rightarrow> (string \<Rightarrow> 't cached \<Rightarrow> 't run_state) \<Rightarrow> 't run_state option" where
  "listed_with am s reply failed stored =
     map_option (\<lambda>(rv, err, d). case err of None \<Rightarrow> stored rv d | Some e \<Rightarrow> failed e d)
       (informer_list am (rs_informer s) reply (rs_cached s))"

definition run_next :: "'t api_machinery \<Rightarrow> 't run_state \<Rightarrow> run_label \<Rightarrow> 't run_state option" where
  "run_next am s l =
     (case rs_phase s of
        InitialList \<Rightarrow>
          (case l of
             ListReply reply \<Rightarrow>
               listed_with am s reply
                 (\<lambda>e d. s\<lparr>rs_cached := d, rs_phase := Finished (InitialListFailed e)\<rparr>)
                 (\<lambda>rv d. s\<lparr>rs_informer := (rs_informer s)\<lparr>inf_hasSynced := True\<rparr>, rs_cached := d, rs_phase := LoopTop rv, rs_backoff := second\<rparr>)
           | _ \<Rightarrow> None)
      | LoopTop rv \<Rightarrow>
          (case l of
             CtxDone \<Rightarrow> Some (s\<lparr>rs_phase := Finished CtxErr\<rparr>)
           | CtxAlive \<Rightarrow> Some (s\<lparr>rs_phase := WatchCall rv\<rparr>)
           | _ \<Rightarrow> None)
      | WatchCall rv \<Rightarrow>
          (case l of
             WatchReply err \<Rightarrow> Some (s\<lparr>rs_phase := (case err of Some e \<Rightarrow> AfterWatch (WatchFailed e) | None \<Rightarrow> WatchSelect)\<rparr>)
           | _ \<Rightarrow> None)
      | WatchSelect \<Rightarrow>
          (case l of
             CtxDone \<Rightarrow> Some (s\<lparr>rs_phase := Finished CtxErr\<rparr>)
           | WatchClosed \<Rightarrow> Some (s\<lparr>rs_phase := AfterWatch ChannelClosed\<rparr>)
           | WatchEvent ev \<Rightarrow>
               map_option (\<lambda>(err, d, calls).
                   s\<lparr>rs_cached := d, rs_calls := rs_calls s @ calls, rs_phase := (case err of None \<Rightarrow> WatchSelect | Some e \<Rightarrow> AfterWatch e)\<rparr>)
                 (handleEvent am (rs_informer s) ev (rs_cached s))
           | _ \<Rightarrow> None)
      | AfterWatch e \<Rightarrow>
          (case l of
             CtxDone \<Rightarrow> Some (s\<lparr>rs_phase := Finished CtxErr\<rparr>)
           | CtxAlive \<Rightarrow> Some (s\<lparr>rs_phase := BackoffWait\<rparr>)
           | _ \<Rightarrow> None)
      | BackoffWait \<Rightarrow>
          (case l of
             CtxDone \<Rightarrow> Some (s\<lparr>rs_phase := Finished CtxErr\<rparr>)
           | Timer \<Rightarrow> Some (s\<lparr>rs_backoff := next_backoff (rs_backoff s), rs_phase := Relist\<rparr>)
           | _ \<Rightarrow> None)
      | Relist \<Rightarrow>
          (case l of
             ListReply reply \<Rightarrow>
               listed_with am s reply
                 (\<lambda>e d. s\<lparr>rs_cached := d, rs_phase := RelistWait\<rparr>)
                 (\<lambda>rv d. s\<lparr>rs_cached := d, rs_backoff := second, rs_phase := LoopTop rv\<rparr>)
           | _ \<Rightarrow> None)
      | RelistWait \<Rightarrow>
          (case l of
             CtxDone \<Rightarrow> Some (s\<lparr>rs_phase := Finished CtxErr\<rparr>)
           | Timer \<Rightarrow> Some (s\<lparr>rs_backoff := next_backoff (rs_backoff s), rs_phase := LoopTop ''''\<rparr>)
           | _ \<Rightarrow> None)
      | Finished r \<Rightarrow> None)"

definition run_all :: "'t api_machinery \<Rightarrow> run_label list \<Rightarrow> 't run_state \<Rightarrow> 't run_state option" where
  "run_all am = foldM (\<lambda>l s. run_next am s l)"

lemma run_next_step: "run_step am s l t \<Longrightarrow> run_next am s l = Some t"
  by (induction rule: run_step.induct) (simp_all add: run_next_def listed_with_def)

lemma run_step_next:
  assumes "run_next am s l = Some t"
  shows "run_step am s l t"
proof (cases "rs_phase s")
  case InitialList
  with assms obtain reply rv err d where "l = ListReply reply" "informer_list am (rs_informer s) reply (rs_cached s) = Some (rv, err, d)"
    by (auto simp: run_next_def listed_with_def split: run_label.splits)
  with assms InitialList show ?thesis
    by (cases err) (auto simp: run_next_def listed_with_def dest: initial_list_ok intro: initial_list_error)
next
  case Relist
  with assms obtain reply rv err d where "l = ListReply reply" "informer_list am (rs_informer s) reply (rs_cached s) = Some (rv, err, d)"
    by (auto simp: run_next_def listed_with_def split: run_label.splits)
  with assms Relist show ?thesis
    by (cases err) (auto simp: run_next_def listed_with_def dest: relist_ok intro: relist_error)
next
  case WatchSelect
  with assms show ?thesis
    by (auto simp: run_next_def split: run_label.splits simp del: option.case_eq_if intro: select_event select_done select_closed)
qed (use assms in \<open>auto simp: run_next_def split: run_label.splits option.splits intro: run_step.intros\<close>)

lemma run_trace_all: "run_trace am s ls t \<longleftrightarrow> run_all am ls s = Some t"
proof
  assume "run_trace am s ls t"
  then show "run_all am ls s = Some t"
    by (induction rule: run_trace.induct) (simp_all add: run_all_def foldM_append run_next_step)
next
  show "run_all am ls s = Some t \<Longrightarrow> run_trace am s ls t"
  proof (induction ls arbitrary: t rule: rev_induct)
    case Nil
    then show ?case by (simp add: run_all_def trace_nil)
  next
    case (snoc l ls)
    then show ?case
      by (auto simp: run_all_def foldM_append split: option.splits intro: trace_snoc run_step_next)
  qed
qed

end
