(* ===== verification/Informer_Properties.thy ===== *)
theory Informer_Properties
  imports Cache_Samples Informer_Exec
begin

text \<open>
  The properties of the informers: what a run does to the store and the indexer, when it is stuck, how long it waits and from where it
  watches.
\<close>

section \<open>A sample run\<close>

text \<open>A run grows by any label that its phase offers.\<close>

lemma run_trace_enabled:
  assumes "run_trace am s ls t" "mirrors (rs_cached s) m" "\<forall>l\<in>set ls. label_ok l" "label_ok l" "offers (rs_phase t) l"
  shows "\<exists>u. run_trace am s (ls @ [l]) u \<and> run_step am t l u"
proof -
  from run_trace_mirrors [OF assms(1-3)] have "mirrors (rs_cached t) (fold (label_update am (rs_informer s)) ls m)" by simp
  from run_step_enabled [OF this assms(4,5)] assms(1) show ?thesis by (blast intro: trace_snoc)
qed

definition sample_labels :: "run_label list" where
  "sample_labels = [ListReply (Inr ([pod ''n1''], ''5'')), CtxAlive, WatchReply None]"

lemma sample_labels_ok: "\<forall>l\<in>set sample_labels. label_ok l"
  by (simp add: sample_labels_def del: tree_ok.simps)

lemma sample_run:
  "\<exists>s. run_trace sample_am (run_init sample_informer empty_cached) sample_labels s \<and> rs_phase s = WatchSelect"
proof -
  have ok: "label_ok (ListReply (Inr ([pod ''n1''], ''5'')))" by (simp del: tree_ok.simps)
  from informer_list_returns [OF mirrors_empty ok, of sample_am sample_informer]
  obtain d where d: "informer_list sample_am sample_informer (Inr ([pod ''n1''], ''5'')) empty_cached = Some (''5'', None, d)"
    by (auto simp: returns_iff)
  let ?s0 = "run_init sample_informer empty_cached :: unit run_state"
  have 0: "run_trace sample_am ?s0 [] ?s0" by (rule trace_nil)
  have 1: "run_step sample_am ?s0 (ListReply (Inr ([pod ''n1''], ''5'')))
      (?s0\<lparr>rs_informer := (rs_informer ?s0)\<lparr>inf_hasSynced := True\<rparr>, rs_cached := d, rs_phase := LoopTop ''5'', rs_backoff := second\<rparr>)"
    by (rule initial_list_ok) (simp_all add: run_init_def d)
  note 2 = trace_snoc [OF trace_snoc [OF trace_snoc [OF 0 1] loop_alive] watch_ok]
  show ?thesis by (intro exI conjI, unfold sample_labels_def) (rule 2 [simplified], simp_all)
qed

text \<open>A run whose first relist fails: the watch fails, the informer waits, lists in vain and waits again.\<close>

definition failing_labels :: "run_label list" where
  "failing_labels = [ListReply (Inr ([], ''5'')), CtxAlive, WatchReply (Some ''gone''), CtxAlive, Timer, ListReply (Inl ''refused''), Timer, CtxAlive]"

lemma failing_run:
  "\<exists>s. run_trace sample_am (run_init sample_informer empty_cached) failing_labels s \<and> rs_phase s = WatchCall '''' \<and> rs_backoff s = 4 * second"
proof -
  let ?s0 = "run_init sample_informer empty_cached :: unit run_state"
  note step = trace_snoc [rotated]
  have 0: "run_trace sample_am ?s0 [] ?s0" by (rule trace_nil)
  have 1: "run_step sample_am ?s0 (ListReply (Inr ([], ''5'')))
      (?s0\<lparr>rs_informer := (rs_informer ?s0)\<lparr>inf_hasSynced := True\<rparr>, rs_cached := empty_cached, rs_phase := LoopTop ''5'', rs_backoff := second\<rparr>)"
    by (rule initial_list_ok) (simp_all add: run_init_def informer_list_def)
  note a = trace_snoc [OF trace_snoc [OF trace_snoc [OF 0 1] loop_alive] watch_error]
  note b = trace_snoc [OF trace_snoc [OF a after_alive] backoff_timer]
  note c = trace_snoc [OF trace_snoc [OF trace_snoc [OF b relist_error] relist_timer] loop_alive]
  show ?thesis
    by (intro exI conjI, unfold failing_labels_def)
       (rule c [simplified], simp_all add: informer_list_def next_backoff_def maxBackoff_def second_def)
qed

section \<open>Properties\<close>

text \<open>
  C3 (refinement): an informer mirrors the API server. Started on a store and an indexer that hold the objects of \<open>m\<close>, whatever lists, events, errors, timers and
  reconnects its Run goes through, the store and the indexer hold exactly what the items and events received say, applied to \<open>m\<close> in order, and Get returns it.
\<close>

theorem informer_mirrors:
  assumes "run_trace am (run_init nf d) ls s" "mirrors d m" "\<forall>l\<in>set ls. label_ok l"
  defines "m' \<equiv> fold (label_update am nf) ls m"
  shows "mirrors (rs_cached s) m' \<and>
    returns (Get key (cd_store (rs_cached s))) (\<lambda>r. map_option (\<lambda>u. sem (GMap u)) r = map_option (\<lambda>u. sem (GMap u)) (m' key))"
proof -
  from run_trace_mirrors [OF assms(1) _ assms(3)] assms(2) have "mirrors (rs_cached s) m'"
    by (simp add: run_init_def m'_def)
  then show ?thesis using holds_get by blast
qed

theorem informer_mirrors_witness:
  "\<exists>s. run_trace sample_am (run_init sample_informer empty_cached) sample_labels s \<and>
     returns (Get (pod_key ''a'') (cd_store (rs_cached s))) (\<lambda>r. map_option (\<lambda>u. sem (GMap u)) r = Some (sem (GMap (pod ''n1''))))"
proof -
  have m: "fold (label_update sample_am sample_informer) sample_labels (\<lambda>_. None) = [pod_key ''a'' \<mapsto> pod ''n1'']"
    by (simp add: sample_labels_def items_update_def sample_inf_key)
  from sample_run obtain s where s: "run_trace sample_am (run_init sample_informer empty_cached) sample_labels s" by blast
  from informer_mirrors [OF s mirrors_empty sample_labels_ok, of "pod_key ''a''"] s show ?thesis
    by (auto simp: m simp del: sem.simps)
qed

text \<open>
  C20 (functional): handleEvent on every event: an addition or a modification stores and indexes the object, a deletion removes it, bookmarks and unknown types change nothing, an error
  event and an event without an object report an error. Each handler is called once, in order: OnAdd for an addition and for a modification of an object that was not there,
  OnUpdate with the stored object for any other modification, OnDelete for a deletion.
\<close>

theorem handle_event_effects:
  assumes "mirrors d m" "event_ok ev"
  shows "returns (handleEvent am nf ev d) (\<lambda>(err, d', calls). mirrors d' (event_update am nf ev m) \<and> err = event_error ev \<and>
    calls_ok nf ev (case ev_object ev of None \<Rightarrow> None | Some u \<Rightarrow> m (inf_key am nf u)) calls)"
proof (cases "ev_object ev")
  case None
  with assms(1) show ?thesis
    by (cases "ev_type ev") (auto simp: handleEvent_def event_update_def event_error_def calls_ok_def)
next
  case (Some u)
  with handleEvent_correct [OF assms, of am nf] show ?thesis by (auto elim!: returns_mono)
qed

theorem handle_event_effects_witness:
  "returns (handleEvent sample_am sample_informer \<lparr>ev_type = Modified, ev_object = Some (pod ''n1'')\<rparr> empty_cached)
     (\<lambda>(err, d', calls). mirrors d' [pod_key ''a'' \<mapsto> pod ''n1''] \<and> err = None \<and> calls = [OnAdd 1 (pod ''n1'')])"
proof -
  have "event_ok \<lparr>ev_type = Modified, ev_object = Some (pod ''n1'')\<rparr>" by (simp add: event_ok_def del: tree_ok.simps)
  from handle_event_effects [OF mirrors_empty this, of sample_am sample_informer] show ?thesis
    by (auto simp: event_update_def event_error_def calls_ok_def sample_inf_key sample_handlers elim!: returns_mono)
qed

text \<open>
  C18 (liveness): a run is never stuck. In whatever state a run is, it can take exactly the steps its phase waits for: a reply of the server, an event or the end of the
  channel, a timer, and in every wait the end of the context, which ends the run. Only a finished run waits for nothing. What it does next is determined by what it receives: the steps are those of the function \<open>run_next\<close>, and
  the state reached is the one that \<open>run_all\<close> computes.
\<close>

theorem run_never_stuck:
  assumes "run_trace am (run_init nf d) ls s" "mirrors d m" "\<forall>l\<in>set ls. label_ok l"
  shows "(label_ok l \<longrightarrow> (\<exists>t. run_step am s l t) = offers (rs_phase s) l) \<and>
    (offers (rs_phase s) CtxDone \<longrightarrow> (\<exists>t. run_step am s CtxDone t) \<and> (\<forall>t. run_step am s CtxDone t \<longrightarrow> rs_phase t = Finished CtxErr)) \<and>
    ((\<forall>l. \<not> offers (rs_phase s) l) = (\<exists>r. rs_phase s = Finished r)) \<and>
    run_step am s l = (\<lambda>t. run_next am s l = Some t) \<and> run_all am ls (run_init nf d) = Some s"
proof (intro conjI impI)
  from run_trace_mirrors [OF assms(1) _ assms(3)] assms(2)
  have M: "mirrors (rs_cached s) (fold (label_update am nf) ls m)" by (simp add: run_init_def)
  show "(\<exists>t. run_step am s l t) = offers (rs_phase s) l" if "label_ok l"
    using run_step_enabled [OF M that] run_step_offers by blast
  show "\<exists>t. run_step am s CtxDone t" if "offers (rs_phase s) CtxDone"
    using run_step_enabled [OF M _ that] by simp
  show "\<forall>t. run_step am s CtxDone t \<longrightarrow> rs_phase t = Finished CtxErr" by (auto elim: run_stepE)
  show "(\<forall>l. \<not> offers (rs_phase s) l) = (\<exists>r. rs_phase s = Finished r)"
    by (simp add: offers_none)
  show "run_step am s l = (\<lambda>t. run_next am s l = Some t)" using run_next_step run_step_next by (metis (no_types))
  show "run_all am ls (run_init nf d) = Some s" using assms(1) by (simp add: run_trace_all)
qed

theorem run_never_stuck_witness:
  "\<exists>s t. run_trace sample_am (run_init sample_informer empty_cached) sample_labels s \<and>
     run_step sample_am s (WatchEvent \<lparr>ev_type = Deleted, ev_object = Some (pod ''n1'')\<rparr>) t"
proof -
  from sample_run obtain s where
    s: "run_trace sample_am (run_init sample_informer empty_cached) sample_labels s" "rs_phase s = WatchSelect" by blast
  have "event_ok \<lparr>ev_type = Deleted, ev_object = Some (pod ''n1'')\<rparr>" by (simp add: event_ok_def del: tree_ok.simps)
  with run_never_stuck [OF s(1) mirrors_empty sample_labels_ok, of "WatchEvent \<lparr>ev_type = Deleted, ev_object = Some (pod ''n1'')\<rparr>"] s
  show ?thesis by auto
qed

text \<open>
  C24 (bounds): the waits of Run in closed form. With \<open>n\<close> lists failed since the last one that succeeded, the wait before a relist is \<open>4^n\<close> seconds and the wait after a failed relist
  \<open>2 * 4^(n-1)\<close> seconds, both at most 30; the backoff never leaves the range from 1 to 30 seconds. So a watch that fails again and again while the lists in between succeed is retried every second.
  The informer counts as synced exactly from its first successful list on.
\<close>

theorem backoff_exact:
  assumes "run_trace am (run_init nf d) ls s" "\<not> inf_hasSynced nf"
  shows "second \<le> rs_backoff s \<and> rs_backoff s \<le> 30 * second \<and>
    (rs_phase s = BackoffWait \<longrightarrow> rs_backoff s = min (4 ^ failed_lists ls * second) (30 * second)) \<and>
    (rs_phase s = RelistWait \<longrightarrow> 0 < failed_lists ls \<and> rs_backoff s = min (2 * 4 ^ (failed_lists ls - 1) * second) (30 * second)) \<and>
    (inf_hasSynced (rs_informer s) = (rs_phase s \<noteq> InitialList \<and> (\<forall>e. rs_phase s \<noteq> Finished (InitialListFailed e))))"
proof -
  have start: "rs_phase (run_init nf d) = InitialList" by (simp add: run_init_def)
  from run_inv_trace [OF assms(1) run_inv_init [OF assms(2)]] backoff_inv_trace [OF assms(1) start]
  show ?thesis by (auto simp: run_inv_def backoff_inv_def waits_even waits_odd [unfolded One_nat_def] maxBackoff_def)
qed

theorem backoff_exact_witness:
  "\<exists>s. run_trace sample_am (run_init sample_informer empty_cached) failing_labels s \<and> rs_backoff s = 4 * second \<and> rs_backoff s \<le> 30 * second"
proof -
  from failing_run obtain s where s: "run_trace sample_am (run_init sample_informer empty_cached) failing_labels s" "rs_backoff s = 4 * second" by blast
  from backoff_exact [OF s(1) sample_handlers(3)] s show ?thesis by blast
qed

text \<open>
  C37 (functional): every watch starts from the resource version of the list before it, and from the empty version, which asks the server for any state it has, when that list failed.
\<close>

theorem watch_starts_at_last_list:
  assumes "run_trace am (run_init nf d) ls s" "rs_phase s = WatchCall rv"
  shows "watch_request (rs_informer s) rv = (inf_gvr nf, snd (list_request nf), last_rv ls) \<and> list_request (rs_informer s) = list_request nf"
proof -
  have start: "rs_phase (run_init nf d) = InitialList" by (simp add: run_init_def)
  from rv_inv_trace [OF assms(1) start] assms(2) have "rv = last_rv ls" by (simp add: rv_inv_def)
  moreover from run_trace_source [OF assms(1)] have "same_source nf (rs_informer s)" by (simp add: run_init_def)
  ultimately show ?thesis by (simp add: watch_request_def list_request_def same_source_def)
qed

theorem watch_starts_at_last_list_witness:
  "\<exists>s. run_trace sample_am (run_init sample_informer empty_cached) failing_labels s \<and>
     watch_request (rs_informer s) '''' = (GVRFromGVK (core_gvk ''Pod''), None, '''')"
proof -
  from failing_run obtain s where s: "run_trace sample_am (run_init sample_informer empty_cached) failing_labels s" "rs_phase s = WatchCall ''''" by blast
  have "last_rv failing_labels = ''''" by (simp add: last_rv_def failing_labels_def)
  with watch_starts_at_last_list [OF s] s(1) show ?thesis
    by (auto simp: list_request_def sample_informer_def AddEventHandler_def NewGVKInformer_def)
qed

text \<open>
  A list stores its items, the last one of each key, and touches no other key: an object that was deleted while the informer was disconnected is
  in no reply and stays in the store and in the indexer.
\<close>

lemma list_merges:
  assumes "mirrors d m" "\<forall>u\<in>set items. tree_ok (GMap u)"
  shows "returns (informer_list am nf (Inr (items, rv)) d) (\<lambda>(rv', err, d'). rv' = rv \<and> err = None \<and>
    mirrors d' (\<lambda>key. case listed am nf items key of None \<Rightarrow> m key | Some u \<Rightarrow> Some u))"
  using informer_list_correct [OF assms, of am nf rv] by (simp add: items_update_listed [abs_def] cong: option.case_cong)

end
