(* ===== verification/Cache_Lists.thy ===== *)
theory Cache_Lists
  imports Cache_Coherence
begin

text \<open>
  What \<open>Cache.List\<close> asks the store for. Of the label and field requirements it passes on the equalities only, in maps, so that of several equalities on one key the last is the
  one that counts; \<open>requested\<close> says which objects that selects, in terms of the options of the caller.
\<close>

definition equality :: "string \<times> sel_op \<times> string list \<Rightarrow> bool" where
  "equality = (\<lambda>(key, op, vals). op \<in> {OpEquals, OpDoubleEquals, OpIn} \<and> length vals = 1)"

definition field_equality :: "string \<times> string \<times> string \<Rightarrow> bool" where
  "field_equality = (\<lambda>(field, op, value). op = ''='' \<or> op = ''=='')"

definition label_of :: "(string, string) gomap \<Rightarrow> string \<Rightarrow> string" where
  "label_of labels key = (case go_get labels key of None \<Rightarrow> '''' | Some x \<Rightarrow> x)"

text \<open>The requirements that count: those that satisfy \<open>P\<close> and that no later one on the same key overwrites.\<close>

fun in_force :: "('r \<Rightarrow> bool) \<Rightarrow> ('r \<Rightarrow> 'k) \<Rightarrow> 'r list \<Rightarrow> 'r list" where
  "in_force P k [] = []"
| "in_force P k (r # rs) = (if P r \<and> \<not> list_ex (\<lambda>r'. P r' \<and> k r' = k r) rs then r # in_force P k rs else in_force P k rs)"

lemma in_force_distinct: "distinct (map k rs) \<Longrightarrow> in_force P k rs = filter P rs"
  by (induction rs) (auto simp: list_ex_iff image_iff)

lemma in_force_snoc: "in_force P k (rs @ [r]) = filter (\<lambda>r'. \<not> (P r \<and> k r' = k r)) (in_force P k rs) @ (if P r then [r] else [])"
  by (induction rs) auto

definition requested ::
    "(64 word \<Rightarrow> string) \<Rightarrow> (gobj \<Rightarrow> (string, string) gomap) \<Rightarrow> client_list_options \<Rightarrow> object_key \<Rightarrow> gobj \<Rightarrow> bool" where
  "requested ff get_labels lo key obj \<longleftrightarrow>
     (clo_namespace lo = '''' \<or> key_namespace key = clo_namespace lo) \<and>
     (case clo_labels lo of
        Some (reqs, True) \<Rightarrow> list_all (\<lambda>(k, op, vals). label_of (get_labels obj) k = hd vals) (in_force equality fst reqs)
      | _ \<Rightarrow> True) \<and>
     (case clo_fields lo of
        Some reqs \<Rightarrow> list_all (\<lambda>(f, op, v). fieldMatches ff obj f v) (in_force field_equality fst reqs)
      | None \<Rightarrow> True)"

definition fold_put :: "('r \<Rightarrow> bool) \<Rightarrow> ('r \<Rightarrow> 'k) \<Rightarrow> ('r \<Rightarrow> 'v) \<Rightarrow> 'r list \<Rightarrow> ('k, 'v) gomap \<Rightarrow> ('k, 'v) gomap" where
  "fold_put P k v reqs = fold (\<lambda>r m. if P r then go_put (k r) (v r) m else m) reqs"

lemma go_put_set: "distinct (go_keys m) \<Longrightarrow> set (go_put k v m) = insert (k, v) {e \<in> set m. fst e \<noteq> k}"
  by (induction m) (auto simp: image_iff)

lemma fold_put_set:
  "distinct (go_keys (fold_put P k v reqs [])) \<and> set (fold_put P k v reqs []) = (\<lambda>r. (k r, v r)) ` set (in_force P k reqs)"
proof (induction reqs rule: rev_induct)
  case Nil
  show ?case by (simp add: fold_put_def)
next
  case (snoc r reqs)
  have "fold_put P k v (reqs @ [r]) [] = (if P r then go_put (k r) (v r) (fold_put P k v reqs []) else fold_put P k v reqs [])"
    by (simp add: fold_put_def)
  with snoc show ?case by (auto simp: in_force_snoc go_put_set)
qed

lemma list_all_fold_put: "list_all Q (fold_put P k v reqs []) \<longleftrightarrow> list_all (\<lambda>r. Q (k r, v r)) (in_force P k reqs)"
  using fold_put_set [where k = k and P = P and v = v and reqs = reqs] by (simp add: list_all_iff)

lemma label_map_fold: "label_map reqs = fold_put equality fst (\<lambda>r. hd (snd (snd r))) reqs []"
  unfolding label_map_def fold_put_def by (rule arg_cong [where f = "\<lambda>f. fold f reqs []"]) (auto simp: equality_def fun_eq_iff)

lemma labelsMatch_map:
  "labelsMatch labels (label_map reqs) \<longleftrightarrow> list_all (\<lambda>(k, op, vals). label_of labels k = hd vals) (in_force equality fst reqs)"
  by (simp add: labelsMatch_def label_of_def label_map_fold list_all_fold_put case_prod_unfold)

text \<open>The options, applied.\<close>

abbreviation field_map :: "(string \<times> string \<times> string) list \<Rightarrow> (string, string) gomap \<Rightarrow> (string, string) gomap" where
  "field_map \<equiv> fold_put field_equality fst (\<lambda>r. snd (snd r))"

lemma fold_fields:
  "fold (\<lambda>opt o1. opt o1) (concat (map (\<lambda>(field, op, value). if op = ''='' \<or> op = ''=='' then [WithFieldSelector field value] else []) reqs)) o1 =
   o1\<lparr>lo_fieldSelectors := field_map reqs (lo_fieldSelectors o1)\<rparr>"
proof (induction reqs arbitrary: o1)
  case (Cons r reqs)
  then show ?case by (cases r; cases "field_equality r") (simp_all add: WithFieldSelector_def field_equality_def fold_put_def)
qed (simp add: fold_put_def)

lemma apply_store_options:
  "apply_options (store_options lo) =
     \<lparr>lo_labelSelector = (case clo_labels lo of Some (reqs, True) \<Rightarrow> label_map reqs | _ \<Rightarrow> []),
      lo_fieldSelectors = (case clo_fields lo of Some reqs \<Rightarrow> field_map reqs [] | None \<Rightarrow> []),
      lo_namespace = clo_namespace lo\<rparr>"
  by (auto simp: apply_options_def store_options_def fold_fields no_list_options_def WithNamespace_def WithLabelSelector_def Let_def split: option.split bool.split)

lemma selected_iff:
  "selected ff get_labels lo obj \<longleftrightarrow>
     labelsMatch (get_labels obj) (lo_labelSelector lo) \<and> list_all (\<lambda>(f, v). fieldMatches ff obj f v) (lo_fieldSelectors lo)"
  by (auto simp: selected_def labelsMatch_def)

lemma list_hit_requested:
  "list_hit ff get_labels g (apply_options (store_options lo)) key obj \<longleftrightarrow> key_gvk key = g \<and> requested ff get_labels lo key obj"
proof -
  have "list_all (\<lambda>(f, v). fieldMatches ff obj f v) (field_map reqs []) \<longleftrightarrow>
      list_all (\<lambda>(f, op, v). fieldMatches ff obj f v) (in_force field_equality fst reqs)" for reqs
    by (simp add: list_all_fold_put case_prod_unfold)
  moreover have "labelsMatch (get_labels obj) []" by (simp add: labelsMatch_def)
  ultimately show ?thesis
    by (auto simp: list_hit_def requested_def apply_store_options selected_iff labelsMatch_map split: option.splits bool.splits)
qed

lemma Cache_List_unstructured:
  assumes "store_inv (cd_store (ca_cached c))" "gvkForList (UnstructuredList g0) = Inr g"
    "GVKForObject am (Unstr (am_SetGVK am g [])) = Inr g'"
  shows "Cache_List ff get_labels am scheme_New (UnstructuredList g0) lo c =
    Some (ListItems (list_gvk g) (the (List ff get_labels (cd_store (ca_cached c)) g (store_options lo))),
      snd (EnsureInformer am (Unstr (am_SetGVK am g [])) c))"
proof -
  obtain c1 where c1: "EnsureInformer am (Unstr (am_SetGVK am g [])) c = (None, c1)" "ca_cached c1 = ca_cached c"
    using EnsureInformer_frame [of am "Unstr (am_SetGVK am g [])" c] assms(3)
    by (cases "EnsureInformer am (Unstr (am_SetGVK am g [])) c") simp
  with assms List_eq [OF assms(1), of ff get_labels g "store_options lo"] show ?thesis
    by (simp add: Cache_List_def)
qed

end
