(* ===== verification/Read_Properties.thy ===== *)
theory Read_Properties
  imports Cache_Samples Cache_Lists
begin

text \<open>
  The properties of the object cache and of the map of informers: what Get and List return, when Get is stale, which informers exist and how often
  they are started.
\<close>

section \<open>GVKs\<close>

text \<open>
  The two ways to find the GVK of an object, the codec's on reads and GVKFromObject on writes, agree wherever the scheme lists no empty kind: the codec finds \<open>g\<close> exactly when
  GVKFromObject returns \<open>g\<close> and its kind is not empty. An object without any kind is an error for the codec; GVKFromObject returns the empty GVK and no error.
\<close>

lemma gvk_lookups_agree:
  assumes "am_ObjectKinds am obj = (gvks, err)" "\<forall>h\<in>set gvks. gvk_kind h \<noteq> ''''"
  shows "(GVKForObject am obj = Inr g) = (GVKFromObject am obj = (g, None) \<and> gvk_kind g \<noteq> '''') \<and>
    (GVKForObject am obj = Inl NoGVKFound) = (GVKFromObject am obj = (empty_gvk, None))"
proof (cases gvks)
  case Nil
  with assms(1) show ?thesis
    by (cases err) (auto simp: GVKForObject_def GVKFromObject_def Let_def empty_gvk_def)
next
  case (Cons h hs)
  with assms show ?thesis
    by (cases err) (auto simp: GVKForObject_def GVKFromObject_def Let_def empty_gvk_def)
qed

section \<open>Get\<close>

text \<open>
  C10 (functional): Get on a cache whose LRU is coherent returns the stored object, converted into the object passed in, or not found, whether the LRU is on or off, hits or misses; it fills the LRU, keeps
  it coherent and leaves the store and the indexer alone.
\<close>

theorem cache_get_correct:
  assumes "cache_inv c" "GVKForObject am obj = Inr g" "gvk_slash_free g" "slash_free ns"
  shows "returns (Cache_Get am ns name obj c) (\<lambda>(result, c').
    get_result am \<lparr>key_gvk = g, key_namespace = ns, key_name = name\<rparr> obj c result \<and> cache_inv c' \<and> ca_cached c' = ca_cached c)"
  using assms by (rule Cache_Get_correct)

text \<open>A cache that holds one pod, with an LRU.\<close>

lemma sample_cache:
  "\<exists>c :: unit cache. cache_inv c \<and> ca_lru c \<noteq> None \<and> mirrors (ca_cached c) [pod_key ''a'' \<mapsto> pod ''n1'']"
proof -
  from holds_upsert [OF mirrors_empty pod_ok(1), of "pod_key ''a''" "''n1''"] obtain d :: "unit cached" where
    d: "mirrors d [pod_key ''a'' \<mapsto> pod ''n1'']" by (auto simp: returns_iff)
  have "cache_inv ((NewCache [] 8)\<lparr>ca_cached := d\<rparr>)"
    using d by (simp add: cache_inv_def NewCache_def option_coherent_def lru_coherent_new holds_def)
  moreover have "ca_lru ((NewCache [] 8)\<lparr>ca_cached := d\<rparr>) \<noteq> None" by (simp add: NewCache_def)
  ultimately show ?thesis using d by (intro exI [of _ "(NewCache [] 8)\<lparr>ca_cached := d\<rparr>"]) simp
qed

theorem cache_get_correct_witness:
  "\<exists>(c :: unit cache) c' u. Cache_Get sample_am ''ns'' ''a'' (Unstr []) c = Some (Inr (Unstr u), c') \<and> sem (GMap u) = sem (GMap (pod ''n1''))"
proof -
  from sample_cache obtain c :: "unit cache" where c: "cache_inv c" "mirrors (ca_cached c) [pod_key ''a'' \<mapsto> pod ''n1'']" by blast
  from c(2) have "cache_view c (pod_key ''a'') = Some (sem (GMap (pod ''n1'')))" by (simp add: holds_def del: sem.simps)
  with cache_get_correct [OF c(1) sample_gvk(1) sample_slash_free, of "''a''" "Unstr []"] show ?thesis
    by (auto simp: returns_iff get_result_def delivers_def pod_key_fold simp del: sem.simps)
qed

text \<open>
  C36 (safety): once Get with an LRU has found an object, the next Get returns it again, whatever has happened to the store in between: the events and lists of an informer
  write to the store and the indexer only, so a deletion or a change that an informer reports is not seen.
\<close>

theorem stale_read:
  assumes "cache_inv c" "GVKForObject am obj = Inr g" "ca_lru c \<noteq> None" "Cache_Get am ns name obj c = Some (Inr x, c')"
  shows "map_option fst (Cache_Get am ns name obj (c'\<lparr>ca_cached := d\<rparr>)) = Some (Inr x)"
proof -
  from Cache_Get_fills [OF assms] obtain lru u where u: "ca_lru c' = Some lru" "fst (lru_get (lruKey g ns name) lru) = Some u"
    "FromUnstructured am u obj = Inr x" by blast
  from Cache_Get_hit [OF assms(2), of "c'\<lparr>ca_cached := d\<rparr>" lru ns name u] u show ?thesis by auto
qed

theorem stale_read_witness:
  "\<exists>(c :: unit cache) d u. mirrors d (\<lambda>_. None) \<and>
     (\<exists>calls. handleEvent sample_am sample_informer \<lparr>ev_type = Deleted, ev_object = Some (pod ''n1'')\<rparr> (ca_cached c) = Some (None, d, calls)) \<and>
     map_option fst (Cache_Get sample_am ''ns'' ''a'' (Unstr []) (c\<lparr>ca_cached := d\<rparr>)) = Some (Inr (Unstr u))"
proof -
  from sample_cache obtain c0 :: "unit cache" where
    c0: "cache_inv c0" "ca_lru c0 \<noteq> None" "mirrors (ca_cached c0) [pod_key ''a'' \<mapsto> pod ''n1'']" by blast
  from c0(3) have "cache_view c0 (pod_key ''a'') = Some (sem (GMap (pod ''n1'')))" by (simp add: holds_def del: sem.simps)
  with Cache_Get_correct [OF c0(1) sample_gvk(1) sample_slash_free, of "''a''" "Unstr []"] obtain u c where
    c: "Cache_Get sample_am ''ns'' ''a'' (Unstr []) c0 = Some (Inr (Unstr u), c)" "ca_cached c = ca_cached c0"
    by (auto simp: returns_iff get_result_def delivers_def pod_key_fold simp del: sem.simps)
  have "event_ok \<lparr>ev_type = Deleted, ev_object = Some (pod ''n1'')\<rparr>" by (simp add: event_ok_def del: tree_ok.simps)
  from handleEvent_correct [OF c0(3) this, of sample_am sample_informer] obtain d calls where
    d: "handleEvent sample_am sample_informer \<lparr>ev_type = Deleted, ev_object = Some (pod ''n1'')\<rparr> (ca_cached c) = Some (None, d, calls)"
      "mirrors d (\<lambda>_. None)"
    by (auto simp: returns_iff event_update_def event_error_def sample_inf_key c(2))
  from stale_read [OF c0(1) sample_gvk(1) c0(2) c(1), of d] d show ?thesis by blast
qed

section \<open>List\<close>

text \<open>
  C27 (functional): for any list options, List into an UnstructuredList returns exactly the stored objects of the kind and namespace that \<open>requested\<close> selects, once per key: those that meet the label and field
  requirements in force. In force are the equalities, and of several equalities on one label or one field only the last, in the order in which the selector lists them, since the code collects them in
  maps. So requirements with another operator (set membership of several values, inequality, existence) are ignored, a selector that selects nothing filters nothing, an object that fails an
  earlier one of two equalities on a label is returned, and a label that is required to be empty may be absent.
\<close>

theorem cache_list_exact:
  assumes "cache_inv c" "gvkForList (UnstructuredList g0) = Inr g" "GVKForObject am (Unstr (am_SetGVK am g [])) = Inr g'"
  defines "s \<equiv> cd_store (ca_cached c)"
  shows "returns (Cache_List ff get_labels am scheme_New (UnstructuredList g0) lo c) (\<lambda>(out, c'). ca_cached c' = ca_cached c \<and>
    (\<exists>keys items. distinct keys \<and>
      (\<forall>key. key \<in> set keys \<longleftrightarrow> (\<exists>obj. Get key s = Some (Some obj) \<and> key_gvk key = g \<and> requested ff get_labels lo key obj)) \<and>
      map (\<lambda>key. Get key s) keys = map (\<lambda>obj. Some (Some obj)) items \<and> out = ListItems (list_gvk g) items))"
proof -
  from assms(1) have s: "store_inv s" by (simp add: cache_inv_def s_def)
  from List_keys [OF s, of ff get_labels g "store_options lo"] obtain keys where "distinct keys"
    "\<forall>key. key \<in> set keys \<longleftrightarrow> (\<exists>obj. Get key s = Some (Some obj) \<and> list_hit ff get_labels g (apply_options (store_options lo)) key obj)"
    "map (\<lambda>key. Get key s) keys = map (\<lambda>obj. Some (Some obj)) (the (List ff get_labels s g (store_options lo)))" by blast
  moreover have "store_inv (cd_store (ca_cached c))" using s by (simp add: s_def)
  note Cache_List_unstructured [OF this assms(2,3), of ff get_labels scheme_New lo]
  ultimately show ?thesis
    by (auto simp: EnsureInformer_frame s_def list_hit_requested)
qed

text \<open>Two equalities on one label: the object is listed although it does not meet the first.\<close>

theorem cache_list_exact_witness:
  "\<exists>(c :: unit cache) items c'. length items = 1 \<and>
     Cache_List (\<lambda>_. ''0'') (\<lambda>_. []) sample_am (\<lambda>_. None) (UnstructuredList (core_gvk ''PodList''))
       \<lparr>clo_namespace = ''ns'', clo_labels = Some ([(''app'', OpEquals, [''x'']), (''app'', OpEquals, [''''])], True), clo_fields = None\<rparr> c = Some (ListItems (core_gvk ''PodList'') items, c')"
proof -
  let ?lo = "\<lparr>clo_namespace = ''ns'', clo_labels = Some ([(''app'', OpEquals, [''x'']), (''app'', OpEquals, [''''])], True), clo_fields = None\<rparr>"
  have g: "gvkForList (UnstructuredList (core_gvk ''PodList'')) = Inr (core_gvk ''Pod'')" by (simp add: gvkForList_def core_gvk_def trim_list_def)
  have lo: "requested (\<lambda>_. ''0'') (\<lambda>_. []) ?lo (pod_key n) obj" for n obj
    by (simp add: requested_def equality_def pod_key_def label_of_def)
  from sample_cache obtain c :: "unit cache" where c: "cache_inv c" "mirrors (ca_cached c) [pod_key ''a'' \<mapsto> pod ''n1'']" by blast
  let ?s = "cd_store (ca_cached c)"
  from cache_list_exact [OF c(1) g sample_gvk(1), of "\<lambda>_. ''0''" "\<lambda>_. []" "\<lambda>_. None" ?lo] obtain keys items c' where
    out: "Cache_List (\<lambda>_. ''0'') (\<lambda>_. []) sample_am (\<lambda>_. None) (UnstructuredList (core_gvk ''PodList'')) ?lo c = Some (ListItems (core_gvk ''PodList'') items, c')"
    and keys: "distinct keys" "\<forall>key. key \<in> set keys \<longleftrightarrow> (\<exists>obj. Get key ?s = Some (Some obj) \<and> key_gvk key = core_gvk ''Pod'' \<and> requested (\<lambda>_. ''0'') (\<lambda>_. []) ?lo key obj)"
    and items: "map (\<lambda>key. Get key ?s) keys = map (\<lambda>obj. Some (Some obj)) items"
    by (auto simp: returns_iff list_gvk_def core_gvk_def)
  have "key \<in> set keys \<longleftrightarrow> key = pod_key ''a''" for key
    using holds_get [OF c(2), of key] keys(2) lo [of "''a''"] by (auto simp: returns_iff pod_key_def simp del: sem.simps split: if_splits)
  then have "set keys = {pod_key ''a''}" by auto
  with keys(1) have "length keys = 1" using distinct_card by fastforce
  with items have "length items = 1" by (metis length_map)
  with out show ?thesis by blast
qed

section \<open>Informers\<close>

text \<open>
  The map of informers holds exactly one informer for each GVK that was asked for. Each lists and watches the resource of its GVK, in the namespace of the map if it has
  exactly one, and in all namespaces otherwise: also when it was restricted to two or more.
\<close>

lemma one_informer_per_gvk:
  assumes "im = im_informers (fold (\<lambda>g m. snd (GetOrCreate g m)) gs (NewInformerMap ns))"
  shows "distinct (go_keys im) \<and> set (go_keys im) = set gs \<and>
    (\<forall>(g, nf)\<in>set im. inf_gvk nf = g \<and> list_request nf = (GVRFromGVK g, if length ns = 1 \<and> ns \<noteq> [''''] then Some (hd ns) else None))"
  using informers_of [of ns gs] unfolding assms map_ok_def sole_namespace_def
  by (cases ns rule: remdups_adj.cases) (auto simp: list_all_iff)

text \<open>
  EnsureInformer on a running cache starts a run of the informer at every call until the informer has synced, so \<open>n\<close> reads of a kind before its first list ends leave \<open>n\<close> runs of one informer;
  afterwards, and on a cache that has not started, it starts none.
\<close>

lemma ensure_informer_runs:
  assumes "GVKForObject am obj = Inr g"
  shows "im_running (ca_map (((\<lambda>c. snd (EnsureInformer am obj c)) ^^ n) c)) =
    im_running (ca_map c) @ (if ca_started c \<and> unsynced g c then replicate n g else [])"
  using EnsureInformer_repeated [OF assms] by blast

end
