(* ===== verification/Client.thy ===== *)
theory Client
  imports Cache_Coherence
begin

text \<open>
  \<open>client_options.go\<close>, \<open>shared_manager.go\<close> and \<open>client.go\<close>: the options, the clients and the manager that shares
  one cache among them. A \<open>fleet\<close> is the cache with the LRU of every client registered with the manager; a client made
  by \<open>New\<close> is alone in a fleet without a manager and without client LRUs. What the API server answers is a parameter, a
  function per verb in \<open>api_server\<close>; a server with a state is one that differs from call to call. The requests that the clients of a fleet have sent are listed in
  \<open>fl_requests\<close>, in order; the namespace is \<open>None\<close> for a call that is not namespaced.
\<close>

section \<open>Options\<close>

record ('s, 'm) options =
  opt_scheme :: "'s option"
  opt_gcInterval :: int
  opt_namespaces :: "string list"
  opt_watchGVKs :: "gvk list"
  opt_mapper :: "'m option"
  opt_reconstructLRUSize :: int

type_synonym ('s, 'm) option_fn = "('s, 'm) options \<Rightarrow> ('s, 'm) options"

definition defaultOptions :: "('s, 'm) options" where
  "defaultOptions = \<lparr>opt_scheme = None, opt_gcInterval = 5 * 60 * second, opt_namespaces = [], opt_watchGVKs = [],
     opt_mapper = None, opt_reconstructLRUSize = 0\<rparr>"

definition WithScheme :: "'s \<Rightarrow> ('s, 'm) option_fn" where
  "WithScheme s = (\<lambda>o1. o1\<lparr>opt_scheme := Some s\<rparr>)"

definition WithGCInterval :: "int \<Rightarrow> ('s, 'm) option_fn" where
  "WithGCInterval d = (\<lambda>o1. o1\<lparr>opt_gcInterval := d\<rparr>)"

definition WithNamespaces :: "string list \<Rightarrow> ('s, 'm) option_fn" where
  "WithNamespaces ns = (\<lambda>o1. o1\<lparr>opt_namespaces := ns\<rparr>)"

definition WithGVKs :: "gvk list \<Rightarrow> ('s, 'm) option_fn" where
  "WithGVKs gvks = (\<lambda>o1. o1\<lparr>opt_watchGVKs := opt_watchGVKs o1 @ gvks\<rparr>)"

definition WithRESTMapper :: "'m \<Rightarrow> ('s, 'm) option_fn" where
  "WithRESTMapper m = (\<lambda>o1. o1\<lparr>opt_mapper := Some m\<rparr>)"

definition WithReconstructionCache :: "int \<Rightarrow> ('s, 'm) option_fn" where
  "WithReconstructionCache n = (\<lambda>o1. o1\<lparr>opt_reconstructLRUSize := n\<rparr>)"

definition run_options :: "('s, 'm) option_fn list \<Rightarrow> ('s, 'm) options" where
  "run_options optFns = fold (\<lambda>fn opts. fn opts) optFns defaultOptions"

section \<open>Clients and the manager\<close>

text \<open>
  What is sent to the API server, one constructor per verb: the resource, the namespace, and what the code passes. The options structs are empty but for the selectors of a deletion of many,
  \<open>metav1.ListOptions\<close>, which are listed.
\<close>

datatype api_request =
    CreateRequest gvr "string option" gobj
  | UpdateRequest gvr "string option" gobj
  | UpdateStatusRequest gvr "string option" gobj
  | PatchRequest gvr "string option" string string string "string list"
  | ApplyRequest gvr "string option" string gobj
  | GetRequest gvr "string option" string "string list"
  | DeleteRequest gvr "string option" string
  | DeleteCollectionRequest gvr "string option" string string

record 't fleet =
  fl_cache :: "'t cache"
  fl_managed :: bool
  fl_lrus :: "gobj lru_cache option list"
  fl_requests :: "api_request list"

definition send :: "api_request \<Rightarrow> 't fleet \<Rightarrow> 't fleet" where
  "send req fl = fl\<lparr>fl_requests := fl_requests fl @ [req]\<rparr>"

text \<open>What a client and the manager keep besides the cache: the scheme, the mapper and the options.\<close>

record ('s, 'm) client_config =
  cc_scheme :: 's
  cc_mapper :: 'm
  cc_opts :: "('s, 'm) options"

text \<open>The defaults of both constructors: a given scheme and mapper, or \<open>runtime.NewScheme\<close> and \<open>meta.NewDefaultRESTMapper\<close>.\<close>

definition with_defaults :: "'s \<Rightarrow> 'm \<Rightarrow> ('s, 'm) options \<Rightarrow> ('s, 'm) client_config" where
  "with_defaults newScheme defaultMapper opts =
     (let scheme = (case opt_scheme opts of None \<Rightarrow> newScheme | Some s \<Rightarrow> s);
          mapper = (case opt_mapper opts of None \<Rightarrow> defaultMapper | Some m \<Rightarrow> m)
      in \<lparr>cc_scheme = scheme, cc_mapper = mapper, cc_opts = opts\<lparr>opt_scheme := Some scheme\<rparr>\<rparr>)"

text \<open>\<open>cfg\<close> tells whether a config was given and \<open>dyn\<close> is the error of \<open>dynamic.NewForConfig\<close>.\<close>

definition New ::
    "'s \<Rightarrow> 'm \<Rightarrow> go_error option \<Rightarrow> ('s, 'm) option_fn list \<Rightarrow> go_error + (('s, 'm) client_config \<times> 't fleet)" where
  "New newScheme defaultMapper dyn optFns =
     (let opts = run_options optFns
      in case dyn of
           Some e \<Rightarrow> Inl e
         | None \<Rightarrow>
             Inr (with_defaults newScheme defaultMapper opts,
               \<lparr>fl_cache = NewCache (opt_namespaces opts) (opt_reconstructLRUSize opts), fl_managed = False, fl_lrus = [], fl_requests = []\<rparr>))"

definition NewSharedStoreManager ::
    "'s \<Rightarrow> 'm \<Rightarrow> bool \<Rightarrow> go_error option \<Rightarrow> ('s, 'm) option_fn list \<Rightarrow> go_error + (('s, 'm) client_config \<times> 't fleet)" where
  "NewSharedStoreManager newScheme defaultMapper cfg dyn optFns =
     (if \<not> cfg then Inl ''kubeclient: SharedStoreManager: rest.Config must not be nil''
      else
        (let opts = run_options optFns
         in case dyn of
              Some e \<Rightarrow> Inl e
            | None \<Rightarrow>
                Inr (with_defaults newScheme defaultMapper opts,
                  \<lparr>fl_cache = NewCache (opt_namespaces opts) 0, fl_managed = True, fl_lrus = [], fl_requests = []\<rparr>)))"

text \<open>Of the options of a new client only the size of its LRU counts; its scheme and mapper are those of the manager.\<close>

definition NewClient ::
    "('s, 'm) client_config \<Rightarrow> ('s, 'm) option_fn list \<Rightarrow> 't fleet \<Rightarrow> ('s, 'm) client_config \<times> 't fleet" where
  "NewClient manager optFns fl =
     (let opts = run_options optFns;
          lru = (if opt_reconstructLRUSize opts > 0 then Some (newLRUCache (opt_reconstructLRUSize opts)) else None)
      in (manager\<lparr>cc_opts := opts\<rparr>, fl\<lparr>fl_lrus := fl_lrus fl @ [lru]\<rparr>))"

text \<open>\<open>Start\<close> of a client and of a manager: that of the cache, up to its wait for the end of the context.\<close>

definition Client_Start :: "'t fleet \<Rightarrow> 't fleet" where
  "Client_Start fl = fl\<lparr>fl_cache := Cache_Start (fl_cache fl)\<rparr>"

definition InvalidateAllLRUs :: "gvk \<Rightarrow> string \<Rightarrow> string \<Rightarrow> 't fleet \<Rightarrow> 't fleet" where
  "InvalidateAllLRUs g ns name fl =
     (let key = lruKey g ns name in fl\<lparr>fl_lrus := map (map_option (lru_delete key)) (fl_lrus fl)\<rparr>)"

section \<open>The API server\<close>

record api_server =
  api_create :: "gvr \<Rightarrow> string option \<Rightarrow> gobj \<Rightarrow> go_error + gobj"
  api_update :: "gvr \<Rightarrow> string option \<Rightarrow> gobj \<Rightarrow> go_error + gobj"
  api_updateStatus :: "gvr \<Rightarrow> string option \<Rightarrow> gobj \<Rightarrow> go_error + gobj"
  api_patch :: "gvr \<Rightarrow> string option \<Rightarrow> string \<Rightarrow> string \<Rightarrow> string \<Rightarrow> string list \<Rightarrow> go_error + gobj"
  api_apply :: "gvr \<Rightarrow> string option \<Rightarrow> string \<Rightarrow> gobj \<Rightarrow> go_error + gobj"
  api_get :: "gvr \<Rightarrow> string option \<Rightarrow> string \<Rightarrow> string list \<Rightarrow> go_error + gobj"
  api_delete :: "gvr \<Rightarrow> string option \<Rightarrow> string \<Rightarrow> go_error option"
  api_deleteCollection :: "gvr \<Rightarrow> string option \<Rightarrow> string \<Rightarrow> string \<Rightarrow> go_error option"

record 't client_patch =
  cp_data :: "'t client_object \<Rightarrow> go_error + string"
  cp_type :: string

datatype client_error =
    CConversion codec_error
  | CGVKUnknown go_error
  | CAPICallFailed go_error
  | CPatchData go_error
  | CCache cache_error

definition api_ns :: "string \<Rightarrow> string option" where
  "api_ns ns = (if ns \<noteq> '''' then Some ns else None)"

section \<open>Reads\<close>

definition Client_Get ::
    "'t api_machinery \<Rightarrow> nat \<Rightarrow> string \<Rightarrow> string \<Rightarrow> 't client_object \<Rightarrow> 't fleet \<Rightarrow>
     ((client_error + 't client_object) \<times> 't fleet) option" where
  "Client_Get am i ns name obj fl =
     (let from_cache = (\<lambda>fl. case Cache_Get am ns name obj (fl_cache fl) of
            None \<Rightarrow> None
          | Some (r, c) \<Rightarrow> Some (case r of Inl e \<Rightarrow> Inl (CCache e) | Inr x \<Rightarrow> Inr x, fl\<lparr>fl_cache := c\<rparr>))
      in case (if i < length (fl_lrus fl) then fl_lrus fl ! i else None) of
           None \<Rightarrow> from_cache fl
         | Some lru \<Rightarrow>
             (case GVKForObject am obj of
                Inl _ \<Rightarrow> from_cache fl
              | Inr g \<Rightarrow>
                  (let (hit, lru1) = lru_get (lruKey g ns name) lru; fl1 = fl\<lparr>fl_lrus := (fl_lrus fl)[i := Some lru1]\<rparr>
                   in case hit of
                        Some u \<Rightarrow> Some (case FromUnstructured am u obj of Inl e \<Rightarrow> Inl (CConversion e) | Inr x \<Rightarrow> Inr x, fl1)
                      | None \<Rightarrow> from_cache fl1)))"

definition Client_List ::
    "(64 word \<Rightarrow> string) \<Rightarrow> (gobj \<Rightarrow> (string, string) gomap) \<Rightarrow> 't api_machinery \<Rightarrow> (gvk \<Rightarrow> 't client_object option) \<Rightarrow>
     list_target \<Rightarrow> client_list_options \<Rightarrow> 't fleet \<Rightarrow> ('t list_outcome \<times> 't fleet) option" where
  "Client_List ff get_labels am scheme_New target opts fl =
     (case Cache_List ff get_labels am scheme_New target opts (fl_cache fl) of
        None \<Rightarrow> None
      | Some (out, c) \<Rightarrow> Some (out, fl\<lparr>fl_cache := c\<rparr>))"

section \<open>Writes\<close>

text \<open>The store, the LRU of the cache and, under a manager, the LRU of every client.\<close>

definition invalidate_lrus :: "object_key \<Rightarrow> 't fleet \<Rightarrow> 't fleet" where
  "invalidate_lrus key fl =
     (let fl1 = fl\<lparr>fl_cache := InvalidateLRU (key_gvk key) (key_namespace key) (key_name key) (fl_cache fl)\<rparr>
      in if fl_managed fl then InvalidateAllLRUs (key_gvk key) (key_namespace key) (key_name key) fl1 else fl1)"

definition set_store :: "dedup_store \<Rightarrow> 't fleet \<Rightarrow> 't fleet" where
  "set_store s fl = fl\<lparr>fl_cache := (fl_cache fl)\<lparr>ca_cached := (ca_cached (fl_cache fl))\<lparr>cd_store := s\<rparr>\<rparr>\<rparr>"

abbreviation fl_store :: "'t fleet \<Rightarrow> dedup_store" where
  "fl_store fl \<equiv> cd_store (ca_cached (fl_cache fl))"

text \<open>What a write does with the object the server returned; the error of the store is dropped.\<close>

definition absorb ::
    "'t api_machinery \<Rightarrow> gvk \<Rightarrow> gobj \<Rightarrow> 't client_object \<Rightarrow> 't fleet \<Rightarrow> ((client_error + 't client_object) \<times> 't fleet) option" where
  "absorb am g result obj fl =
     (case ToUnstructured am (Unstr result) of
        Inl _ \<Rightarrow> Some (Inr obj, fl)
      | Inr u \<Rightarrow>
          (let storeKey = store_key am g (Unstr u)
           in case Upsert storeKey u (fl_store fl) of
                None \<Rightarrow> None
              | Some s \<Rightarrow>
                  Some (case FromUnstructured am u obj of Inl e \<Rightarrow> Inl (CConversion e) | Inr x \<Rightarrow> Inr x,
                        invalidate_lrus storeKey (set_store s fl))))"

definition with_result ::
    "'t api_machinery \<Rightarrow> gvk \<Rightarrow> go_error + gobj \<Rightarrow> 't client_object \<Rightarrow> 't fleet \<Rightarrow> ((client_error + 't client_object) \<times> 't fleet) option" where
  "with_result am g result obj fl =
     (case result of Inl e \<Rightarrow> Some (Inl (CAPICallFailed e), fl) | Inr u \<Rightarrow> absorb am g u obj fl)"

definition Client_Create ::
    "'t api_machinery \<Rightarrow> api_server \<Rightarrow> 't client_object \<Rightarrow> 't fleet \<Rightarrow> ((client_error + 't client_object) \<times> 't fleet) option" where
  "Client_Create am api obj fl =
     (case ToUnstructured am obj of
        Inl e \<Rightarrow> Some (Inl (CConversion e), fl)
      | Inr unstrObj \<Rightarrow>
          (let (g, err) = GVKFromObject am obj
           in case err of
                Some e \<Rightarrow> Some (Inl (CGVKUnknown e), fl)
              | None \<Rightarrow>
                  (let gvr = GVRFromGVK g; ns = api_ns (am_GetNamespace am obj)
                   in with_result am g (api_create api gvr ns unstrObj) obj (send (CreateRequest gvr ns unstrObj) fl))))"

definition Client_Update ::
    "'t api_machinery \<Rightarrow> api_server \<Rightarrow> 't client_object \<Rightarrow> 't fleet \<Rightarrow> ((client_error + 't client_object) \<times> 't fleet) option" where
  "Client_Update am api obj fl =
     (case ToUnstructured am obj of
        Inl e \<Rightarrow> Some (Inl (CConversion e), fl)
      | Inr unstrObj \<Rightarrow>
          (let (g, err) = GVKFromObject am obj
           in case err of
                Some e \<Rightarrow> Some (Inl (CGVKUnknown e), fl)
              | None \<Rightarrow>
                  (let gvr = GVRFromGVK g; ns = api_ns (am_GetNamespace am obj)
                   in with_result am g (api_update api gvr ns unstrObj) obj (send (UpdateRequest gvr ns unstrObj) fl))))"

definition Client_Patch ::
    "'t api_machinery \<Rightarrow> api_server \<Rightarrow> 't client_object \<Rightarrow> 't client_patch \<Rightarrow> 't fleet \<Rightarrow>
     ((client_error + 't client_object) \<times> 't fleet) option" where
  "Client_Patch am api obj patch fl =
     (let (g, err) = GVKFromObject am obj
      in case err of
           Some e \<Rightarrow> Some (Inl (CGVKUnknown e), fl)
         | None \<Rightarrow>
             (case cp_data patch obj of
                Inl e \<Rightarrow> Some (Inl (CPatchData e), fl)
              | Inr data \<Rightarrow>
                  (let gvr = GVRFromGVK g; ns = api_ns (am_GetNamespace am obj); name = am_GetName am obj
                   in with_result am g (api_patch api gvr ns name (cp_type patch) data []) obj
                        (send (PatchRequest gvr ns name (cp_type patch) data []) fl))))"

definition remove_stored :: "object_key \<Rightarrow> 't fleet \<Rightarrow> 't fleet option" where
  "remove_stored key fl =
     (case Delete key (fl_store fl) of None \<Rightarrow> None | Some s \<Rightarrow> Some (invalidate_lrus key (set_store s fl)))"

definition Client_Delete ::
    "'t api_machinery \<Rightarrow> api_server \<Rightarrow> 't client_object \<Rightarrow> 't fleet \<Rightarrow> (client_error option \<times> 't fleet) option" where
  "Client_Delete am api obj fl =
     (let (g, err) = GVKFromObject am obj
      in case err of
           Some e \<Rightarrow> Some (Some (CGVKUnknown e), fl)
         | None \<Rightarrow>
             (let gvr = GVRFromGVK g; ns = api_ns (am_GetNamespace am obj); name = am_GetName am obj;
                  fl1 = send (DeleteRequest gvr ns name) fl
              in case api_delete api gvr ns name of
                   Some e \<Rightarrow> Some (Some (CAPICallFailed e), fl1)
                 | None \<Rightarrow> map_option (Pair None) (remove_stored (store_key am g obj) fl1)))"

text \<open>
  \<open>client.DeleteAllOfOptions\<close>: list options, the selectors among them, and delete options. Each option of the call sets what it likes; the code then reads the
  namespace and nothing else, and the request has empty selectors.
\<close>

record delete_all_of_options =
  dao_list :: client_list_options
  dao_gracePeriodSeconds :: "int option"
  dao_propagationPolicy :: "string option"
  dao_dryRun :: "string list"

definition apply_delete_all_of :: "(delete_all_of_options \<Rightarrow> delete_all_of_options) list \<Rightarrow> delete_all_of_options" where
  "apply_delete_all_of opts = fold (\<lambda>opt o1. opt o1) opts
     \<lparr>dao_list = \<lparr>clo_namespace = '''', clo_labels = None, clo_fields = None\<rparr>, dao_gracePeriodSeconds = None, dao_propagationPolicy = None, dao_dryRun = []\<rparr>"

definition Client_DeleteAllOf ::
    "(64 word \<Rightarrow> string) \<Rightarrow> (gobj \<Rightarrow> (string, string) gomap) \<Rightarrow> 't api_machinery \<Rightarrow> api_server \<Rightarrow> 't client_object \<Rightarrow>
     (delete_all_of_options \<Rightarrow> delete_all_of_options) list \<Rightarrow> 't fleet \<Rightarrow> (client_error option \<times> 't fleet) option" where
  "Client_DeleteAllOf ff get_labels am api obj opts fl =
     (let (g, err) = GVKFromObject am obj
      in case err of
           Some e \<Rightarrow> Some (Some (CGVKUnknown e), fl)
         | None \<Rightarrow>
             (let gvr = GVRFromGVK g;
                  deleteAllOfOpts = apply_delete_all_of opts;
                  ns = clo_namespace (dao_list deleteAllOfOpts);
                  fl1 = send (DeleteCollectionRequest gvr (api_ns ns) '''' '''') fl
              in case api_deleteCollection api gvr (api_ns ns) '''' '''' of
                   Some e \<Rightarrow> Some (Some (CAPICallFailed e), fl1)
                 | None \<Rightarrow>
                     (case List ff get_labels (fl_store fl1) g (if ns \<noteq> '''' then [WithNamespace ns] else []) of
                        None \<Rightarrow> None
                      | Some items \<Rightarrow>
                          map_option (Pair None) (foldM (\<lambda>item. remove_stored (store_key am g (Unstr item))) items fl1))))"

section \<open>Subresources\<close>

text \<open>The client of a subresource: its client is the fleet it works on, and its name is the rest.\<close>

record sub_resource_client =
  sr_subResource :: string

definition Client_Status :: sub_resource_client where
  "Client_Status = \<lparr>sr_subResource = ''status''\<rparr>"

definition Client_SubResource :: "string \<Rightarrow> sub_resource_client" where
  "Client_SubResource subResource = \<lparr>sr_subResource = subResource\<rparr>"

definition SubResource_Get ::
    "'t api_machinery \<Rightarrow> api_server \<Rightarrow> sub_resource_client \<Rightarrow> 't client_object \<Rightarrow> 't client_object \<Rightarrow> 't fleet \<Rightarrow>
     (client_error + 't client_object) \<times> 't fleet" where
  "SubResource_Get am api sc obj subResource fl =
     (let (g, err) = GVKFromObject am obj
      in case err of
           Some e \<Rightarrow> (Inl (CGVKUnknown e), fl)
         | None \<Rightarrow>
             (let gvr = GVRFromGVK g; ns = api_ns (am_GetNamespace am obj); name = am_GetName am obj;
                  fl1 = send (GetRequest gvr ns name [sr_subResource sc]) fl
              in case api_get api gvr ns name [sr_subResource sc] of
                   Inl e \<Rightarrow> (Inl (CAPICallFailed e), fl1)
                 | Inr result \<Rightarrow>
                     (case ToUnstructured am (Unstr result) of
                        Inl _ \<Rightarrow> (Inr subResource, fl1)
                      | Inr u \<Rightarrow> (case FromUnstructured am u subResource of Inl e \<Rightarrow> Inl (CConversion e) | Inr x \<Rightarrow> Inr x, fl1))))"

definition SubResource_Create ::
    "'t api_machinery \<Rightarrow> api_server \<Rightarrow> sub_resource_client \<Rightarrow> 't client_object \<Rightarrow> 't client_object \<Rightarrow> 't fleet \<Rightarrow>
     client_error option \<times> 't fleet" where
  "SubResource_Create am api sc obj subResource fl =
     (let (g, err) = GVKFromObject am obj
      in case err of
           Some e \<Rightarrow> (Some (CGVKUnknown e), fl)
         | None \<Rightarrow>
             (case ToUnstructured am subResource of
                Inl e \<Rightarrow> (Some (CConversion e), fl)
              | Inr unstrSub \<Rightarrow>
                  (let gvr = GVRFromGVK g; ns = api_ns (am_GetNamespace am obj); name = am_GetName am obj
                   in (case api_apply api gvr ns name unstrSub of Inl e \<Rightarrow> Some (CAPICallFailed e) | Inr _ \<Rightarrow> None,
                       send (ApplyRequest gvr ns name unstrSub) fl))))"

definition SubResource_Update ::
    "'t api_machinery \<Rightarrow> api_server \<Rightarrow> sub_resource_client \<Rightarrow> 't client_object \<Rightarrow> 't client_object option \<Rightarrow> 't fleet \<Rightarrow>
     ((client_error + 't client_object) \<times> 't fleet) option" where
  "SubResource_Update am api sc obj body fl =
     (let (g, err) = GVKFromObject am obj
      in case err of
           Some e \<Rightarrow> Some (Inl (CGVKUnknown e), fl)
         | None \<Rightarrow>
             (let updateObj = (case body of Some b \<Rightarrow> b | None \<Rightarrow> obj)
              in case ToUnstructured am updateObj of
                   Inl e \<Rightarrow> Some (Inl (CConversion e), fl)
                 | Inr unstrObj \<Rightarrow>
                     (let gvr = GVRFromGVK g; ns = api_ns (am_GetNamespace am obj)
                      in if sr_subResource sc = ''status''
                         then with_result am g (api_updateStatus api gvr ns unstrObj) obj (send (UpdateStatusRequest gvr ns unstrObj) fl)
                         else with_result am g (api_update api gvr ns unstrObj) obj (send (UpdateRequest gvr ns unstrObj) fl))))"

definition SubResource_Patch ::
    "'t api_machinery \<Rightarrow> api_server \<Rightarrow> sub_resource_client \<Rightarrow> 't client_object \<Rightarrow> 't client_patch \<Rightarrow> 't client_object option \<Rightarrow> 't fleet \<Rightarrow>
     ((client_error + 't client_object) \<times> 't fleet) option" where
  "SubResource_Patch am api sc obj patch body fl =
     (let (g, err) = GVKFromObject am obj
      in case err of
           Some e \<Rightarrow> Some (Inl (CGVKUnknown e), fl)
         | None \<Rightarrow>
             (let patchTarget = (case body of Some b \<Rightarrow> b | None \<Rightarrow> obj)
              in case cp_data patch patchTarget of
                   Inl e \<Rightarrow> Some (Inl (CPatchData e), fl)
                 | Inr data \<Rightarrow>
                     (let gvr = GVRFromGVK g; ns = api_ns (am_GetNamespace am obj); name = am_GetName am obj
                      in with_result am g (api_patch api gvr ns name (cp_type patch) data [sr_subResource sc]) obj
                           (send (PatchRequest gvr ns name (cp_type patch) data [sr_subResource sc]) fl))))"

section \<open>Kinds and scopes\<close>

text \<open>A \<open>runtime.Object\<close> is a \<open>client.Object\<close>, or something else with what the scheme says of it.\<close>

datatype 't runtime_object = ClientObject "'t client_object" | PlainObject "gvk list \<times> go_error option"

datatype kind_error = KindLookupFailed go_error | KindUnknown

definition object_kinds :: "'t api_machinery \<Rightarrow> 't runtime_object \<Rightarrow> gvk list \<times> go_error option" where
  "object_kinds am obj = (case obj of ClientObject c \<Rightarrow> am_ObjectKinds am c | PlainObject kinds \<Rightarrow> kinds)"

definition GroupVersionKindFor :: "'t api_machinery \<Rightarrow> 't runtime_object \<Rightarrow> kind_error + gvk" where
  "GroupVersionKindFor am obj =
     (case (case obj of ClientObject c \<Rightarrow> GVKForObject am c | PlainObject _ \<Rightarrow> Inl NoGVKFound) of
        Inr g \<Rightarrow> Inr g
      | Inl _ \<Rightarrow>
          (let (gvks, err) = object_kinds am obj
           in case err of
                Some e \<Rightarrow> Inl (KindLookupFailed e)
              | None \<Rightarrow> (if length gvks = 0 then Inl KindUnknown else Inr (hd gvks))))"

text \<open>\<open>mappings\<close> is \<open>RESTMappings\<close> of the mapper: an error, or for each mapping whether its scope is the namespace.\<close>

definition IsObjectNamespaced :: "(string \<times> string \<Rightarrow> string \<Rightarrow> go_error + bool list) \<Rightarrow> 't api_machinery \<Rightarrow> 't runtime_object \<Rightarrow> kind_error + bool" where
  "IsObjectNamespaced mappings am obj =
     (case GroupVersionKindFor am obj of
        Inl e \<Rightarrow> Inl e
      | Inr g \<Rightarrow>
          (case mappings (gvk_group g, gvk_kind g) (gvk_version g) of
             Inr (scoped # _) \<Rightarrow> Inr scoped
           | _ \<Rightarrow> (case obj of ClientObject c \<Rightarrow> Inr (am_GetNamespace am c \<noteq> '''') | PlainObject _ \<Rightarrow> Inr False)))"

end
