(* ===== verification/Client_Proofs.thy ===== *)
theory Client_Proofs
  imports Client
begin

text \<open>
  What the client operations do to the shared store and to the LRUs, over one lemma about a change of the store at one key followed by
  the invalidations. \<open>fleet_inv\<close> says that the LRU of the cache and those of all clients are coherent with the store.
\<close>

section \<open>Invariant\<close>

definition fleet_inv :: "'t fleet \<Rightarrow> bool" where
  "fleet_inv fl \<longleftrightarrow> cache_inv (fl_cache fl) \<and> list_all (option_coherent (fl_store fl)) (fl_lrus fl) \<and>
     (fl_managed fl \<or> fl_lrus fl = [])"

abbreviation fl_view :: "'t fleet \<Rightarrow> object_key \<Rightarrow> aval option" where
  "fl_view fl \<equiv> store_view (fl_store fl)"

lemma fleet_invD:
  assumes "fleet_inv fl"
  shows "store_inv (fl_store fl)" "option_coherent (fl_store fl) (ca_lru (fl_cache fl))"
    "list_all (option_coherent (fl_store fl)) (fl_lrus fl)" "fl_managed fl \<or> fl_lrus fl = []" "cache_inv (fl_cache fl)"
  using assms by (simp_all add: fleet_inv_def cache_inv_def)

text \<open>All LRUs of a fleet, that of the cache first, and what each holds.\<close>

definition fleet_lrus :: "'t fleet \<Rightarrow> gobj lru_cache option list" where
  "fleet_lrus fl = ca_lru (fl_cache fl) # fl_lrus fl"

definition entries :: "gobj lru_cache option \<Rightarrow> string \<Rightarrow> gobj option" where
  "entries lru = (case lru of None \<Rightarrow> (\<lambda>_. None) | Some l \<Rightarrow> lru_view l)"

definition option_ok :: "gobj lru_cache option \<Rightarrow> bool" where
  "option_ok lru \<longleftrightarrow> (case lru of None \<Rightarrow> True | Some l \<Rightarrow> lru_inv l)"

lemma option_ok_None [simp]: "option_ok None"
  by (simp add: option_ok_def)

text \<open>The part of the invariant that does not ask for coherence.\<close>

definition fleet_ok :: "'t fleet \<Rightarrow> bool" where
  "fleet_ok fl \<longleftrightarrow> store_inv (fl_store fl) \<and> list_all option_ok (fleet_lrus fl) \<and> (fl_managed fl \<or> fl_lrus fl = [])"

lemma fleet_inv_ok: "fleet_inv fl \<Longrightarrow> fleet_ok fl"
  by (auto simp: fleet_inv_def fleet_ok_def cache_inv_def fleet_lrus_def option_ok_def option_coherent_def lru_coherent_def
      list_all_iff split: option.splits)

lemma send_simps [simp]:
  "fl_cache (send req fl) = fl_cache fl" "fl_managed (send req fl) = fl_managed fl" "fl_lrus (send req fl) = fl_lrus fl"
  "fl_requests (send req fl) = fl_requests fl @ [req]" "fleet_lrus (send req fl) = fleet_lrus fl"
  "fleet_inv (send req fl) = fleet_inv fl" "fleet_ok (send req fl) = fleet_ok fl"
  by (simp_all add: send_def fleet_lrus_def fleet_inv_def fleet_ok_def)

lemma fleet_inv_New: "New newScheme defaultMapper dyn optFns = Inr (cc, fl) \<Longrightarrow> fleet_inv fl \<and> fl_view fl = (\<lambda>_. None)"
  by (auto simp: New_def Let_def fleet_inv_def cache_inv_new split: option.splits)
     (simp add: NewCache_def empty_cached_def store_view_new)

lemma fleet_inv_NewSharedStoreManager:
  "NewSharedStoreManager newScheme defaultMapper cfg dyn optFns = Inr (cc, fl) \<Longrightarrow> fleet_inv fl \<and> fl_managed fl \<and> fl_view fl = (\<lambda>_. None)"
  by (auto simp: NewSharedStoreManager_def Let_def fleet_inv_def cache_inv_new split: option.splits if_splits)
     (simp add: NewCache_def empty_cached_def store_view_new)

lemma fleet_inv_NewClient:
  "fleet_inv fl \<Longrightarrow> fl_managed fl \<Longrightarrow> fleet_inv (snd (NewClient cc optFns fl)) \<and> fl_view (snd (NewClient cc optFns fl)) = fl_view fl"
  by (simp add: NewClient_def Let_def fleet_inv_def option_coherent_def lru_coherent_new)

text \<open>Changing the store at one key and invalidating the key everywhere keeps every LRU coherent.\<close>

lemma option_coherent_invalidate:
  assumes "option_coherent s lru" "\<And>k. k \<noteq> key \<Longrightarrow> store_view t k = store_view s k"
  shows "option_coherent t (map_option (lru_delete (key_lru key)) lru)"
  using assms lru_coherent_invalidate by (cases lru) (auto simp: option_coherent_def)

lemma invalidate_lrus_simps:
  "fl_store (invalidate_lrus key (set_store t fl)) = t"
  "cd_index (ca_cached (fl_cache (invalidate_lrus key (set_store t fl)))) = cd_index (ca_cached (fl_cache fl))"
  "ca_lru (fl_cache (invalidate_lrus key (set_store t fl))) = map_option (lru_delete (key_lru key)) (ca_lru (fl_cache fl))"
  "fl_lrus (invalidate_lrus key (set_store t fl)) =
     (if fl_managed fl then map (map_option (lru_delete (key_lru key))) (fl_lrus fl) else fl_lrus fl)"
  "fl_managed (invalidate_lrus key (set_store t fl)) = fl_managed fl"
  "fl_requests (invalidate_lrus key (set_store t fl)) = fl_requests fl"
  by (auto simp: invalidate_lrus_def set_store_def InvalidateLRU_def InvalidateAllLRUs_def key_lru_def Let_def split: option.split)

lemma fleet_inv_change:
  assumes "fleet_inv fl" "store_inv t" "\<And>k. k \<noteq> key \<Longrightarrow> store_view t k = fl_view fl k"
  shows "fleet_inv (invalidate_lrus key (set_store t fl))"
proof -
  note F = fleet_invD [OF assms(1)] and I = invalidate_lrus_simps [of key t fl]
  have "list_all (option_coherent t) (map (map_option (lru_delete (key_lru key))) (fl_lrus fl))"
    using F(3) option_coherent_invalidate [of "fl_store fl" _ key t] assms(3) by (auto simp: list_all_iff)
  moreover have "option_coherent t (map_option (lru_delete (key_lru key)) (ca_lru (fl_cache fl)))"
    using option_coherent_invalidate [OF F(2)] assms(3) by blast
  ultimately show ?thesis
    using F(4) assms(2) by (auto simp: fleet_inv_def cache_inv_def I)
qed

text \<open>And the entry of the key, nothing else, is gone from every LRU.\<close>

lemma option_delete:
  assumes "option_ok lru"
  shows "option_ok (map_option (lru_delete k) lru)" "entries (map_option (lru_delete k) lru) = (entries lru)(k := None)"
  using assms lru.del_law by (auto simp: option_ok_def entries_def split: option.splits)

lemma fleet_change:
  assumes "fleet_ok fl" "store_inv t"
  shows "fleet_ok (invalidate_lrus key (set_store t fl))"
    "map entries (fleet_lrus (invalidate_lrus key (set_store t fl))) = map (\<lambda>lru. (entries lru)(key_lru key := None)) (fleet_lrus fl)"
proof -
  have lrus: "fleet_lrus (invalidate_lrus key (set_store t fl)) = map (map_option (lru_delete (key_lru key))) (fleet_lrus fl)"
    using assms(1) by (auto simp: fleet_ok_def fleet_lrus_def invalidate_lrus_simps)
  with assms option_delete show "fleet_ok (invalidate_lrus key (set_store t fl))"
    "map entries (fleet_lrus (invalidate_lrus key (set_store t fl))) = map (\<lambda>lru. (entries lru)(key_lru key := None)) (fleet_lrus fl)"
    by (auto simp: fleet_ok_def list_all_iff invalidate_lrus_simps)
qed

section \<open>Writes\<close>

definition converted :: "'t api_machinery \<Rightarrow> gobj \<Rightarrow> 't client_object \<Rightarrow> client_error + 't client_object" where
  "converted am u obj = (case FromUnstructured am u obj of Inl e \<Rightarrow> Inl (CConversion e) | Inr x \<Rightarrow> Inr x)"

text \<open>
  After a write of \<open>u\<close> under the GVK \<open>g\<close>: the store has it, the entry of its key and no other is gone from every LRU, LRUs that were coherent stay so, the index is as it was, and nothing was sent.
\<close>

definition wrote :: "'t api_machinery \<Rightarrow> gvk \<Rightarrow> gobj \<Rightarrow> 't fleet \<Rightarrow> 't fleet \<Rightarrow> bool" where
  "wrote am g u fl fl' \<longleftrightarrow> (let key = store_key am g (Unstr u) in
     fleet_ok fl' \<and> (fleet_inv fl \<longrightarrow> fleet_inv fl') \<and> fl_managed fl' = fl_managed fl \<and> fl_requests fl' = fl_requests fl \<and>
     fl_view fl' = (fl_view fl)(key \<mapsto> sem (GMap u)) \<and>
     map entries (fleet_lrus fl') = map (\<lambda>lru. (entries lru)(key_lru key := None)) (fleet_lrus fl) \<and>
     cd_index (ca_cached (fl_cache fl')) = cd_index (ca_cached (fl_cache fl)))"

lemma absorb_correct:
  assumes "fleet_ok fl" "tree_ok (GMap u)"
  shows "returns (absorb am g u obj fl) (\<lambda>(r, fl'). r = converted am u obj \<and> wrote am g u fl fl')"
proof -
  let ?key = "store_key am g (Unstr u)"
  from assms(1) have s: "store_inv (fl_store fl)" by (simp add: fleet_ok_def)
  from ds.ups_law [OF s assms(2), of ?key] obtain t where
    t: "Upsert ?key u (fl_store fl) = Some t" "store_inv t" "store_view t = (fl_view fl)(?key \<mapsto> sem (GMap u))" by (auto elim: returnsE)
  have "fleet_inv (invalidate_lrus ?key (set_store t fl))" if "fleet_inv fl"
    using t(2,3) by (intro fleet_inv_change [OF that]) simp_all
  with t fleet_change [OF assms(1) t(2), of ?key] show ?thesis
    by (simp add: absorb_def converted_def wrote_def invalidate_lrus_simps Let_def del: sem.simps)
qed

lemma with_result_correct:
  assumes "fleet_ok fl" "\<And>u. result = Inr u \<Longrightarrow> tree_ok (GMap u)"
  shows "returns (with_result am g result obj fl) (\<lambda>(r, fl'). case result of
    Inl e \<Rightarrow> r = Inl (CAPICallFailed e) \<and> fl' = fl | Inr u \<Rightarrow> r = converted am u obj \<and> wrote am g u fl fl')"
  using absorb_correct [OF assms(1)] assms(2) by (cases result) (simp_all add: with_result_def)

lemma remove_stored_correct:
  assumes "fleet_ok fl"
  shows "returns (remove_stored key fl) (\<lambda>fl'. fleet_ok fl' \<and> (fleet_inv fl \<longrightarrow> fleet_inv fl') \<and> fl_managed fl' = fl_managed fl \<and>
    fl_requests fl' = fl_requests fl \<and> fl_view fl' = (fl_view fl)(key := None) \<and>
    map entries (fleet_lrus fl') = map (\<lambda>lru. (entries lru)(key_lru key := None)) (fleet_lrus fl))"
proof -
  from assms have s: "store_inv (fl_store fl)" by (simp add: fleet_ok_def)
  from ds.del_law [OF s, of key] obtain t where
    t: "Delete key (fl_store fl) = Some t" "store_inv t" "store_view t = (fl_view fl)(key := None)" by (auto elim: returnsE)
  have "fleet_inv (invalidate_lrus key (set_store t fl))" if "fleet_inv fl"
    using t(2,3) by (intro fleet_inv_change [OF that]) simp_all
  with t fleet_change [OF assms t(2), of key] show ?thesis by (simp add: remove_stored_def invalidate_lrus_simps)
qed

text \<open>A set of keys is gone from the store, and the entries of the keys from the LRUs.\<close>

definition keys_removed :: "object_key set \<Rightarrow> 't fleet \<Rightarrow> 't fleet \<Rightarrow> bool" where
  "keys_removed keys fl fl' \<longleftrightarrow> fl_requests fl' = fl_requests fl \<and> fl_view fl' = (\<lambda>k. if k \<in> keys then None else fl_view fl k) \<and>
     map entries (fleet_lrus fl') = map (\<lambda>lru k. if k \<in> key_lru ` keys then None else entries lru k) (fleet_lrus fl)"

lemma keys_removed_insert:
  assumes "keys_removed keys fl fl1" "fl_requests fl2 = fl_requests fl1" "fl_view fl2 = (fl_view fl1)(key := None)"
    "map entries (fleet_lrus fl2) = map (\<lambda>lru. (entries lru)(key_lru key := None)) (fleet_lrus fl1)"
  shows "keys_removed (insert key keys) fl fl2"
proof -
  have "map entries (fleet_lrus fl2) = map (\<lambda>e. e(key_lru key := None)) (map entries (fleet_lrus fl1))"
    by (simp add: assms(4) comp_def)
  also have "\<dots> = map (\<lambda>lru k. if k \<in> key_lru ` insert key keys then None else entries lru k) (fleet_lrus fl)"
    using assms(1) by (simp only: keys_removed_def) (auto simp: fun_eq_iff)
  finally show ?thesis using assms(1-3) by (auto simp: keys_removed_def fun_eq_iff)
qed

lemma remove_all_correct:
  assumes "fleet_ok fl"
  shows "returns (foldM (\<lambda>item. remove_stored (store_key am g (Unstr item))) items fl)
    (\<lambda>fl'. fleet_ok fl' \<and> keys_removed ((\<lambda>u. store_key am g (Unstr u)) ` set items) fl fl')"
proof (rule foldM_returns [where P = "\<lambda>pre fl'. fleet_ok fl' \<and> keys_removed ((\<lambda>u. store_key am g (Unstr u)) ` set pre) fl fl'"])
  fix pre u rest fl1
  assume fl1: "fleet_ok fl1 \<and> keys_removed ((\<lambda>u. store_key am g (Unstr u)) ` set pre) fl fl1"
  have ins: "(\<lambda>u. store_key am g (Unstr u)) ` set (pre @ [u]) = insert (store_key am g (Unstr u)) ((\<lambda>u. store_key am g (Unstr u)) ` set pre)"
    by auto
  from remove_stored_correct [of fl1 "store_key am g (Unstr u)"] fl1
  show "returns (remove_stored (store_key am g (Unstr u)) fl1) (\<lambda>fl'. fleet_ok fl' \<and> keys_removed ((\<lambda>u. store_key am g (Unstr u)) ` set (pre @ [u])) fl fl')"
    unfolding ins by (auto elim!: returns_mono intro: keys_removed_insert)
qed (use assms in \<open>simp add: keys_removed_def cong: map_cong\<close>)

text \<open>What the public writes do: one request, and then what the reply of the server asks for, the error included.\<close>

definition absorbed ::
    "'t api_machinery \<Rightarrow> gvk \<Rightarrow> 't client_object \<Rightarrow> 't fleet \<Rightarrow> api_request \<Rightarrow> go_error + gobj \<Rightarrow> (client_error + 't client_object) \<times> 't fleet \<Rightarrow> bool" where
  "absorbed am g obj fl req reply = (\<lambda>(r, fl').
     case reply of
       Inl e \<Rightarrow> r = Inl (CAPICallFailed e) \<and> fl' = send req fl
     | Inr u \<Rightarrow> r = converted am u obj \<and> wrote am g u (send req fl) fl')"

definition api_ok :: "api_server \<Rightarrow> bool" where
  "api_ok api \<longleftrightarrow>
     (\<forall>r ns x u. api_create api r ns x = Inr u \<longrightarrow> tree_ok (GMap u)) \<and>
     (\<forall>r ns x u. api_update api r ns x = Inr u \<longrightarrow> tree_ok (GMap u)) \<and>
     (\<forall>r ns x u. api_updateStatus api r ns x = Inr u \<longrightarrow> tree_ok (GMap u)) \<and>
     (\<forall>r ns n t d sub u. api_patch api r ns n t d sub = Inr u \<longrightarrow> tree_ok (GMap u))"

lemma with_result_absorbed:
  assumes "fleet_ok fl" "\<And>u. reply = Inr u \<Longrightarrow> tree_ok (GMap u)"
  shows "returns (with_result am g reply obj (send req fl)) (absorbed am g obj fl req reply)"
  using with_result_correct [where fl = "send req fl" and am = am and g = g and obj = obj and result = reply] assms
  by (simp add: absorbed_def)

lemma Client_writes:
  assumes "fleet_ok fl" "api_ok api" "GVKFromObject am obj = (g, None)"
  defines "r \<equiv> GVRFromGVK g" and "ns \<equiv> api_ns (am_GetNamespace am obj)" and "name \<equiv> am_GetName am obj"
  shows
    "ToUnstructured am obj = Inr u0 \<Longrightarrow>
      returns (Client_Create am api obj fl) (absorbed am g obj fl (CreateRequest r ns u0) (api_create api r ns u0))"
    "ToUnstructured am obj = Inr u0 \<Longrightarrow>
      returns (Client_Update am api obj fl) (absorbed am g obj fl (UpdateRequest r ns u0) (api_update api r ns u0))"
    "cp_data patch obj = Inr data \<Longrightarrow>
      returns (Client_Patch am api obj patch fl)
        (absorbed am g obj fl (PatchRequest r ns name (cp_type patch) data []) (api_patch api r ns name (cp_type patch) data []))"
    "ToUnstructured am (case body of Some b \<Rightarrow> b | None \<Rightarrow> obj) = Inr u0 \<Longrightarrow>
      returns (SubResource_Update am api Client_Status obj body fl)
        (absorbed am g obj fl (UpdateStatusRequest r ns u0) (api_updateStatus api r ns u0))"
    "ToUnstructured am (case body of Some b \<Rightarrow> b | None \<Rightarrow> obj) = Inr u0 \<Longrightarrow> sub \<noteq> ''status'' \<Longrightarrow>
      returns (SubResource_Update am api (Client_SubResource sub) obj body fl)
        (absorbed am g obj fl (UpdateRequest r ns u0) (api_update api r ns u0))"
    "cp_data patch (case body of Some b \<Rightarrow> b | None \<Rightarrow> obj) = Inr data \<Longrightarrow>
      returns (SubResource_Patch am api (Client_SubResource sub) obj patch body fl)
        (absorbed am g obj fl (PatchRequest r ns name (cp_type patch) data [sub]) (api_patch api r ns name (cp_type patch) data [sub]))"
  using with_result_absorbed [OF assms(1)] assms(2,3)
  by (simp_all add: Client_Create_def Client_Update_def Client_Patch_def SubResource_Update_def SubResource_Patch_def Client_Status_def
      Client_SubResource_def r_def ns_def name_def api_ok_def Let_def del: tree_ok.simps)

lemma Client_Delete_correct:
  assumes "fleet_inv fl" "GVKFromObject am obj = (g, None)"
    "api_delete api (GVRFromGVK g) (api_ns (am_GetNamespace am obj)) (am_GetName am obj) = None"
  shows "returns (Client_Delete am api obj fl) (\<lambda>(err, fl'). err = None \<and> fleet_inv fl' \<and> fl_managed fl' = fl_managed fl \<and>
    fl_view fl' = (fl_view fl)(store_key am g obj := None))"
  using remove_stored_correct [of "send (DeleteRequest (GVRFromGVK g) (api_ns (am_GetNamespace am obj)) (am_GetName am obj)) fl" "store_key am g obj"]
    fleet_inv_ok [OF assms(1)] assms
  by (auto simp: Client_Delete_def returns_iff Let_def)

text \<open>Objects are stored under their own namespace and name.\<close>

definition well_named :: "'t api_machinery \<Rightarrow> dedup_store \<Rightarrow> bool" where
  "well_named am s \<longleftrightarrow> (\<forall>key u. Get key s = Some (Some u) \<longrightarrow> store_key am (key_gvk key) (Unstr u) = key)"

lemma listed_keys:
  assumes "store_inv s" "well_named am s"
    and items: "List ff get_labels s g (if ns \<noteq> '''' then [WithNamespace ns] else []) = Some items"
  shows "k \<in> (\<lambda>u. store_key am g (Unstr u)) ` set items \<longleftrightarrow>
    store_view s k \<noteq> None \<and> key_gvk k = g \<and> (ns = '''' \<or> key_namespace k = ns)"
proof -
  let ?lo = "apply_options (if ns \<noteq> '''' then [WithNamespace ns] else [])"
  have hit: "list_hit ff get_labels g ?lo key obj \<longleftrightarrow> key_gvk key = g \<and> (ns = '''' \<or> key_namespace key = ns)" for key obj
    by (auto simp: list_hit_def selected_def apply_options_def no_list_options_def WithNamespace_def)
  have set: "set items = {node_obj s r | key r. (key, r) \<in> set (ds_objects s) \<and> key_gvk key = g \<and> (ns = '''' \<or> key_namespace key = ns)}"
    using items by (auto simp: List_eq [OF assms(1)] hit) blast+
  have get: "(key, r) \<in> set (ds_objects s) \<longleftrightarrow> go_get (ds_objects s) key = Some r" for key r
    by (rule go_in_set_iff [OF store_invD(2) [OF assms(1)]])
  have named: "store_key am (key_gvk key) (Unstr (node_obj s r)) = key" if "go_get (ds_objects s) key = Some r" for key r
    using assms(2) that Get_eq [OF assms(1), of key] by (auto simp: well_named_def)
  show ?thesis
  proof
    assume "k \<in> (\<lambda>u. store_key am g (Unstr u)) ` set items"
    then obtain key r where "go_get (ds_objects s) key = Some r" "key_gvk key = g" "ns = '''' \<or> key_namespace key = ns"
      "k = store_key am g (Unstr (node_obj s r))" by (auto simp: set get)
    with named [of key r] show "store_view s k \<noteq> None \<and> key_gvk k = g \<and> (ns = '''' \<or> key_namespace k = ns)"
      by (auto simp: store_view_def)
  next
    assume k: "store_view s k \<noteq> None \<and> key_gvk k = g \<and> (ns = '''' \<or> key_namespace k = ns)"
    then obtain r where r: "go_get (ds_objects s) k = Some r" by (auto simp: store_view_def)
    with k named [OF r] show "k \<in> (\<lambda>u. store_key am g (Unstr u)) ` set items"
      by (auto simp: set get intro!: image_eqI [where x = "node_obj s r"])
  qed
qed

definition in_scope :: "gvk \<Rightarrow> string \<Rightarrow> object_key \<Rightarrow> bool" where
  "in_scope g ns key \<longleftrightarrow> key_gvk key = g \<and> (ns = '''' \<or> key_namespace key = ns)"

lemma DeleteAllOf_correct:
  fixes opts :: "(delete_all_of_options \<Rightarrow> delete_all_of_options) list"
  assumes "fleet_ok fl" "well_named am (fl_store fl)" "GVKFromObject am obj = (g, None)"
  defines "r \<equiv> GVRFromGVK g" and "ns \<equiv> clo_namespace (dao_list (apply_delete_all_of opts))"
  defines "fl1 \<equiv> send (DeleteCollectionRequest r (api_ns ns) '''' '''') fl"
  shows "returns (Client_DeleteAllOf ff get_labels am api obj opts fl) (\<lambda>(err, fl').
    case api_deleteCollection api r (api_ns ns) '''' '''' of
      Some e \<Rightarrow> err = Some (CAPICallFailed e) \<and> fl' = fl1
    | None \<Rightarrow> err = None \<and> keys_removed {key. in_scope g ns key \<and> fl_view fl key \<noteq> None} fl1 fl')"
proof -
  from assms(1) have s: "store_inv (fl_store fl)" by (simp add: fleet_ok_def)
  obtain items where items: "List ff get_labels (fl_store fl) g (if ns \<noteq> '''' then [WithNamespace ns] else []) = Some items"
    using List_eq [OF s] by blast
  have "(\<lambda>u. store_key am g (Unstr u)) ` set items = {key. in_scope g ns key \<and> fl_view fl key \<noteq> None}"
    using listed_keys [OF s assms(2) items] by (auto simp: in_scope_def)
  moreover have "fleet_ok fl1" "fl_store fl1 = fl_store fl" using assms(1) by (simp_all add: fl1_def)
  ultimately show ?thesis
    using remove_all_correct [of fl1 am g items] items assms(3)
    by (cases "api_deleteCollection api r (api_ns ns) '''' ''''")
      (auto simp: Client_DeleteAllOf_def returns_iff Let_def r_def ns_def fl1_def)
qed

section \<open>Reads\<close>

lemma option_coherent_nth:
  "list_all (option_coherent s) lrus \<Longrightarrow> i < length lrus \<Longrightarrow> lrus ! i = Some lru \<Longrightarrow> lru_coherent s lru"
  by (metis list_all_length option.simps(5) option_coherent_def)

definition client_result :: "'t api_machinery \<Rightarrow> object_key \<Rightarrow> 't client_object \<Rightarrow> 't fleet \<Rightarrow> client_error + 't client_object \<Rightarrow> bool" where
  "client_result am key obj fl result \<longleftrightarrow>
     (case fl_view fl key of
        None \<Rightarrow> result = Inl (CCache (ObjectNotFound (key_namespace key) (key_name key)))
      | Some a \<Rightarrow> (\<exists>u. sem (GMap u) = a \<and>
          (result = converted am u obj \<or> result = (case FromUnstructured am u obj of Inl e \<Rightarrow> Inl (CCache (CacheConversion e)) | Inr x \<Rightarrow> Inr x))))"

lemma cache_read:
  assumes "fleet_inv fl" "GVKForObject am obj = Inr g" "gvk_slash_free g" "slash_free ns"
  shows "returns (case Cache_Get am ns name obj (fl_cache fl) of None \<Rightarrow> None
      | Some (r, c) \<Rightarrow> Some (case r of Inl e \<Rightarrow> Inl (CCache e) | Inr x \<Rightarrow> Inr x, fl\<lparr>fl_cache := c\<rparr>))
    (\<lambda>(r, fl'). client_result am \<lparr>key_gvk = g, key_namespace = ns, key_name = name\<rparr> obj fl r \<and> fleet_inv fl' \<and> fl_view fl' = fl_view fl)"
proof -
  let ?key = "\<lparr>key_gvk = g, key_namespace = ns, key_name = name\<rparr>"
  note F = fleet_invD [OF assms(1)]
  from Cache_Get_correct [OF F(5) assms(2-4), of name] obtain r c where
    c: "Cache_Get am ns name obj (fl_cache fl) = Some (r, c)" "get_result am ?key obj (fl_cache fl) r" "cache_inv c"
      "ca_cached c = ca_cached (fl_cache fl)" by (auto simp: returns_iff)
  have "client_result am ?key obj fl (case r of Inl e \<Rightarrow> Inl (CCache e) | Inr x \<Rightarrow> Inr x)"
    using c(2) by (auto simp: client_result_def get_result_def delivers_def simp del: sem.simps split: option.splits sum.splits)
  moreover have "fleet_inv (fl\<lparr>fl_cache := c\<rparr>)"
    using F c(3,4) by (simp add: fleet_inv_def)
  ultimately show ?thesis using c by simp
qed

lemma Client_Get_correct:
  assumes "fleet_inv fl" "GVKForObject am obj = Inr g" "gvk_slash_free g" "slash_free ns"
  shows "returns (Client_Get am i ns name obj fl) (\<lambda>(r, fl').
    client_result am \<lparr>key_gvk = g, key_namespace = ns, key_name = name\<rparr> obj fl r \<and> fleet_inv fl' \<and> fl_view fl' = fl_view fl)"
proof (cases "if i < length (fl_lrus fl) then fl_lrus fl ! i else None")
  case None
  with cache_read [OF assms, of name] show ?thesis by (simp add: Client_Get_def)
next
  case (Some lru)
  let ?key = "\<lparr>key_gvk = g, key_namespace = ns, key_name = name\<rparr>"
  have key: "key_ok ?key" "lruKey g ns name = key_lru ?key" using assms(3,4) by (simp_all add: key_ok_def key_lru_def)
  note F = fleet_invD [OF assms(1)]
  from Some have i: "i < length (fl_lrus fl)" "fl_lrus fl ! i = Some lru" by (auto split: if_splits)
  note coh = option_coherent_nth [OF F(3) i]
  obtain hit lru1 where g: "lru_get (key_lru ?key) lru = (hit, lru1)" by fastforce
  let ?fl = "fl\<lparr>fl_lrus := (fl_lrus fl)[i := Some lru1]\<rparr>"
  have "option_coherent (fl_store fl) (Some lru1)"
    using lru_coherent_get [OF coh, of "key_lru ?key"] g by (simp add: option_coherent_def)
  then have inv: "fleet_inv ?fl"
    using F i by (auto simp: fleet_inv_def list_all_length nth_list_update)
  show ?thesis
  proof (cases hit)
    case None
    with cache_read [OF inv assms(2-4), of name] i g assms(2) show ?thesis
      by (simp add: Client_Get_def key(2) client_result_def)
  next
    case (Some u)
    with lru_coherent_hit [OF coh key(1)] g have "fl_view fl ?key = Some (sem (GMap u))" by simp
    then have "client_result am ?key obj fl (converted am u obj)" by (auto simp: client_result_def simp del: sem.simps)
    with Some inv i g assms(2) show ?thesis
      by (simp add: Client_Get_def key(2) converted_def)
  qed
qed

end
