(* ===== verification/Fleet.thy ===== *)
theory Fleet
  imports Client_Proofs
begin

text \<open>
  What the operations of a client do to the LRUs of a fleet: no operation fills the LRU of a client, none gives the shared cache of a manager an LRU, and all keep the LRUs well formed.
\<close>

section \<open>Frames\<close>

lemma Cache_List_frame:
  assumes "Cache_List ff get_labels am scheme_New target opts c = Some (out, c')"
  shows "ca_cached c' = ca_cached c \<and> ca_lru c' = ca_lru c"
proof -
  have frame: "EnsureInformer am obj c = (err, c1) \<Longrightarrow> ca_cached c1 = ca_cached c \<and> ca_lru c1 = ca_lru c" for obj err c1
    using EnsureInformer_frame [of am obj c] by simp
  from assms show ?thesis
    by (auto simp: Cache_List_def Let_def dest: frame split: sum.splits prod.splits option.splits)
qed

lemma Client_List_frame:
  assumes "Client_List ff get_labels am scheme_New target opts fl = Some (out, fl')"
  shows "ca_cached (fl_cache fl') = ca_cached (fl_cache fl) \<and> ca_lru (fl_cache fl') = ca_lru (fl_cache fl) \<and>
    fl_managed fl' = fl_managed fl \<and> fl_lrus fl' = fl_lrus fl"
  using assms by (auto simp: Client_List_def dest: Cache_List_frame split: option.splits)

section \<open>No step fills the LRU of a client\<close>

definition unfilled :: "gobj lru_cache option \<Rightarrow> bool" where
  "unfilled lru \<longleftrightarrow> (case lru of None \<Rightarrow> True | Some l \<Rightarrow> lru_inv l \<and> lru_view l = (\<lambda>_. None))"

lemma unfilled_delete: "unfilled lru \<Longrightarrow> unfilled (map_option (lru_delete key) lru)"
  using lru.del_law by (cases lru) (auto simp: unfilled_def fun_eq_iff)

lemma unfilled_get: "unfilled (Some lru) \<Longrightarrow> fst (lru_get key lru) = None \<and> unfilled (Some (snd (lru_get key lru)))"
  using lru.get_law [of lru key] by (simp add: unfilled_def)

definition all_unfilled :: "'t fleet \<Rightarrow> bool" where
  "all_unfilled fl \<longleftrightarrow> list_all unfilled (fl_lrus fl)"

lemma all_unfilled_invalidate: "all_unfilled fl \<Longrightarrow> all_unfilled (invalidate_lrus key (set_store t fl))"
  by (auto simp: all_unfilled_def invalidate_lrus_simps list_all_iff unfilled_delete)

lemma with_result_unfilled: "with_result am g result obj fl = Some (r, fl') \<Longrightarrow> all_unfilled fl \<Longrightarrow> all_unfilled fl'"
  by (auto simp: with_result_def absorb_def Let_def all_unfilled_invalidate split: sum.splits option.splits)

lemma remove_stored_unfilled: "remove_stored key fl = Some fl' \<Longrightarrow> all_unfilled fl \<Longrightarrow> all_unfilled fl'"
  by (auto simp: remove_stored_def all_unfilled_invalidate split: option.splits)

lemma foldM_remove_unfilled:
  "foldM (\<lambda>item. remove_stored (store_key am g (Unstr item))) items fl = Some fl' \<Longrightarrow> all_unfilled fl \<Longrightarrow> all_unfilled fl'"
  by (induction items arbitrary: fl) (auto split: option.splits dest: remove_stored_unfilled)

lemma Client_Get_unfilled:
  assumes "all_unfilled fl"
  shows "Client_Get am i ns name obj fl = Some (r, fl') \<Longrightarrow> all_unfilled fl'"
    "\<exists>lrus. list_all unfilled lrus \<and> Client_Get am i ns name obj fl = (case Cache_Get am ns name obj (fl_cache fl) of
       None \<Rightarrow> None
     | Some (r, c) \<Rightarrow> Some (case r of Inl e \<Rightarrow> Inl (CCache e) | Inr x \<Rightarrow> Inr x, fl\<lparr>fl_cache := c, fl_lrus := lrus\<rparr>))"
proof -
  show ex: "\<exists>lrus. list_all unfilled lrus \<and> Client_Get am i ns name obj fl = (case Cache_Get am ns name obj (fl_cache fl) of
       None \<Rightarrow> None
     | Some (r, c) \<Rightarrow> Some (case r of Inl e \<Rightarrow> Inl (CCache e) | Inr x \<Rightarrow> Inr x, fl\<lparr>fl_cache := c, fl_lrus := lrus\<rparr>))"
  proof (cases "i < length (fl_lrus fl) \<and> fl_lrus fl ! i \<noteq> None \<and> (\<exists>g. GVKForObject am obj = Inr g)")
    case False
    then have "Client_Get am i ns name obj fl = (case Cache_Get am ns name obj (fl_cache fl) of
       None \<Rightarrow> None
     | Some (r, c) \<Rightarrow> Some (case r of Inl e \<Rightarrow> Inl (CCache e) | Inr x \<Rightarrow> Inr x, fl\<lparr>fl_cache := c\<rparr>))"
      by (auto simp: Client_Get_def Let_def split: option.split sum.split)
    with assms show ?thesis
      by (intro exI [of _ "fl_lrus fl"]) (auto simp: all_unfilled_def split: option.split prod.split)
  next
    case True
    then obtain lru g where i: "i < length (fl_lrus fl)" "fl_lrus fl ! i = Some lru" "GVKForObject am obj = Inr g" by auto
    with assms have "unfilled (Some lru)" by (metis all_unfilled_def list_all_length)
    from unfilled_get [OF this, of "lruKey g ns name"] obtain lru1 where
      lru1: "lru_get (lruKey g ns name) lru = (None, lru1)" "unfilled (Some lru1)" by (metis prod.collapse)
    have "list_all unfilled ((fl_lrus fl)[i := Some lru1])"
      using assms lru1(2) by (auto simp: all_unfilled_def list_all_iff dest: set_update_subset_insert [THEN subsetD])
    with i lru1(1) show ?thesis
      by (intro exI [of _ "(fl_lrus fl)[i := Some lru1]"]) (auto simp: Client_Get_def Let_def split: option.split prod.split)
  qed
  then show "Client_Get am i ns name obj fl = Some (r, fl') \<Longrightarrow> all_unfilled fl'"
    by (auto simp: all_unfilled_def split: option.splits)
qed

lemma all_unfilled_cached [simp]: "all_unfilled (fl\<lparr>fl_cache := c\<rparr>) = all_unfilled fl"
  by (simp add: all_unfilled_def)

lemma unfilled_empty: "unfilled (Some l) \<Longrightarrow> lru_len l = 0"
  by (simp add: unfilled_def lru_view_def lru_len_abs)

text \<open>The shared cache of a manager has no LRU, and no step gives it one.\<close>

lemma with_result_no_lru:
  "with_result am g result obj fl = Some (r, fl') \<Longrightarrow> ca_lru (fl_cache fl) = None \<Longrightarrow> ca_lru (fl_cache fl') = None"
  by (auto simp: with_result_def absorb_def Let_def invalidate_lrus_simps split: sum.splits option.splits)

lemma remove_stored_no_lru:
  "remove_stored key fl = Some fl' \<Longrightarrow> ca_lru (fl_cache fl) = None \<Longrightarrow> ca_lru (fl_cache fl') = None"
  by (auto simp: remove_stored_def invalidate_lrus_simps split: option.splits)

lemma foldM_remove_no_lru:
  "foldM (\<lambda>item. remove_stored (store_key am g (Unstr item))) items fl = Some fl' \<Longrightarrow> ca_lru (fl_cache fl) = None \<Longrightarrow>
   ca_lru (fl_cache fl') = None"
  by (induction items arbitrary: fl) (auto split: option.splits dest: remove_stored_no_lru)

lemma Cache_Get_no_lru:
  assumes "Cache_Get am ns name obj c = Some (r, c')" "ca_lru c = None"
  shows "ca_lru c' = None"
proof -
  have "ca_lru (snd (EnsureInformer am obj c)) = None" using assms(2) by (simp add: EnsureInformer_frame)
  with assms show ?thesis
    by (cases "EnsureInformer am obj c") (auto simp: Cache_Get_def Let_def split: sum.splits option.splits)
qed

section \<open>Well-formed LRUs\<close>

lemma unfilled_ok: "unfilled lru \<Longrightarrow> option_ok lru"
  by (auto simp: unfilled_def option_ok_def split: option.splits)

lemma all_unfilled_ok: "all_unfilled fl \<Longrightarrow> list_all option_ok (fl_lrus fl)"
  by (auto simp: all_unfilled_def list_all_iff unfilled_ok)

lemma absorb_cache_lru:
  "absorb am g u obj fl = Some (r, fl') \<Longrightarrow> ca_lru (fl_cache fl') = map_option (lru_delete (key_lru (store_key am g (Unstr u)))) (ca_lru (fl_cache fl))"
  by (auto simp: absorb_def Let_def invalidate_lrus_simps split: option.splits)

lemma remove_stored_cache_lru:
  "remove_stored key fl = Some fl' \<Longrightarrow> ca_lru (fl_cache fl') = map_option (lru_delete (key_lru key)) (ca_lru (fl_cache fl))"
  by (auto simp: remove_stored_def invalidate_lrus_simps split: option.splits)

text \<open>
  What \<open>Cache.Get\<close> does with the LRU: it answers with the entry of the key if there is one, and with the store otherwise, whose object it then enters; other entries stay or are evicted.
\<close>

definition read_outcome :: "'t api_machinery \<Rightarrow> object_key \<Rightarrow> 't client_object \<Rightarrow> gobj option \<Rightarrow> cache_error + 't client_object" where
  "read_outcome am key obj found =
     (case found of
        None \<Rightarrow> Inl (ObjectNotFound (key_namespace key) (key_name key))
      | Some u \<Rightarrow> (case FromUnstructured am u obj of Inl e \<Rightarrow> Inl (CacheConversion e) | Inr x \<Rightarrow> Inr x))"

lemma Cache_Get_lru:
  assumes "option_ok (ca_lru c)" "GVKForObject am obj = Inr g" "Get key (cd_store (ca_cached c)) = Some found"
    and key: "key = \<lparr>key_gvk = g, key_namespace = ns, key_name = name\<rparr>"
  shows "returns (Cache_Get am ns name obj c) (\<lambda>(r, c'). option_ok (ca_lru c') \<and>
    r = read_outcome am key obj (case entries (ca_lru c) (key_lru key) of None \<Rightarrow> found | Some u \<Rightarrow> Some u) \<and>
    (\<forall>k u. entries (ca_lru c') k = Some u \<longrightarrow> entries (ca_lru c) k = Some u \<or> k = key_lru key \<and> found = Some u))"
proof -
  have K: "lruKey g ns name = key_lru key" by (simp add: key key_lru_def)
  obtain c1 where c1: "EnsureInformer am obj c = (None, c1)" "ca_cached c1 = ca_cached c" "ca_lru c1 = ca_lru c"
    using EnsureInformer_frame [of am obj c] assms(2) by (cases "EnsureInformer am obj c") simp
  have get: "Get \<lparr>key_gvk = g, key_namespace = ns, key_name = name\<rparr> (cd_store (ca_cached c)) = Some found"
    using assms(3) key by simp
  show ?thesis
  proof (cases "ca_lru c")
    case None
    with c1 get assms(2) show ?thesis
      by (cases found) (simp_all add: Cache_Get_def read_outcome_def entries_def option_ok_def key)
  next
    case (Some lru)
    obtain hit lru1 where g: "lru_get (key_lru key) lru = (hit, lru1)" by fastforce
    from assms(1) Some have i: "lru_inv lru" by (simp add: option_ok_def)
    from lru.get_law [OF i, of "key_lru key"] g have G: "hit = lru_view lru (key_lru key)" "lru_inv lru1" "lru_view lru1 = lru_view lru" by simp_all
    have P: "lru_view lru (key_lru key) = None \<Longrightarrow> lru_view (lru_put (key_lru key) u lru1) k = Some v \<Longrightarrow> lru_view lru k = Some v \<or> k = key_lru key \<and> v = u" for u k v
      using lru.put_law [OF G(2), of "key_lru key" u] G(3) by (cases "k = key_lru key") (force simp: map_le_def)+
    note put_inv = lru.put_law [OF G(2), of "key_lru key"]
    note facts = Some c1 assms(2) get K G(2,3)
    show ?thesis
    proof (cases hit)
      case (Some u)
      with g G(1) have "lru_get (key_lru key) lru = (Some u, lru1)" "lru_view lru (key_lru key) = Some u" by simp_all
      with facts show ?thesis
        by (simp add: Cache_Get_def read_outcome_def entries_def option_ok_def Let_def)
    next
      case None
      with g G(1) have "lru_get (key_lru key) lru = (None, lru1)" "lru_view lru (key_lru key) = None" by simp_all
      with facts P put_inv show ?thesis
        by (cases found) (auto simp: Cache_Get_def read_outcome_def entries_def option_ok_def Let_def key)
    qed
  qed
qed

end
