(* ===== verification/System.thy ===== *)
theory System
  imports Informer_Run Fleet
begin

text \<open>
  The whole program: clients on one cache with all its goroutines. A \<open>system\<close> is a fleet and the runs that calls of the cache have started, one for each entry of
  \<open>im_running\<close>; several may run the same informer. A step of a run is a step of \<open>run_step\<close> on the shared store and indexer and on the informer in the map, which all
  runs of a GVK share. The other steps are calls: reads, which may start runs, writes of the clients, and the start of the cache. The history lists what
  happened: the labels of the runs with their GVKs, what clients stored and removed, and the keys they looked up.
\<close>

record run_control =
  rn_gvk :: gvk
  rn_phase :: run_phase
  rn_backoff :: int

record 't system =
  sy_fleet :: "'t fleet"
  sy_runs :: "run_control list"
  sy_calls :: "handler_call list"

datatype sys_event = Informed gvk run_label | Stored object_key gobj | Removed object_key | Looked object_key

type_synonym history = "sys_event list"

abbreviation sy_cache :: "'t system \<Rightarrow> 't cache" where
  "sy_cache s \<equiv> fl_cache (sy_fleet s)"

abbreviation sy_informers :: "'t system \<Rightarrow> (gvk, informer) gomap" where
  "sy_informers s \<equiv> im_informers (ca_map (sy_cache s))"

definition new_run :: "gvk \<Rightarrow> run_control" where
  "new_run g = \<lparr>rn_gvk = g, rn_phase = InitialList, rn_backoff = second\<rparr>"

text \<open>The runs that a call has started begin.\<close>

definition launch :: "'t system \<Rightarrow> 't fleet \<Rightarrow> 't system" where
  "launch s fl = s\<lparr>sy_fleet := fl, sy_runs := sy_runs s @ map new_run (drop (length (sy_runs s)) (im_running (ca_map (fl_cache fl))))\<rparr>"

definition run_of :: "'t system \<Rightarrow> nat \<Rightarrow> informer \<Rightarrow> 't run_state" where
  "run_of s i nf = \<lparr>rs_informer = nf, rs_cached = ca_cached (sy_cache s), rs_phase = rn_phase (sy_runs s ! i),
     rs_backoff = rn_backoff (sy_runs s ! i), rs_calls = sy_calls s\<rparr>"

definition settle :: "'t system \<Rightarrow> nat \<Rightarrow> 't run_state \<Rightarrow> 't system" where
  "settle s i t =
     (let c = sy_cache s; m = ca_map c; g = rn_gvk (sy_runs s ! i);
          c' = c\<lparr>ca_cached := rs_cached t, ca_map := m\<lparr>im_informers := go_put g (rs_informer t) (im_informers m)\<rparr>\<rparr>
      in s\<lparr>sy_fleet := (sy_fleet s)\<lparr>fl_cache := c'\<rparr>,
           sy_runs := (sy_runs s)[i := \<lparr>rn_gvk = g, rn_phase = rs_phase t, rn_backoff = rs_backoff t\<rparr>],
           sy_calls := rs_calls t\<rparr>)"

definition system_of :: "'t fleet \<Rightarrow> 't system" where
  "system_of fl = \<lparr>sy_fleet = fl, sy_runs = [], sy_calls = []\<rparr>"

text \<open>The key that a Get looks up, when the GVK of the object is known.\<close>

definition looked :: "'t api_machinery \<Rightarrow> string \<Rightarrow> string \<Rightarrow> 't client_object \<Rightarrow> history" where
  "looked am ns name obj =
     (case GVKForObject am obj of Inl _ \<Rightarrow> [] | Inr g \<Rightarrow> [Looked \<lparr>key_gvk = g, key_namespace = ns, key_name = name\<rparr>])"

text \<open>The writes of clients: after a request, an object that the server returned is stored, a deleted one removed, several by a deletion of many.\<close>

inductive client_writes :: "'t api_machinery \<Rightarrow> 't fleet \<Rightarrow> history \<Rightarrow> 't fleet \<Rightarrow> bool" for am where
  writes_nothing: "client_writes am fl [] fl"
| writes_request: "client_writes am fl [] (send req fl)"
| writes_object: "absorb am g u obj (send req fl) = Some (r, fl') \<Longrightarrow> tree_ok (GMap u) \<Longrightarrow>
    client_writes am fl [Stored (store_key am g (Unstr u)) u] fl'"
| writes_removal: "client_writes am fl h fl' \<Longrightarrow> remove_stored key fl' = Some fl'' \<Longrightarrow> client_writes am fl (h @ [Removed key]) fl''"

inductive sys_step :: "'t api_machinery \<Rightarrow> 't system \<Rightarrow> history \<Rightarrow> 't system \<Rightarrow> bool" for am where
  sys_informer:
    "i < length (sy_runs s) \<Longrightarrow> g = rn_gvk (sy_runs s ! i) \<Longrightarrow> go_get (sy_informers s) g = Some nf \<Longrightarrow>
     run_step am (run_of s i nf) l t \<Longrightarrow> label_ok l \<Longrightarrow> sys_step am s [Informed g l] (settle s i t)"
| sys_get: "Client_Get am i ns name obj (sy_fleet s) = Some (r, fl) \<Longrightarrow> sys_step am s (looked am ns name obj) (launch s fl)"
| sys_list: "Client_List ff get_labels am scheme_New target opts (sy_fleet s) = Some (out, fl) \<Longrightarrow> sys_step am s [] (launch s fl)"
| sys_ensure: "EnsureInformer am obj (sy_cache s) = (err, c) \<Longrightarrow> sys_step am s [] (launch s ((sy_fleet s)\<lparr>fl_cache := c\<rparr>))"
| sys_start: "sys_step am s [] (launch s (Client_Start (sy_fleet s)))"
| sys_new_client: "fl_managed (sy_fleet s) \<Longrightarrow>
    sys_step am s [] (launch s (snd (NewClient (cc :: (unit, unit) client_config) optFns (sy_fleet s))))"
| sys_write: "client_writes am (sy_fleet s) h fl \<Longrightarrow> sys_step am s h (launch s fl)"

inductive sys_trace :: "'t api_machinery \<Rightarrow> 't system \<Rightarrow> history \<Rightarrow> 't system \<Rightarrow> bool" for am where
  sys_nil: "sys_trace am s [] s"
| sys_snoc: "sys_trace am s h t \<Longrightarrow> sys_step am t h' u \<Longrightarrow> sys_trace am s (h @ h') u"

section \<open>Every write of a client is one of \<open>client_writes\<close>\<close>

lemma with_result_writes:
  assumes "with_result am g reply obj (send req fl) = Some (r, fl')" "\<And>u. reply = Inr u \<Longrightarrow> tree_ok (GMap u)"
  shows "\<exists>h. client_writes am fl h fl'"
  using assms by (cases reply) (auto simp: with_result_def simp del: tree_ok.simps intro: client_writes.intros)

lemma remove_all_writes:
  "client_writes am fl0 h fl \<Longrightarrow> foldM (\<lambda>item. remove_stored (store_key am g (Unstr item))) items fl = Some fl' \<Longrightarrow>
   \<exists>h'. client_writes am fl0 h' fl'"
  by (induction items arbitrary: fl h) (auto split: option.splits intro: writes_removal)

text \<open>All public writes of the clients, that is.\<close>

lemma client_operations_write:
  "api_ok api \<Longrightarrow> Client_Create am api obj fl = Some (r, fl') \<Longrightarrow> \<exists>h. client_writes am fl h fl'"
  "api_ok api \<Longrightarrow> Client_Update am api obj fl = Some (r, fl') \<Longrightarrow> \<exists>h. client_writes am fl h fl'"
  "api_ok api \<Longrightarrow> Client_Patch am api obj patch fl = Some (r, fl') \<Longrightarrow> \<exists>h. client_writes am fl h fl'"
  "Client_Delete am api obj fl = Some (err, fl') \<Longrightarrow> \<exists>h. client_writes am fl h fl'"
  "Client_DeleteAllOf ff get_labels am api obj opts fl = Some (err, fl') \<Longrightarrow> \<exists>h. client_writes am fl h fl'"
  "api_ok api \<Longrightarrow> SubResource_Update am api sub obj body fl = Some (r, fl') \<Longrightarrow> \<exists>h. client_writes am fl h fl'"
  "api_ok api \<Longrightarrow> SubResource_Patch am api sub obj patch body fl = Some (r, fl') \<Longrightarrow> \<exists>h. client_writes am fl h fl'"
  "\<exists>h. client_writes am fl h (snd (SubResource_Get am api sub obj x fl))"
  "\<exists>h. client_writes am fl h (snd (SubResource_Create am api sub obj x fl))"
  by (auto simp: Client_Create_def Client_Update_def Client_Patch_def Client_Delete_def Client_DeleteAllOf_def
      SubResource_Update_def SubResource_Patch_def SubResource_Get_def SubResource_Create_def api_ok_def Let_def simp del: tree_ok.simps send_simps
      split: sum.splits prod.splits option.splits if_splits
      intro: with_result_writes remove_all_writes [OF writes_request] writes_nothing writes_request writes_removal [OF writes_request, simplified])

section \<open>What the history says\<close>

text \<open>The update of a label depends on the GVK of the informer only.\<close>

definition gvk_update :: "'t api_machinery \<Rightarrow> gvk \<Rightarrow> run_label \<Rightarrow> (object_key \<Rightarrow> gobj option) \<Rightarrow> (object_key \<Rightarrow> gobj option)" where
  "gvk_update am g = label_update am (NewGVKInformer g (GVRFromGVK g) '''')"

fun event_effect :: "'t api_machinery \<Rightarrow> sys_event \<Rightarrow> (object_key \<Rightarrow> gobj option) \<Rightarrow> (object_key \<Rightarrow> gobj option)" where
  "event_effect am (Informed g l) m = gvk_update am g l m"
| "event_effect am (Stored key u) m = m(key \<mapsto> u)"
| "event_effect am (Removed key) m = m(key := None)"
| "event_effect am (Looked key) m = m"

fun informed :: "sys_event \<Rightarrow> bool" where
  "informed (Informed g l) = True"
| "informed _ = False"

definition history_view :: "'t api_machinery \<Rightarrow> history \<Rightarrow> object_key \<Rightarrow> gobj option" where
  "history_view am h = fold (event_effect am) h (\<lambda>_. None)"

text \<open>The indexer sees the informers only.\<close>

definition index_view :: "'t api_machinery \<Rightarrow> history \<Rightarrow> object_key \<Rightarrow> gobj option" where
  "index_view am h = history_view am (filter informed h)"

lemma history_view_snoc: "history_view am (h @ [e]) = event_effect am e (history_view am h)"
  by (simp add: history_view_def)

lemma history_view_append: "history_view am (h @ h') = fold (event_effect am) h' (history_view am h)"
  by (simp add: history_view_def)

lemma label_update_gvk:
  assumes "inf_gvk nf = g"
  shows "label_update am nf l m = gvk_update am g l m"
proof -
  have "inf_key am nf = inf_key am (NewGVKInformer g (GVRFromGVK g) '''')"
    using assms by (simp add: inf_key_def NewGVKInformer_def fun_eq_iff)
  then show ?thesis
    by (cases "(am, nf, l, m)" rule: label_update.cases)
       (simp_all add: gvk_update_def items_update_def event_update_def split: option.split)
qed

text \<open>
  An effect is pointwise, and an informer touches the keys of its own GVK only. So what happens to the objects of a GVK depends on the events of that GVK only.
\<close>

definition event_gvk :: "sys_event \<Rightarrow> gvk" where
  "event_gvk e = (case e of Informed g l \<Rightarrow> g | Stored key u \<Rightarrow> key_gvk key | Removed key \<Rightarrow> key_gvk key | Looked key \<Rightarrow> key_gvk key)"

lemma listed_gvk: "listed am nf items key = Some u \<Longrightarrow> key_gvk key = inf_gvk nf"
  by (auto simp: listed_def find_Some_iff inf_key_def store_key_def)

lemma gvk_update_point:
  "gvk_update am g l m key = (if key_gvk key = g then gvk_update am g l (\<lambda>_. m key) key else m key)"
proof -
  let ?nf = "NewGVKInformer g (GVRFromGVK g) ''''"
  have g: "inf_gvk ?nf = g" "key_gvk (inf_key am ?nf u) = g" for u
    by (simp_all add: NewGVKInformer_def inf_key_def store_key_def)
  show ?thesis
    by (cases "(am, ?nf, l, m)" rule: label_update.cases)
       (auto simp: gvk_update_def items_update_listed event_update_def g split: option.split dest: listed_gvk)
qed

lemma event_effect_point:
  "event_effect am e m key = (if event_gvk e = key_gvk key then event_effect am e (\<lambda>_. m key) key else m key)"
proof (cases e)
  case (Informed g l)
  with gvk_update_point [of am g l m key] show ?thesis by (auto simp: event_gvk_def)
qed (auto simp: event_gvk_def)

lemma history_view_own: "history_view am h key = history_view am (filter (\<lambda>e. event_gvk e = key_gvk key) h) key"
proof (induction h rule: rev_induct)
  case (snoc e h)
  show ?case
    using snoc event_effect_point [of am e "history_view am h" key]
      event_effect_point [of am e "history_view am (filter (\<lambda>e. event_gvk e = key_gvk key) h)" key]
    by (simp add: history_view_snoc)
qed simp

section \<open>The invariant\<close>

text \<open>
  The informers of a map only grow: a call keeps the informers, adds new ones that have not synced, and starts runs of informers of the map.
\<close>

definition map_grows :: "informer_map \<Rightarrow> informer_map \<Rightarrow> bool" where
  "map_grows m m' \<longleftrightarrow> (\<forall>g nf. go_get (im_informers m) g = Some nf \<longrightarrow> go_get (im_informers m') g = Some nf) \<and>
     (\<forall>g nf. go_get (im_informers m') g = Some nf \<longrightarrow> go_get (im_informers m) g = Some nf \<or> inf_gvk nf = g \<and> \<not> inf_hasSynced nf) \<and>
     (\<exists>gs. im_running m' = im_running m @ gs \<and> (\<forall>g\<in>set gs. go_get (im_informers m') g \<noteq> None))"

lemma map_grows_refl: "map_grows m m"
  by (simp add: map_grows_def)

lemma GetOrCreate_grows:
  "map_grows m (snd (GetOrCreate g m)) \<and> go_get (im_informers (snd (GetOrCreate g m))) g \<noteq> None"
  by (auto simp: map_grows_def GetOrCreate_eq Let_def NewGVKInformer_def gomap_simps split: option.splits)

lemma map_grows_start:
  assumes "map_grows m m'" "\<forall>g\<in>set gs. go_get (im_informers m') g \<noteq> None"
  shows "map_grows m (m'\<lparr>im_running := im_running m' @ gs\<rparr>)"
proof -
  from assms(1) obtain gs' where "im_running m' = im_running m @ gs'" "\<forall>g\<in>set gs'. go_get (im_informers m') g \<noteq> None"
    by (auto simp: map_grows_def)
  with assms(2) have "\<exists>fs. im_running m' @ gs = im_running m @ fs \<and> (\<forall>g\<in>set fs. go_get (im_informers m') g \<noteq> None)"
    by (intro exI [of _ "gs' @ gs"]) auto
  with assms(1) show ?thesis by (simp add: map_grows_def)
qed

lemma EnsureInformer_grows: "map_grows (ca_map c) (ca_map (snd (EnsureInformer am obj c)))"
proof (cases "GVKForObject am obj")
  case (Inl e)
  then show ?thesis by (simp add: EnsureInformer_def map_grows_refl)
next
  case (Inr g)
  obtain nf m where m: "GetOrCreate g (ca_map c) = (nf, m)" by fastforce
  with GetOrCreate_grows [of "ca_map c" g] map_grows_start [of "ca_map c" m "[g]"] Inr show ?thesis
    by (simp add: EnsureInformer_def)
qed

lemma Cache_Get_grows:
  assumes "Cache_Get am ns name obj c = Some (r, c')"
  shows "map_grows (ca_map c) (ca_map c') \<and> ca_cached c' = ca_cached c"
proof -
  obtain err c1 where c1: "EnsureInformer am obj c = (err, c1)" by fastforce
  have "map_grows (ca_map c) (ca_map c1)" "ca_cached c1 = ca_cached c"
    using EnsureInformer_grows [of c am obj] EnsureInformer_frame(1) [of am obj c] c1 by simp_all
  with assms c1 show ?thesis
    by (auto simp: Cache_Get_def Let_def map_grows_refl split: sum.splits option.splits prod.splits)
qed

lemma Client_Get_grows:
  assumes "Client_Get am i ns name obj fl = Some (r, fl')"
  shows "map_grows (ca_map (fl_cache fl)) (ca_map (fl_cache fl')) \<and> ca_cached (fl_cache fl') = ca_cached (fl_cache fl)"
  using assms
  by (auto simp: Client_Get_def Let_def map_grows_refl split: sum.splits option.splits prod.splits if_splits dest: Cache_Get_grows)

lemma Client_List_grows:
  assumes "Client_List ff get_labels am scheme_New target opts fl = Some (out, fl')"
  shows "map_grows (ca_map (fl_cache fl)) (ca_map (fl_cache fl')) \<and> ca_cached (fl_cache fl') = ca_cached (fl_cache fl)"
proof -
  have grows: "EnsureInformer am obj c = (err, c1) \<Longrightarrow> map_grows (ca_map c) (ca_map c1) \<and> ca_cached c1 = ca_cached c" for obj c err c1
    using EnsureInformer_grows [of c am obj] EnsureInformer_frame(1) [of am obj c] by simp
  from assms show ?thesis
    by (auto simp: Client_List_def Cache_List_def Let_def map_grows_refl split: sum.splits option.splits prod.splits dest: grows)
qed

text \<open>A write of a client changes the store and the LRUs only.\<close>

lemma invalidate_lrus_map: "ca_map (fl_cache (invalidate_lrus key (set_store t fl))) = ca_map (fl_cache fl)"
  by (simp add: invalidate_lrus_def set_store_def InvalidateLRU_def InvalidateAllLRUs_def Let_def split: option.split)

lemma invalidate_lrus_cached:
  "ca_cached (fl_cache (invalidate_lrus key (set_store t fl))) = (ca_cached (fl_cache fl))\<lparr>cd_store := t\<rparr>"
  by (simp add: invalidate_lrus_def set_store_def InvalidateLRU_def InvalidateAllLRUs_def Let_def split: option.split)

lemma absorb_holds:
  assumes "absorb am g u obj fl = Some (r, fl')" "holds (ca_cached (fl_cache fl)) ms mi" "tree_ok (GMap u)"
  shows "holds (ca_cached (fl_cache fl')) (ms(store_key am g (Unstr u) \<mapsto> u)) mi \<and> ca_map (fl_cache fl') = ca_map (fl_cache fl)"
proof -
  let ?key = "store_key am g (Unstr u)"
  from assms(2) have s: "store_inv (fl_store fl)" by (simp add: holds_def)
  from ds.ups_law [OF s assms(3), of ?key] obtain t where
    t: "Upsert ?key u (fl_store fl) = Some t" "store_inv t" "store_view t = (store_view (fl_store fl))(?key \<mapsto> sem (GMap u))" by (auto elim: returnsE)
  with assms(1,2) show ?thesis
    by (auto simp: absorb_def invalidate_lrus_map invalidate_lrus_cached holds_def)
qed

lemma remove_stored_holds:
  assumes "remove_stored key fl = Some fl'" "holds (ca_cached (fl_cache fl)) ms mi"
  shows "holds (ca_cached (fl_cache fl')) (ms(key := None)) mi \<and> ca_map (fl_cache fl') = ca_map (fl_cache fl)"
proof -
  from assms(2) have s: "store_inv (fl_store fl)" by (simp add: holds_def)
  from ds.del_law [OF s, of key] obtain t where
    t: "Delete key (fl_store fl) = Some t" "store_inv t" "store_view t = (store_view (fl_store fl))(key := None)" by (auto elim: returnsE)
  with assms show ?thesis
    by (auto simp: remove_stored_def invalidate_lrus_map invalidate_lrus_cached holds_def)
qed

lemma client_writes_holds:
  "client_writes am fl h fl' \<Longrightarrow> holds (ca_cached (fl_cache fl)) ms mi \<Longrightarrow>
   holds (ca_cached (fl_cache fl')) (fold (event_effect am) h ms) mi \<and> ca_map (fl_cache fl') = ca_map (fl_cache fl) \<and>
   list_all (\<lambda>e. \<not> informed e) h"
proof (induction rule: client_writes.induct)
  case (writes_object g u obj req fl r fl')
  from absorb_holds [OF writes_object.hyps(1) _ writes_object.hyps(2)] writes_object.prems show ?case by (simp add: fun_upd_def)
next
  case (writes_removal fl h fl' key fl'')
  with remove_stored_holds [OF writes_removal.hyps(2)] show ?case by (auto simp: fun_upd_def)
qed simp_all

text \<open>
  The invariant of a system: the store holds what the history says and the indexer what the informers said; every run is one that a call started and its informer is in the map; an informer that
  counts as synced has received a list.
\<close>

definition sys_inv :: "'t api_machinery \<Rightarrow> history \<Rightarrow> 't system \<Rightarrow> bool" where
  "sys_inv am h s \<longleftrightarrow>
     holds (ca_cached (sy_cache s)) (history_view am h) (index_view am h) \<and>
     map rn_gvk (sy_runs s) = im_running (ca_map (sy_cache s)) \<and>
     (\<forall>g\<in>set (im_running (ca_map (sy_cache s))). go_get (sy_informers s) g \<noteq> None) \<and>
     (\<forall>g nf. go_get (sy_informers s) g = Some nf \<longrightarrow> inf_gvk nf = g \<and>
        (inf_hasSynced nf \<longrightarrow> (\<exists>items rv. Informed g (ListReply (Inr (items, rv))) \<in> set h)))"

text \<open>Indexes are registered before the cache starts.\<close>

definition with_indexes :: "'t api_machinery \<Rightarrow> ('t client_object \<times> string \<times> ('t client_object \<Rightarrow> string list)) list \<Rightarrow> 't cache \<Rightarrow> 't cache" where
  "with_indexes am specs c = fold (\<lambda>(obj, field, fn) c. snd (IndexField am obj field fn c)) specs c"

lemma with_indexes_new:
  "holds (ca_cached (with_indexes am specs (NewCache namespaces n))) (\<lambda>_. None) (\<lambda>_. None) \<and>
   ca_map (with_indexes am specs (NewCache namespaces n)) = NewInformerMap namespaces"
proof (induction specs rule: rev_induct)
  case Nil
  show ?case using mirrors_empty by (simp add: with_indexes_def NewCache_def)
next
  case (snoc x specs)
  obtain obj field fn where x: "x = (obj, field, fn)" by (cases x)
  let ?c = "with_indexes am specs (NewCache namespaces n)"
  have step: "with_indexes am (specs @ [x]) (NewCache namespaces n) = snd (IndexField am obj field fn ?c)"
    by (simp add: x with_indexes_def)
  show ?case
  proof (cases "GVKForObject am obj")
    case (Inl e)
    with snoc show ?thesis by (simp add: step IndexField_def)
  next
    case (Inr g)
    obtain err idx where idx: "AddIndex g field fn (cd_index (ca_cached ?c)) = (err, idx)" by fastforce
    from snoc have i: "index_inv (cd_index (ca_cached ?c))" and r: "reflects (cd_index (ca_cached ?c)) (\<lambda>_. None)"
      by (simp_all add: holds_def)
    have "index_inv idx" "reflects idx (\<lambda>_. None)"
      using AddIndex_correct(1,2) [OF i, of g field fn] r idx by (simp_all add: reflects_def)
    with snoc Inr idx show ?thesis by (simp add: step IndexField_def holds_def)
  qed
qed

lemma with_indexes_lru: "ca_lru (with_indexes am specs c) = ca_lru c"
proof (induction specs arbitrary: c)
  case (Cons x specs)
  obtain obj field fn where x: "x = (obj, field, fn)" by (cases x)
  have "ca_lru (snd (IndexField am obj field fn c)) = ca_lru c" by (auto simp: IndexField_def Let_def split: sum.split prod.split)
  with Cons.IH show ?case by (simp add: x with_indexes_def)
qed (simp add: with_indexes_def)

lemma sys_inv_new: "fl_cache fl = with_indexes am specs (NewCache namespaces n) \<Longrightarrow> sys_inv am [] (system_of fl)"
  using with_indexes_new [of am specs namespaces n]
  by (simp add: sys_inv_def system_of_def NewInformerMap_def history_view_def index_view_def)

lemma sys_inv_launch:
  assumes "sys_inv am h s" "map_grows (ca_map (sy_cache s)) (ca_map (fl_cache fl))"
    "holds (ca_cached (fl_cache fl)) (history_view am (h @ h')) (index_view am (h @ h'))"
  shows "sys_inv am (h @ h') (launch s fl)"
proof -
  from assms(2) obtain gs where gs: "im_running (ca_map (fl_cache fl)) = im_running (ca_map (sy_cache s)) @ gs"
    "\<forall>g\<in>set gs. go_get (im_informers (ca_map (fl_cache fl))) g \<noteq> None" by (auto simp: map_grows_def)
  from assms(1) have runs: "map rn_gvk (sy_runs s) = im_running (ca_map (sy_cache s))" by (simp add: sys_inv_def)
  then have "length (sy_runs s) = length (im_running (ca_map (sy_cache s)))" by (metis length_map)
  with gs(1) have "drop (length (sy_runs s)) (im_running (ca_map (fl_cache fl))) = gs" by simp
  with runs gs(1) have "map rn_gvk (sy_runs (launch s fl)) = im_running (ca_map (fl_cache fl))"
    by (simp add: launch_def new_run_def comp_def)
  moreover have "go_get (im_informers (ca_map (fl_cache fl))) g \<noteq> None" if "g \<in> set (im_running (ca_map (fl_cache fl)))" for g
    using that gs assms(1,2) by (fastforce simp: sys_inv_def map_grows_def)
  moreover have "inf_gvk nf = g \<and> (inf_hasSynced nf \<longrightarrow> (\<exists>items rv. Informed g (ListReply (Inr (items, rv))) \<in> set (h @ h')))"
    if "go_get (im_informers (ca_map (fl_cache fl))) g = Some nf" for g nf
    using that assms(1,2) unfolding sys_inv_def map_grows_def by (metis (no_types, lifting) Un_iff set_append)
  ultimately show ?thesis using assms(3) by (simp add: sys_inv_def launch_def)
qed

text \<open>A run that marks its informer as synced has just received a list.\<close>

lemma run_step_synced:
  "run_step am s l t \<Longrightarrow> inf_hasSynced (rs_informer t) \<Longrightarrow> inf_hasSynced (rs_informer s) \<or> (\<exists>items rv. l = ListReply (Inr (items, rv)))"
  by (induction rule: run_step.induct) (auto dest: informer_list_ok)

lemma sys_inv_informer:
  assumes "sys_inv am h s" "i < length (sy_runs s)" "g = rn_gvk (sy_runs s ! i)" "go_get (sy_informers s) g = Some nf"
    "run_step am (run_of s i nf) l t" "label_ok l"
  shows "sys_inv am (h @ [Informed g l]) (settle s i t)"
proof -
  let ?s = "run_of s i nf" and ?h = "h @ [Informed g l]"
  from assms(1,4) have g: "inf_gvk nf = g" by (simp add: sys_inv_def)
  from assms(1) have "holds (rs_cached ?s) (history_view am h) (index_view am h)" by (simp add: sys_inv_def run_of_def)
  from run_step_holds [OF assms(5) this assms(6)]
  have "holds (rs_cached t) (history_view am ?h) (index_view am ?h)"
    by (simp add: run_of_def label_update_gvk [OF g] history_view_snoc index_view_def)
  moreover have "map rn_gvk ((sy_runs s)[i := \<lparr>rn_gvk = g, rn_phase = p, rn_backoff = b\<rparr>]) = map rn_gvk (sy_runs s)" for p b
    using assms(2,3) by (simp add: map_update list_update_same_conv)
  moreover from run_step_source [OF assms(5)] g have "inf_gvk (rs_informer t) = g" by (simp add: same_source_def run_of_def)
  moreover have "\<exists>items rv. Informed g (ListReply (Inr (items, rv))) \<in> set ?h" if "inf_hasSynced (rs_informer t)"
  proof (cases "inf_hasSynced nf")
    case True
    with assms(1,4) have "\<exists>items rv. Informed g (ListReply (Inr (items, rv))) \<in> set h" by (simp add: sys_inv_def)
    then show ?thesis by auto
  next
    case False
    with run_step_synced [OF assms(5) that] show ?thesis by (auto simp: run_of_def)
  qed
  ultimately show ?thesis
    using assms(1,3) by (auto simp: sys_inv_def settle_def Let_def gomap_simps)
qed

lemma sys_step_inv: "sys_step am s h' t \<Longrightarrow> sys_inv am h s \<Longrightarrow> sys_inv am (h @ h') t"
proof (induction rule: sys_step.induct)
  case (sys_informer i s g nf l t)
  then show ?case using sys_inv_informer by blast
next
  case (sys_get i ns name obj s r fl)
  have "history_view am (h @ looked am ns name obj) = history_view am h" "index_view am (h @ looked am ns name obj) = index_view am h"
    by (simp_all add: looked_def history_view_append index_view_def split: sum.split)
  with Client_Get_grows [OF sys_get.hyps] sys_inv_launch [OF sys_get.prems, of fl "looked am ns name obj"] sys_get.prems show ?case
    by (simp add: sys_inv_def)
next
  case (sys_list ff get_labels scheme_New target opts s out fl)
  from Client_List_grows [OF sys_list.hyps] sys_inv_launch [OF sys_list.prems, of fl "[]"] sys_list.prems show ?case
    by (simp add: sys_inv_def)
next
  case (sys_ensure obj s err c)
  from EnsureInformer_grows [of "sy_cache s" am obj] EnsureInformer_frame(1) [of am obj "sy_cache s"] sys_ensure
    sys_inv_launch [OF sys_ensure.prems, of "(sy_fleet s)\<lparr>fl_cache := c\<rparr>" "[]"] show ?case
    by (simp add: sys_inv_def)
next
  case (sys_start s)
  have "map_grows (ca_map (sy_cache s)) (ca_map (Cache_Start (sy_cache s)))"
    using map_grows_start [OF map_grows_refl, of "go_keys (sy_informers s)" "ca_map (sy_cache s)"]
    by (auto simp: Cache_Start_def InformerMap_Start_def map_of_eq_None_iff)
  with sys_inv_launch [OF sys_start, of "Client_Start (sy_fleet s)" "[]"] sys_start show ?case
    by (simp add: sys_inv_def Client_Start_def) (simp add: Cache_Start_def)
next
  case (sys_new_client s cc optFns)
  with sys_inv_launch [OF sys_new_client.prems, of "snd (NewClient cc optFns (sy_fleet s))" "[]"] show ?case
    by (simp add: sys_inv_def NewClient_def Let_def map_grows_refl)
next
  case (sys_write s h' fl)
  from sys_write.prems have "holds (ca_cached (sy_cache s)) (history_view am h) (index_view am h)" by (simp add: sys_inv_def)
  from client_writes_holds [OF sys_write.hyps this] sys_inv_launch [OF sys_write.prems, of fl h'] show ?case
    by (simp add: history_view_append index_view_def map_grows_refl list_all_iff filter_empty_conv)
qed

lemma sys_trace_inv: "sys_trace am s h t \<Longrightarrow> sys_inv am [] s \<Longrightarrow> sys_inv am h t"
  by (induction rule: sys_trace.induct) (auto intro: sys_step_inv)

section \<open>The registered indexes stay\<close>

abbreviation sy_funcs where
  "sy_funcs s \<equiv> idx_funcs (cd_index (ca_cached (sy_cache s)))"

lemma cached_funcs:
  "cached_upsert key u d = Some d' \<Longrightarrow> idx_funcs (cd_index d') = idx_funcs (cd_index d)"
  "cached_delete key d = Some d' \<Longrightarrow> idx_funcs (cd_index d') = idx_funcs (cd_index d)"
  by (auto simp: cached_upsert_def cached_delete_def UpdateIndex_funcs RemoveIndex_def remove_entries_def split: option.splits)

lemma handleEvent_funcs:
  "handleEvent am nf ev d = Some (err, d', calls) \<Longrightarrow> idx_funcs (cd_index d') = idx_funcs (cd_index d)"
  by (auto simp: handleEvent_def Let_def dest: cached_funcs split: event_type.splits option.splits if_splits bind_splits)

lemma informer_list_funcs:
  assumes "informer_list am nf reply d = Some (rv, err, d')"
  shows "idx_funcs (cd_index d') = idx_funcs (cd_index d)"
proof -
  have "foldM (\<lambda>item. cached_upsert (inf_key am nf item) item) items d = Some d' \<Longrightarrow> idx_funcs (cd_index d') = idx_funcs (cd_index d)" for items d d'
    by (induction items arbitrary: d) (auto split: option.splits dest: cached_funcs)
  with assms show ?thesis by (auto simp: informer_list_def split: sum.splits prod.splits bind_splits)
qed

lemma run_step_funcs: "run_step am s l t \<Longrightarrow> idx_funcs (cd_index (rs_cached t)) = idx_funcs (cd_index (rs_cached s))"
  by (induction rule: run_step.induct) (auto dest: handleEvent_funcs informer_list_funcs)

lemma client_writes_index:
  "client_writes am fl h fl' \<Longrightarrow> cd_index (ca_cached (fl_cache fl')) = cd_index (ca_cached (fl_cache fl))"
  by (induction rule: client_writes.induct)
     (auto simp: absorb_def remove_stored_def Let_def invalidate_lrus_simps(2) split: sum.splits option.splits)

lemma sys_step_funcs: "sys_step am s h t \<Longrightarrow> sy_funcs t = sy_funcs s"
proof (induction rule: sys_step.induct)
  case (sys_informer i s g nf l t)
  from run_step_funcs [OF sys_informer.hyps(4)] show ?case by (simp add: settle_def run_of_def Let_def)
next
  case (sys_ensure obj s err c)
  with EnsureInformer_frame(1) [of am obj "sy_cache s"] show ?case by (simp add: launch_def)
qed (auto simp: launch_def Client_Start_def Cache_Start_def NewClient_def Let_def dest: Client_Get_grows Client_List_grows client_writes_index)

lemma sys_trace_funcs: "sys_trace am s h t \<Longrightarrow> sy_funcs t = sy_funcs s"
  by (induction rule: sys_trace.induct) (auto dest: sys_step_funcs)

section \<open>The LRUs of a system\<close>

text \<open>
  The LRUs of the clients of a manager stay empty, and that of the cache is well formed: \<open>tidy\<close>. The shared cache of a manager has none, so no informer can make a read stale: \<open>quiet\<close>.
\<close>

definition tidy :: "'t system \<Rightarrow> bool" where
  "tidy s \<longleftrightarrow> all_unfilled (sy_fleet s) \<and> option_ok (ca_lru (sy_cache s)) \<and> (fl_managed (sy_fleet s) \<or> fl_lrus (sy_fleet s) = [])"

definition quiet :: "'t system \<Rightarrow> bool" where
  "quiet s \<longleftrightarrow> tidy s \<and> ca_lru (sy_cache s) = None"

lemma all_unfilled_send [simp]: "all_unfilled (send req fl) = all_unfilled fl"
  by (simp add: all_unfilled_def)

lemma client_writes_tidy:
  "client_writes am fl h fl' \<Longrightarrow> all_unfilled fl \<and> option_ok (ca_lru (fl_cache fl)) \<Longrightarrow>
   all_unfilled fl' \<and> option_ok (ca_lru (fl_cache fl')) \<and> fl_managed fl' = fl_managed fl \<and> length (fl_lrus fl') = length (fl_lrus fl) \<and>
   (ca_lru (fl_cache fl) = None \<longrightarrow> ca_lru (fl_cache fl') = None)"
proof (induction rule: client_writes.induct)
  case (writes_object g u obj req fl r fl')
  then have "with_result am g (Inr u) obj (send req fl) = Some (r, fl')" by (simp add: with_result_def)
  with writes_object have "all_unfilled fl'" by (auto dest: with_result_unfilled)
  moreover have "fl_managed fl' = fl_managed fl" "length (fl_lrus fl') = length (fl_lrus fl)"
    using writes_object.hyps(1) by (auto simp: absorb_def Let_def invalidate_lrus_simps split: option.splits)
  ultimately show ?case using absorb_cache_lru [OF writes_object.hyps(1)] writes_object.prems option_delete(1) by simp
next
  case (writes_removal fl h fl' key fl'')
  have "fl_managed fl'' = fl_managed fl'" "length (fl_lrus fl'') = length (fl_lrus fl')"
    using writes_removal.hyps(2) by (auto simp: remove_stored_def invalidate_lrus_simps split: option.splits)
  with writes_removal remove_stored_unfilled [OF writes_removal.hyps(2)] remove_stored_cache_lru [OF writes_removal.hyps(2)] option_delete(1)
  show ?case by simp
qed simp_all

text \<open>A Get of a client of a tidy system is a Get of the cache.\<close>

lemma tidy_get:
  assumes "tidy s" "Client_Get am i ns name obj (sy_fleet s) = Some (r, fl)"
  obtains r' lrus where "Cache_Get am ns name obj (sy_cache s) = Some (r', fl_cache fl)" "r = (case r' of Inl e \<Rightarrow> Inl (CCache e) | Inr x \<Rightarrow> Inr x)"
    "all_unfilled fl" "fl_managed fl = fl_managed (sy_fleet s)" "fl_lrus (sy_fleet s) = [] \<longrightarrow> fl_lrus fl = []"
proof -
  from assms(1) have u: "all_unfilled (sy_fleet s)" by (simp add: tidy_def)
  from Client_Get_unfilled(2) [OF u, of am i ns name obj] assms(2) obtain r' c lrus where
    get: "Cache_Get am ns name obj (sy_cache s) = Some (r', c)" "r = (case r' of Inl e \<Rightarrow> Inl (CCache e) | Inr x \<Rightarrow> Inr x)"
      "fl = (sy_fleet s)\<lparr>fl_cache := c, fl_lrus := lrus\<rparr>"
    by (auto split: option.splits)
  have "fl_lrus (sy_fleet s) = [] \<longrightarrow> fl_lrus fl = []"
    using assms(2) by (auto simp: Client_Get_def Let_def split: option.splits)
  with get Client_Get_unfilled(1) [OF u assms(2)] that show thesis by simp
qed

lemma Cache_Get_tidy:
  assumes "Cache_Get am ns name obj c = Some (r, c')" "option_ok (ca_lru c)" "store_inv (cd_store (ca_cached c))"
  shows "option_ok (ca_lru c') \<and> (ca_lru c = None \<longrightarrow> ca_lru c' = None)"
proof (cases "GVKForObject am obj")
  case (Inl e)
  with assms(1,2) show ?thesis by (simp add: Cache_Get_def)
next
  case (Inr g)
  from ds.get_law [OF assms(3), of "\<lparr>key_gvk = g, key_namespace = ns, key_name = name\<rparr>"] obtain found where
    "Get \<lparr>key_gvk = g, key_namespace = ns, key_name = name\<rparr> (cd_store (ca_cached c)) = Some found" by (rule returnsE)
  from Cache_Get_lru [OF assms(2) Inr this refl] assms(1) Cache_Get_no_lru [OF assms(1)] show ?thesis by simp
qed

lemma sys_step_tidy: "sys_step am s h' t \<Longrightarrow> sys_inv am h s \<Longrightarrow> tidy s \<Longrightarrow> tidy t \<and> (quiet s \<longrightarrow> quiet t)"
proof (induction rule: sys_step.induct)
  case (sys_get i ns name obj s r fl)
  from sys_get.prems(1) have "store_inv (cd_store (ca_cached (sy_cache s)))" by (simp add: sys_inv_def holds_def)
  moreover from tidy_get [OF sys_get.prems(2) sys_get.hyps] obtain r' where
    "Cache_Get am ns name obj (sy_cache s) = Some (r', fl_cache fl)" "all_unfilled fl" "fl_managed fl = fl_managed (sy_fleet s)"
    "fl_lrus (sy_fleet s) = [] \<longrightarrow> fl_lrus fl = []" by metis
  ultimately show ?case using sys_get.prems(2) Cache_Get_tidy [of am ns name obj "sy_cache s" r' "fl_cache fl"]
    by (auto simp: tidy_def quiet_def launch_def)
next
  case (sys_list ff get_labels scheme_New target opts s out fl)
  then show ?case by (auto simp: tidy_def quiet_def launch_def all_unfilled_def dest!: Client_List_frame)
next
  case (sys_ensure obj s err c)
  with EnsureInformer_frame(2) [of am obj "sy_cache s"] show ?case by (simp add: tidy_def quiet_def launch_def)
next
  case (sys_new_client s cc optFns)
  then show ?case by (simp add: tidy_def quiet_def launch_def NewClient_def Let_def all_unfilled_def unfilled_def lru_inv_new lru_view_new)
next
  case (sys_write s h' fl)
  from client_writes_tidy [OF sys_write.hyps] sys_write.prems(2) show ?case by (auto simp: tidy_def quiet_def launch_def)
qed (simp_all add: tidy_def quiet_def launch_def settle_def Client_Start_def Cache_Start_def Let_def all_unfilled_def)

lemma sys_trace_tidy:
  "sys_trace am s h t \<Longrightarrow> sys_inv am [] s \<Longrightarrow> tidy s \<Longrightarrow> tidy t \<and> (quiet s \<longrightarrow> quiet t)"
proof (induction rule: sys_trace.induct)
  case (sys_snoc s h t h' u)
  with sys_step_tidy [OF sys_snoc.hyps(2) sys_trace_inv [OF sys_snoc.hyps(1)]] show ?case by blast
qed simp

lemma tidy_new: "fl_cache fl = with_indexes am specs (NewCache namespaces n) \<Longrightarrow> fl_lrus fl = [] \<Longrightarrow> tidy (system_of fl)"
  using with_indexes_lru [of am specs "NewCache namespaces n"]
  by (auto simp: tidy_def system_of_def all_unfilled_def option_ok_def NewCache_def lru_inv_new)

lemma tidy_fleet_ok: "tidy s \<Longrightarrow> sys_inv am h s \<Longrightarrow> fleet_ok (sy_fleet s)"
  by (auto simp: tidy_def fleet_ok_def fleet_lrus_def sys_inv_def holds_def all_unfilled_ok)

lemma manager_new:
  assumes "NewSharedStoreManager newScheme defaultMapper cfg dyn optFns = Inr (cc, fl)"
  shows "quiet (system_of fl) \<and> sys_inv am [] (system_of fl) \<and> fl_managed fl"
proof -
  from assms obtain namespaces where fl: "fl_cache fl = NewCache namespaces 0" "fl_lrus fl = []" "fl_managed fl"
    by (auto simp: NewSharedStoreManager_def Let_def split: option.splits if_splits)
  then have "quiet (system_of fl)" by (simp add: quiet_def tidy_def option_ok_def system_of_def all_unfilled_def NewCache_def)
  moreover from fl(1) have "fl_cache fl = with_indexes am [] (NewCache namespaces 0)" by (simp add: with_indexes_def)
  ultimately show ?thesis using sys_inv_new fl(3) by blast
qed

text \<open>So a read of a manager's client is a reconstruction from the store.\<close>

lemma quiet_read:
  assumes "quiet s" "sys_inv am h s" "GVKForObject am obj = Inr g" "gvk_slash_free g" "slash_free ns"
    and key_def: "key = \<lparr>key_gvk = g, key_namespace = ns, key_name = name\<rparr>"
  shows "returns (Client_Get am i ns name obj (sy_fleet s)) (\<lambda>(r, fl').
    case history_view am h key of
      None \<Rightarrow> r = Inl (CCache (ObjectNotFound ns name))
    | Some u \<Rightarrow> (\<exists>w. sem (GMap w) = sem (GMap u) \<and>
        r = (case FromUnstructured am w obj of Inl e \<Rightarrow> Inl (CCache (CacheConversion e)) | Inr x \<Rightarrow> Inr x)))"
proof -
  from assms(1) have unfilled: "all_unfilled (sy_fleet s)" and lru: "ca_lru (sy_cache s) = None" by (simp_all add: quiet_def tidy_def)
  from assms(2) have holds: "holds (ca_cached (sy_cache s)) (history_view am h) (index_view am h)" by (simp add: sys_inv_def)
  with lru have "cache_inv (sy_cache s)" by (simp add: cache_inv_def option_coherent_def holds_def)
  from Cache_Get_correct [OF this assms(3-5), of name] obtain r c where
    r: "Cache_Get am ns name obj (sy_cache s) = Some (r, c)" "get_result am key obj (sy_cache s) r" by (auto simp: returns_iff key_def)
  from holds have "cache_view (sy_cache s) key = map_option (\<lambda>u. sem (GMap u)) (history_view am h key)" by (simp add: holds_def)
  with r(2) have "case history_view am h key of
      None \<Rightarrow> r = Inl (ObjectNotFound ns name)
    | Some u \<Rightarrow> (\<exists>w. sem (GMap w) = sem (GMap u) \<and> delivers am obj w r)"
    by (auto simp: get_result_def key_def simp del: sem.simps split: option.splits)
  moreover from Client_Get_unfilled(2) [OF unfilled, of am i ns name obj] r(1) obtain fl' where
    "Client_Get am i ns name obj (sy_fleet s) = Some (case r of Inl e \<Rightarrow> Inl (CCache e) | Inr x \<Rightarrow> Inr x, fl')" by auto
  moreover have "delivers am obj w r \<Longrightarrow> (case r of Inl e \<Rightarrow> Inl (CCache e) | Inr x \<Rightarrow> Inr x) =
      (case FromUnstructured am w obj of Inl e \<Rightarrow> Inl (CCache (CacheConversion e)) | Inr x \<Rightarrow> Inr x)" for w
    by (auto simp: delivers_def split: sum.splits)
  ultimately show ?thesis
    by (cases "history_view am h key") (auto simp del: sem.simps)
qed

section \<open>Synchronisation\<close>

lemma WaitForCacheSync_synced: "WaitForCacheSync [(False, nfs, ended)] = Some True \<Longrightarrow> all_synced nfs"
  by (simp add: all_synced_def split: if_splits)

text \<open>Events that leave a key alone.\<close>

definition leaves :: "'t api_machinery \<Rightarrow> object_key \<Rightarrow> sys_event \<Rightarrow> bool" where
  "leaves am key e \<longleftrightarrow> (\<forall>m. event_effect am e m key = m key)"

lemma history_view_leaves: "\<forall>e\<in>set h'. leaves am key e \<Longrightarrow> history_view am (h @ h') key = history_view am h key"
  by (induction h' rule: rev_induct) (auto simp: history_view_snoc leaves_def simp flip: append_assoc)

lemma listed_last:
  "listed am nf items key = Some v \<Longrightarrow> \<exists>before after. items = before @ v # after \<and> inf_key am nf v = key \<and> list_all (\<lambda>w. inf_key am nf w \<noteq> key) after"
proof (induction items rule: rev_induct)
  case (snoc w items)
  show ?case
  proof (cases "inf_key am nf w = key")
    case True
    with snoc.prems have "v = w" by (simp add: listed_def)
    with True show ?thesis by fastforce
  next
    case False
    with snoc obtain before after where "items = before @ v # after" "inf_key am nf v = key" "list_all (\<lambda>w. inf_key am nf w \<noteq> key) after"
      by (auto simp: listed_def)
    with False show ?thesis by (intro exI [of _ before] exI [of _ "after @ [w]"]) simp
  qed
qed (simp add: listed_def)

lemma history_view_listed:
  assumes "u \<in> set items" "\<forall>e\<in>set h'. leaves am (store_key am g (Unstr u)) e"
  shows "\<exists>before v after. items = before @ v # after \<and> store_key am g (Unstr v) = store_key am g (Unstr u) \<and>
    list_all (\<lambda>w. store_key am g (Unstr w) \<noteq> store_key am g (Unstr u)) after \<and>
    history_view am (h @ [Informed g (ListReply (Inr (items, rv)))] @ h') (store_key am g (Unstr u)) = Some v"
proof -
  let ?nf = "NewGVKInformer g (GVRFromGVK g) ''''" and ?key = "store_key am g (Unstr u)"
  have key: "inf_key am ?nf w = store_key am g (Unstr w)" for w by (simp add: inf_key_def NewGVKInformer_def)
  have "listed am ?nf items ?key \<noteq> None" using assms(1) by (auto simp: listed_def find_None_iff key)
  then obtain v where v: "listed am ?nf items ?key = Some v" by auto
  moreover have "history_view am ((h @ [Informed g (ListReply (Inr (items, rv)))]) @ h') ?key = Some v"
    using v by (simp only: history_view_leaves [OF assms(2)]) (simp add: history_view_snoc gvk_update_def items_update_listed)
  ultimately show ?thesis using listed_last [OF v] by (auto simp: key)
qed

end
