(* ===== verification/Histories.thy ===== *)
theory Histories
  imports System
begin

text \<open>
  What a history says of a system beyond the contents of its store: under which keys objects are filed, and when the entry of the LRU of a cache (\<open>cache/cache.go\<close>, \<open>reconstructCache\<close>) may be
  out of date.
\<close>

section \<open>Objects are filed under their own names\<close>

fun label_objects :: "run_label \<Rightarrow> gobj list" where
  "label_objects (ListReply (Inr (items, rv))) = items"
| "label_objects (WatchEvent ev) = (case ev_object ev of None \<Rightarrow> [] | Some u \<Rightarrow> [u])"
| "label_objects _ = []"

fun event_objects :: "sys_event \<Rightarrow> gobj list" where
  "event_objects (Informed g l) = label_objects l"
| "event_objects (Stored key u) = [u]"
| "event_objects _ = []"

definition own_named :: "'t api_machinery \<Rightarrow> history \<Rightarrow> bool" where
  "own_named am h \<longleftrightarrow> (\<forall>key u. Stored key u \<in> set h \<longrightarrow> store_key am (key_gvk key) (Unstr u) = key)"

lemma own_named_append [simp]: "own_named am (h @ h') \<longleftrightarrow> own_named am h \<and> own_named am h'"
  by (auto simp: own_named_def)

lemma client_writes_events:
  "client_writes am fl h fl' \<Longrightarrow> own_named am h \<and> list_all (\<lambda>e. case e of Stored _ _ \<Rightarrow> True | Removed _ \<Rightarrow> True | _ \<Rightarrow> False) h"
  by (induction rule: client_writes.induct) (simp_all add: own_named_def store_key_def)

lemma sys_trace_own_named: "sys_trace am s h t \<Longrightarrow> own_named am h"
proof (induction rule: sys_trace.induct)
  case (sys_snoc s h t h' u)
  from sys_snoc.hyps(2) have "own_named am h'"
    by (cases rule: sys_step.cases) (auto simp: own_named_def looked_def split: sum.split dest: client_writes_events)
  with sys_snoc.IH show ?case by simp
qed (simp add: own_named_def)

lemma gvk_update_source:
  assumes "gvk_update am g l m key = Some u"
  shows "m key = Some u \<or> u \<in> set (label_objects l) \<and> store_key am g (Unstr u) = key"
proof -
  have inf: "inf_key am (NewGVKInformer g (GVRFromGVK g) '''') v = store_key am g (Unstr v)" for v
    by (simp add: inf_key_def NewGVKInformer_def)
  show ?thesis
    using assms
    by (cases l rule: label_objects.cases)
      (auto simp: gvk_update_def items_update_listed event_update_def listed_def inf find_Some_iff rev_nth split: option.splits if_splits)
qed

lemma history_named:
  assumes "own_named am h" "history_view am h key = Some u"
  shows "store_key am (key_gvk key) (Unstr u) = key \<and> (\<exists>e\<in>set h. u \<in> set (event_objects e))"
  using assms
proof (induction h rule: rev_induct)
  case Nil
  then show ?case by (simp add: history_view_def)
next
  case (snoc e h)
  show ?case
  proof (cases "history_view am h key = Some u")
    case True
    with snoc show ?thesis by auto
  next
    case False
    with snoc.prems show ?thesis
      by (cases e) (auto simp: history_view_snoc own_named_def store_key_def split: if_splits dest: gvk_update_source)
  qed
qed

text \<open>
  An accessor of an \<open>Unstructured\<close> reads its content, so what has been stored and read back has the name it had. This is asked of content as the API server sends it, JSON, where the scalars are nil, strings, int64s, float64s and
  booleans.
\<close>

definition names_stable :: "'t api_machinery \<Rightarrow> bool" where
  "names_stable am \<longleftrightarrow> (\<forall>u v. well_typed (GMap u) \<and> well_typed (GMap v) \<and> sem (GMap u) = sem (GMap v) \<longrightarrow>
     am_GetNamespace am (Unstr u) = am_GetNamespace am (Unstr v) \<and> am_GetName am (Unstr u) = am_GetName am (Unstr v))"

definition json_event :: "sys_event \<Rightarrow> bool" where
  "json_event e \<longleftrightarrow> list_all (\<lambda>u. well_typed (GMap u)) (event_objects e)"

lemma Get_well_typed:
  assumes "store_inv s" "Get key s = Some (Some u)"
  shows "well_typed (GMap u)"
proof (cases "go_get (ds_objects s) key")
  case (Some i)
  note N = store_invD(1) [OF assms(1)] and i = store_invD(3,5) [OF assms(1) Some]
  from well_typed_node_tree [OF N i(1)] map_root_tree [OF N i] Some assms(2) show ?thesis
    by (simp add: Get_eq [OF assms(1)] del: well_typed.simps)
qed (use assms in \<open>simp add: Get_eq [OF assms(1)]\<close>)

text \<open>So on every system that is reached, every object is filed under its own name.\<close>

lemma reached_well_named:
  assumes "sys_trace am (system_of fl0) h s" "sys_inv am h s" "names_stable am" "list_all json_event h"
  shows "well_named am (fl_store (sy_fleet s))"
  unfolding well_named_def
proof (intro allI impI)
  fix key w assume w: "Get key (fl_store (sy_fleet s)) = Some (Some w)"
  from assms(2) have H: "store_inv (fl_store (sy_fleet s))" "cache_view (sy_cache s) key = map_option (\<lambda>u. sem (GMap u)) (history_view am h key)"
    by (simp_all add: sys_inv_def holds_def del: sem.simps)
  from ds.get_law [OF H(1), of key] w H(2) obtain u where u: "history_view am h key = Some u" "sem (GMap u) = sem (GMap w)"
    by (cases "history_view am h key") (auto simp del: sem.simps)
  from history_named [OF sys_trace_own_named [OF assms(1)] u(1)] assms(4)
  have "store_key am (key_gvk key) (Unstr u) = key" "well_typed (GMap u)" by (auto simp: list_all_iff json_event_def)
  with Get_well_typed [OF H(1) w] assms(3) u(2) show "store_key am (key_gvk key) (Unstr w) = key"
    unfolding names_stable_def store_key_def by metis
qed

section \<open>Which entries of an LRU may be out of date\<close>

text \<open>
  A Get of a key may leave an entry; an event of an informer on the key makes the entry, if there is one, out of date; a write of the key by a client removes it. The state is whether there may be an entry and
  whether it may be out of date.
\<close>

fun concerns :: "'t api_machinery \<Rightarrow> object_key \<Rightarrow> sys_event \<Rightarrow> bool" where
  "concerns am key (Informed g l) = list_ex (\<lambda>u. store_key am g (Unstr u) = key) (label_objects l)"
| "concerns am key _ = False"

fun note_event :: "'t api_machinery \<Rightarrow> object_key \<Rightarrow> sys_event \<Rightarrow> bool \<times> bool \<Rightarrow> bool \<times> bool" where
  "note_event am key (Informed g l) (held, stale) = (held, stale \<or> held \<and> concerns am key (Informed g l))"
| "note_event am key (Stored k u) (held, stale) = (if k = key then (False, False) else (held, stale))"
| "note_event am key (Removed k) (held, stale) = (if k = key then (False, False) else (held, stale))"
| "note_event am key (Looked k) (held, stale) = (held \<or> k = key, stale)"

definition entry_state :: "'t api_machinery \<Rightarrow> object_key \<Rightarrow> history \<Rightarrow> bool \<times> bool" where
  "entry_state am key h = fold (note_event am key) h (False, False)"

lemma entry_state_append: "entry_state am key (h @ h') = fold (note_event am key) h' (entry_state am key h)"
  by (simp add: entry_state_def)

lemma concerns_leaves: "informed e \<Longrightarrow> \<not> concerns am key e \<Longrightarrow> leaves am key e"
proof (cases e)
  case (Informed g l)
  have inf: "inf_key am (NewGVKInformer g (GVRFromGVK g) '''') v = store_key am g (Unstr v)" for v
    by (simp add: inf_key_def NewGVKInformer_def)
  assume "\<not> concerns am key e"
  then show ?thesis
    by (cases l rule: label_objects.cases)
      (auto simp: Informed leaves_def gvk_update_def items_update_listed event_update_def listed_def inf list_ex_iff find_Some_iff rev_nth
        split: option.splits)
qed simp_all

text \<open>The invariant, for one key: an entry of the LRU is one that the history accounts for, and unless it may be out of date it is what the store holds.\<close>

definition entry_inv :: "object_key \<Rightarrow> bool \<times> bool \<Rightarrow> 't cache \<Rightarrow> bool" where
  "entry_inv key st c \<longleftrightarrow> (\<forall>u. entries (ca_lru c) (key_lru key) = Some u \<longrightarrow> fst st \<and> (\<not> snd st \<longrightarrow> cache_view c key = Some (sem (GMap u))))"

text \<open>A write removes the entry of its key and no other.\<close>

lemma client_writes_entries:
  "client_writes am fl h fl' \<Longrightarrow> option_ok (ca_lru (fl_cache fl)) \<Longrightarrow>
   option_ok (ca_lru (fl_cache fl')) \<and> (\<forall>u. entries (ca_lru (fl_cache fl')) (key_lru key) = Some u \<longrightarrow>
     entries (ca_lru (fl_cache fl)) (key_lru key) = Some u \<and> (\<forall>v. Stored key v \<notin> set h) \<and> Removed key \<notin> set h)"
proof (induction rule: client_writes.induct)
  case (writes_object g u obj req fl r fl')
  with absorb_cache_lru [OF writes_object.hyps(1)] option_delete show ?case by auto
next
  case (writes_removal fl h fl' k fl'')
  with remove_stored_cache_lru [OF writes_removal.hyps(2)] option_delete show ?case by (auto split: if_splits)
qed simp_all

lemma writes_note:
  assumes "list_all (\<lambda>e. case e of Stored _ _ \<Rightarrow> True | Removed _ \<Rightarrow> True | _ \<Rightarrow> False) h" "\<forall>v. Stored key v \<notin> set h" "Removed key \<notin> set h"
  shows "fold (note_event am key) h st = st \<and> (\<forall>e\<in>set h. leaves am key e)"
  using assms
proof (induction h arbitrary: st)
  case (Cons e h)
  then show ?case by (cases e; cases st) (auto simp: leaves_def)
qed simp

lemma entry_inv_frame:
  "entry_inv key st c \<Longrightarrow> ca_lru c' = ca_lru c \<Longrightarrow> cache_view c' key = cache_view c key \<Longrightarrow> entry_inv key st c'"
  by (simp add: entry_inv_def)

text \<open>A Get of any slash-free key.\<close>

lemma entry_inv_get:
  assumes "entry_inv key st (sy_cache s)" "tidy s" "sys_inv am h s" "Client_Get am i ns name obj (sy_fleet s) = Some (r, fl)"
    and "key_ok key" "\<forall>k. Looked k \<in> set (looked am ns name obj) \<longrightarrow> key_ok k"
  shows "entry_inv key (fold (note_event am key) (looked am ns name obj) st) (fl_cache fl)"
proof -
  from tidy_get [OF assms(2,4)] obtain r' where get: "Cache_Get am ns name obj (sy_cache s) = Some (r', fl_cache fl)" by metis
  show ?thesis
  proof (cases "GVKForObject am obj")
    case (Inl e)
    with get assms(1) show ?thesis by (simp add: Cache_Get_def looked_def)
  next
    case (Inr g)
    let ?k = "\<lparr>key_gvk = g, key_namespace = ns, key_name = name\<rparr>"
    from assms(3) have s: "store_inv (cd_store (ca_cached (sy_cache s)))" by (simp add: sys_inv_def holds_def)
    from assms(2) have ok: "option_ok (ca_lru (sy_cache s))" by (simp add: tidy_def)
    from ds.get_law [OF s, of ?k] obtain found where found: "Get ?k (cd_store (ca_cached (sy_cache s))) = Some found"
      "map_option (\<lambda>u. sem (GMap u)) found = cache_view (sy_cache s) ?k" by (rule returnsE)
    from Cache_Get_lru [OF ok Inr found(1) refl] get
    have new: "entries (ca_lru (fl_cache fl)) k = Some u \<Longrightarrow> entries (ca_lru (sy_cache s)) k = Some u \<or> k = key_lru ?k \<and> found = Some u" for k u
      by auto
    have view: "cache_view (fl_cache fl) = cache_view (sy_cache s)" using Cache_Get_grows [OF get] by simp
    have keys: "key_lru key = key_lru ?k \<longleftrightarrow> key = ?k" using assms(5,6) Inr by (auto simp: looked_def intro: key_lru_inject [THEN iffD1])
    obtain held stale where st: "st = (held, stale)" by (cases st)
    with assms(1) Inr new [of "key_lru key"] keys found(2) view show ?thesis
      by (auto simp: entry_inv_def looked_def simp del: sem.simps)
  qed
qed

lemma sys_step_entry:
  assumes "sys_step am s h' t" "sys_inv am h s" "tidy s" "entry_inv key st (sy_cache s)" "key_ok key" "\<forall>k. Looked k \<in> set h' \<longrightarrow> key_ok k"
  shows "entry_inv key (fold (note_event am key) h' st) (sy_cache t)"
  using assms
proof (induction rule: sys_step.induct)
  case (sys_informer i s g nf l t)
  have lru: "ca_lru (sy_cache (settle s i t)) = ca_lru (sy_cache s)" by (simp add: settle_def Let_def)
  have "cache_view (sy_cache (settle s i t)) key = cache_view (sy_cache s) key" if "\<not> concerns am key (Informed g l)"
    using sys_inv_informer [OF sys_informer.prems(1) sys_informer.hyps] sys_informer.prems(1) concerns_leaves [OF _ that]
    by (simp add: sys_inv_def holds_def history_view_snoc leaves_def)
  with lru sys_informer.prems(3) show ?case by (cases st) (auto simp: entry_inv_def)
next
  case (sys_get i ns name obj s r fl)
  from entry_inv_get [OF sys_get.prems(3,2,1) sys_get.hyps sys_get.prems(4,5)] show ?case by (simp add: launch_def)
next
  case (sys_list ff get_labels scheme_New target opts s out fl)
  from sys_list.prems(3) Client_List_frame [OF sys_list.hyps] show ?case by (auto simp: launch_def intro: entry_inv_frame)
next
  case (sys_ensure obj s err c)
  with EnsureInformer_frame(1,2) [of am obj "sy_cache s"] show ?case by (auto simp: launch_def intro: entry_inv_frame)
next
  case (sys_write s h' fl)
  from sys_write.prems(1) have "holds (ca_cached (sy_cache s)) (history_view am h) (index_view am h)" by (simp add: sys_inv_def)
  from client_writes_holds [OF sys_write.hyps this] sys_write.prems(1)
  have view: "cache_view (fl_cache fl) key = map_option (\<lambda>u. sem (GMap u)) (history_view am (h @ h') key)"
    "cache_view (sy_cache s) key = map_option (\<lambda>u. sem (GMap u)) (history_view am h key)"
    by (simp_all add: sys_inv_def holds_def history_view_append del: sem.simps)
  have "entry_inv key (fold (note_event am key) h' st) (fl_cache fl)" unfolding entry_inv_def
  proof (intro allI impI)
    fix u assume "entries (ca_lru (fl_cache fl)) (key_lru key) = Some u"
    with client_writes_entries [OF sys_write.hyps, of key] sys_write.prems(2)
    have u: "entries (ca_lru (sy_cache s)) (key_lru key) = Some u" "\<forall>v. Stored key v \<notin> set h'" "Removed key \<notin> set h'"
      by (auto simp: tidy_def)
    from client_writes_events [OF sys_write.hyps] have "list_all (\<lambda>e. case e of Stored _ _ \<Rightarrow> True | Removed _ \<Rightarrow> True | _ \<Rightarrow> False) h'" ..
    note W = writes_note [OF this u(2,3), of am st]
    with u(1) sys_write.prems(3) view history_view_leaves [of h' am key h]
    show "fst (fold (note_event am key) h' st) \<and> (\<not> snd (fold (note_event am key) h' st) \<longrightarrow> cache_view (fl_cache fl) key = Some (sem (GMap u)))"
      by (simp add: entry_inv_def del: sem.simps)
  qed
  then show ?case by (simp add: launch_def)
qed (simp_all add: launch_def Client_Start_def Cache_Start_def NewClient_def Let_def entry_inv_def)

lemma sys_trace_entry:
  assumes "sys_trace am s h t" "sys_inv am [] s" "tidy s" "entries (ca_lru (sy_cache s)) (key_lru key) = None" "key_ok key"
  shows "(\<forall>k. Looked k \<in> set h \<longrightarrow> key_ok k) \<Longrightarrow> entry_inv key (entry_state am key h) (sy_cache t)"
  using assms
proof (induction rule: sys_trace.induct)
  case (sys_nil s)
  then show ?case by (simp add: entry_inv_def)
next
  case (sys_snoc s h t h' u)
  from sys_trace_inv [OF sys_snoc.hyps(1) sys_snoc.prems(2)] sys_trace_tidy [OF sys_snoc.hyps(1) sys_snoc.prems(2,3)]
  have "sys_inv am h t" "tidy t" by simp_all
  from sys_step_entry [OF sys_snoc.hyps(2) this sys_snoc.IH sys_snoc.prems(5)] sys_snoc.prems show ?case
    by (simp add: entry_state_append)
qed

text \<open>So a read of a key whose entry is not out of date gives what the history says.\<close>

lemma fresh_read:
  assumes "sys_inv am h s" "tidy s" "entry_inv key st (sy_cache s)" "\<not> snd st" "GVKForObject am obj = Inr g"
    and key: "key = \<lparr>key_gvk = g, key_namespace = ns, key_name = name\<rparr>"
  shows "returns (Client_Get am i ns name obj (sy_fleet s)) (\<lambda>(r, fl').
    case history_view am h key of
      None \<Rightarrow> r = Inl (CCache (ObjectNotFound ns name))
    | Some u \<Rightarrow> (\<exists>w. sem (GMap w) = sem (GMap u) \<and>
        r = (case FromUnstructured am w obj of Inl e \<Rightarrow> Inl (CCache (CacheConversion e)) | Inr x \<Rightarrow> Inr x)))"
proof -
  from assms(1) have s: "store_inv (cd_store (ca_cached (sy_cache s)))"
    "cache_view (sy_cache s) key = map_option (\<lambda>u. sem (GMap u)) (history_view am h key)" by (simp_all add: sys_inv_def holds_def del: sem.simps)
  from assms(2) have ok: "option_ok (ca_lru (sy_cache s))" and unfilled: "all_unfilled (sy_fleet s)" by (simp_all add: tidy_def)
  from ds.get_law [OF s(1), of key] obtain found where found: "Get key (cd_store (ca_cached (sy_cache s))) = Some found"
    "map_option (\<lambda>u. sem (GMap u)) found = cache_view (sy_cache s) key" by (rule returnsE)
  let ?found = "case entries (ca_lru (sy_cache s)) (key_lru key) of None \<Rightarrow> found | Some u \<Rightarrow> Some u"
  from Cache_Get_lru [OF ok assms(5) found(1) key] obtain c where
    c: "Cache_Get am ns name obj (sy_cache s) = Some (read_outcome am key obj ?found, c)" by (auto simp: returns_iff)
  have "map_option (\<lambda>u. sem (GMap u)) ?found = cache_view (sy_cache s) key"
    using found(2) assms(3,4) by (auto simp: entry_inv_def simp del: sem.simps split: option.split)
  with s(2) have F: "map_option (\<lambda>u. sem (GMap u)) ?found = map_option (\<lambda>u. sem (GMap u)) (history_view am h key)" by simp
  from Client_Get_unfilled(2) [OF unfilled, of am i ns name obj] c obtain fl' where
    get: "Client_Get am i ns name obj (sy_fleet s) = Some (case read_outcome am key obj ?found of Inl e \<Rightarrow> Inl (CCache e) | Inr x \<Rightarrow> Inr x, fl')" by auto
  show ?thesis
  proof (cases ?found)
    case None
    with F get show ?thesis by (simp add: read_outcome_def key)
  next
    case (Some w)
    with F obtain u where u: "history_view am h key = Some u" "sem (GMap w) = sem (GMap u)" by (cases "history_view am h key") auto
    from Some get u show ?thesis
      by (auto simp: read_outcome_def simp del: sem.simps split: sum.split intro!: exI [of _ w])
  qed
qed

end
