(* ===== verification/Fleet_Samples.thy ===== *)
theory Fleet_Samples
  imports Cache_Samples Histories
begin

text \<open>
  The concrete inputs of the witnesses about clients: a server that stores one pod whatever it is asked for, and a manager with one client that has updated it.
\<close>

section \<open>A sample server and fleet\<close>

definition sample_api :: api_server where
  "sample_api = \<lparr>api_create = \<lambda>_ _ _. Inl ''exists'', api_update = \<lambda>_ _ _. Inr (pod ''n1''), api_updateStatus = \<lambda>_ _ _. Inr (pod ''n2''),
     api_patch = \<lambda>_ _ _ _ _ _. Inr (pod ''n1''), api_apply = \<lambda>_ _ _ _. Inl ''unsupported'', api_get = \<lambda>_ _ _ _. Inr (pod ''n1''),
     api_delete = \<lambda>_ _ _. None, api_deleteCollection = \<lambda>_ _ _ _. None\<rparr>"

lemma sample_api_ok: "api_ok sample_api"
  by (simp add: api_ok_def sample_api_def del: tree_ok.simps)

lemma sample_am_named: "am_GetNamespace sample_am obj = ''ns''" "am_GetName sample_am obj = ''a''"
  by (simp_all add: sample_am_def)

text \<open>A manager, one client with an LRU, and an update through it.\<close>

lemma sample_fleet:
  "\<exists>fl :: unit fleet. fleet_inv fl \<and> length (fl_lrus fl) = 1 \<and> fl_lrus fl ! 0 \<noteq> None \<and> fl_view fl = [pod_key ''a'' \<mapsto> sem (GMap (pod ''n1''))]"
proof -
  let ?cc = "with_defaults () () (run_options [])"
  obtain fl0 :: "unit fleet" where fl0: "NewSharedStoreManager () () True None [] = Inr (?cc, fl0)" "fl_lrus fl0 = []"
    by (auto simp: NewSharedStoreManager_def Let_def)
  note M = fleet_inv_NewSharedStoreManager [OF fl0(1)]
  let ?fl1 = "snd (NewClient ?cc [WithReconstructionCache 8] fl0)"
  have I: "fleet_inv ?fl1 \<and> fl_view ?fl1 = (\<lambda>_. None)" using M fleet_inv_NewClient by fastforce
  have lrus: "length (fl_lrus ?fl1) = 1" "fl_lrus ?fl1 ! 0 \<noteq> None"
    by (simp_all add: NewClient_def fl0(2) run_options_def WithReconstructionCache_def Let_def)
  from Client_writes(2) [OF fleet_inv_ok sample_api_ok sample_gvk(2), of ?fl1 "Unstr []" "[]"] I obtain r fl where
    fl: "Client_Update sample_am sample_api (Unstr []) ?fl1 = Some (r, fl)"
      "wrote sample_am (core_gvk ''Pod'') (pod ''n1'') (send (UpdateRequest (GVRFromGVK (core_gvk ''Pod'')) (api_ns (am_GetNamespace sample_am (Unstr []))) []) ?fl1) fl"
    by (auto simp: returns_iff absorbed_def sample_api_def)
  moreover have "length (fl_lrus fl) = 1 \<and> fl_lrus fl ! 0 \<noteq> None"
    using fl(1) lrus by (auto simp: Client_Update_def with_result_def absorb_def Let_def invalidate_lrus_simps
        split: prod.splits option.splits sum.splits)
  ultimately show ?thesis using I by (intro exI [of _ fl]) (auto simp: wrote_def Let_def sample_key simp del: sem.simps)
qed

section \<open>A sample system\<close>

text \<open>A manager whose cache has an index on the whole object, is asked for pods, starts, and receives the list of one pod; then a client stores another version of it.\<close>

definition sample_index :: "('t client_object \<times> string \<times> ('t client_object \<Rightarrow> string list)) list" where
  "sample_index = [(Unstr [], ''all'', \<lambda>_. [''x''])]"

definition sample_fleet0 :: "unit fleet" where
  "sample_fleet0 = \<lparr>fl_cache = with_indexes sample_am sample_index (NewCache [] 0), fl_managed = True, fl_lrus = [], fl_requests = []\<rparr>"

definition listed_history :: history where
  "listed_history = [Informed (core_gvk ''Pod'') (ListReply (Inr ([pod ''n1''], ''5'')))]"

lemma sample_index_started: "\<not> ca_started (with_indexes sample_am sample_index (NewCache [] 0))"
  by (simp add: with_indexes_def sample_index_def IndexField_def sample_gvk NewCache_def split: prod.split)

text \<open>The run of the informer, from the request for pods to its first list.\<close>

lemma system_started:
  assumes "ca_map (fl_cache fl0) = NewInformerMap []" "\<not> ca_started (fl_cache fl0)"
  defines "g \<equiv> core_gvk ''Pod''"
  shows "\<exists>s. sys_trace sample_am (system_of fl0) [] s \<and> sy_informers s = [(g, NewGVKInformer g (GVRFromGVK g) '''')] \<and>
    sy_runs s = [new_run g] \<and> ca_cached (sy_cache s) = ca_cached (fl_cache fl0)"
proof -
  let ?s0 = "system_of fl0" and ?nf = "NewGVKInformer g (GVRFromGVK g) ''''"
  obtain err c1 where c1: "EnsureInformer sample_am (Unstr []) (fl_cache fl0) = (err, c1)" by fastforce
  with assms have c1': "im_informers (ca_map c1) = [(g, ?nf)]" "ca_cached c1 = ca_cached (fl_cache fl0)" "im_running (ca_map c1) = []"
    by (auto simp: EnsureInformer_def sample_gvk GetOrCreate_eq NewInformerMap_def Let_def)
  let ?s1 = "launch ?s0 (fl0\<lparr>fl_cache := c1\<rparr>)"
  let ?s2 = "launch ?s1 (Client_Start (sy_fleet ?s1))"
  have "sys_step sample_am ?s0 [] ?s1" using sys_ensure [of sample_am "Unstr []" ?s0 err c1] c1 by (simp add: system_of_def)
  from sys_snoc [OF sys_snoc [OF sys_nil this] sys_start] have "sys_trace sample_am ?s0 [] ?s2" by simp
  then show ?thesis
    by (intro exI [of _ ?s2]) (simp add: launch_def system_of_def Client_Start_def Cache_Start_def InformerMap_Start_def c1')
qed

lemma system_listed_run:
  assumes "fl_cache fl0 = with_indexes sample_am specs (NewCache [] n)" "\<not> ca_started (fl_cache fl0)"
  defines "g \<equiv> core_gvk ''Pod''"
  shows "\<exists>s nf. sys_trace sample_am (system_of fl0) listed_history s \<and> sy_informers s = [(g, nf)] \<and> inf_hasSynced nf \<and>
    sy_runs s = [\<lparr>rn_gvk = g, rn_phase = LoopTop ''5'', rn_backoff = second\<rparr>]"
proof -
  let ?g = "core_gvk ''Pod''" and ?l = "ListReply (Inr ([pod ''n1''], ''5''))"
  let ?nf = "NewGVKInformer ?g (GVRFromGVK ?g) ''''"
  from with_indexes_new [of sample_am specs "[]" n] assms
  have c0: "holds (ca_cached (fl_cache fl0)) (\<lambda>_. None) (\<lambda>_. None)" "ca_map (fl_cache fl0) = NewInformerMap []" by simp_all
  from system_started [OF c0(2) assms(2)] obtain s where s: "sys_trace sample_am (system_of fl0) [] s"
    "sy_informers s = [(?g, ?nf)]" "sy_runs s = [new_run ?g]" "ca_cached (sy_cache s) = ca_cached (fl_cache fl0)" by blast
  have ok: "label_ok ?l" by (simp del: tree_ok.simps)
  let ?r = "run_of s 0 ?nf"
  from informer_list_returns [OF c0(1) ok, of sample_am ?nf] obtain d where
    d: "informer_list sample_am ?nf (Inr ([pod ''n1''], ''5'')) (ca_cached (fl_cache fl0)) = Some (''5'', None, d)" by (auto simp: returns_iff)
  have step: "run_step sample_am ?r ?l
      (?r\<lparr>rs_informer := (rs_informer ?r)\<lparr>inf_hasSynced := True\<rparr>, rs_cached := d, rs_phase := LoopTop ''5'', rs_backoff := second\<rparr>)"
    by (rule initial_list_ok) (simp_all add: run_of_def s(3,4) new_run_def d)
  have "sys_step sample_am s [Informed ?g ?l] (settle s 0
      (?r\<lparr>rs_informer := (rs_informer ?r)\<lparr>inf_hasSynced := True\<rparr>, rs_cached := d, rs_phase := LoopTop ''5'', rs_backoff := second\<rparr>))"
    by (rule sys_informer [OF _ _ _ step ok]) (simp_all add: s(2,3) new_run_def)
  from sys_snoc [OF s(1) this] show ?thesis unfolding g_def
    by (intro exI, intro conjI) (auto simp: listed_history_def settle_def Let_def s(2,3) new_run_def run_of_def)
qed

lemma system_listed:
  assumes "fl_cache fl0 = with_indexes sample_am specs (NewCache [] n)" "\<not> ca_started (fl_cache fl0)"
  shows "\<exists>s. sys_trace sample_am (system_of fl0) listed_history s \<and>
    WaitForCacheSync [(False, sy_informers s, False)] = Some True \<and> go_get (sy_informers s) (core_gvk ''Pod'') \<noteq> None"
proof -
  from system_listed_run [OF assms] obtain s nf where "sys_trace sample_am (system_of fl0) listed_history s"
    "sy_informers s = [(core_gvk ''Pod'', nf)]" "inf_hasSynced nf" by blast
  then show ?thesis by (intro exI [of _ s]) simp
qed

lemma listed_view: "history_view sample_am listed_history = [pod_key ''a'' \<mapsto> pod ''n1'']"
  by (auto simp: history_view_def listed_history_def gvk_update_def items_update_def inf_key_def NewGVKInformer_def sample_key)

text \<open>A client of a system stores what the server returned, whatever the system.\<close>

lemma system_stored:
  assumes "sys_trace am (system_of fl0) h s" "sys_inv am [] (system_of fl0)" "tidy (system_of fl0)" "tree_ok (GMap u)"
  shows "\<exists>t. sys_trace am (system_of fl0) (h @ [Stored (store_key am g (Unstr u)) u]) t"
proof -
  let ?fl = "send (CreateRequest (GVRFromGVK g) None u) (sy_fleet s)"
  have "fleet_ok ?fl" using tidy_fleet_ok [OF _ sys_trace_inv [OF assms(1,2)]] sys_trace_tidy [OF assms(1-3)] by simp
  from absorb_correct [OF this assms(4), of am g "Unstr u"] obtain r fl where "absorb am g u (Unstr u) ?fl = Some (r, fl)"
    by (auto simp: returns_iff)
  from sys_snoc [OF assms(1) sys_write [OF writes_object [OF this assms(4)]]] show ?thesis by blast
qed

end
