(* ===== verification/Client_Properties.thy ===== *)
theory Client_Properties
  imports Fleet_Samples
begin

text \<open>
  The properties of the clients: writes go to the server first, once, and then to the store, reads see them, and what a read gives while informers write too.
\<close>

section \<open>Writes\<close>

text \<open>
  C8 (functional): Create, Update and Patch write through. Each sends exactly one request, with the object (or the patch), to the resource of its GVK, in its namespace. An error of the server is returned and nothing else
  changes. Otherwise the object that the server returned is stored under its own name, alone; the entry of its key, and no other, is gone from the LRU of the cache and from those of all clients; LRUs that were coherent stay
  coherent, the caller's object receives the object, and the indexer is as it was.
\<close>

theorem write_through:
  assumes "fleet_ok fl" "api_ok api" "GVKFromObject am obj = (g, None)" "ToUnstructured am obj = Inr u0" "cp_data patch obj = Inr data"
  defines "r \<equiv> GVRFromGVK g" and "ns \<equiv> if am_GetNamespace am obj = '''' then None else Some (am_GetNamespace am obj)"
  shows "returns (Client_Create am api obj fl) (absorbed am g obj fl (CreateRequest r ns u0) (api_create api r ns u0)) \<and>
    returns (Client_Update am api obj fl) (absorbed am g obj fl (UpdateRequest r ns u0) (api_update api r ns u0)) \<and>
    returns (Client_Patch am api obj patch fl)
      (absorbed am g obj fl (PatchRequest r ns (am_GetName am obj) (cp_type patch) data []) (api_patch api r ns (am_GetName am obj) (cp_type patch) data []))"
proof -
  have ns: "ns = api_ns (am_GetNamespace am obj)" by (simp add: ns_def api_ns_def)
  show ?thesis unfolding ns r_def using Client_writes(1-3) [OF assms(1-3)] assms(4,5) by blast
qed

theorem write_through_witness:
  "\<exists>fl :: unit fleet. fl_lrus fl ! 0 \<noteq> None \<and>
     returns (Client_Create sample_am sample_api (Unstr []) fl) (\<lambda>(r, fl'). r = Inl (CAPICallFailed ''exists'') \<and>
       fl_requests fl' = fl_requests fl @ [CreateRequest (GVRFromGVK (core_gvk ''Pod'')) (Some ''ns'') []]) \<and>
     returns (Client_Update sample_am sample_api (Unstr []) fl) (\<lambda>(r, fl'). r = Inr (Unstr (pod ''n1'')) \<and>
       fl_requests fl' = fl_requests fl @ [UpdateRequest (GVRFromGVK (core_gvk ''Pod'')) (Some ''ns'') []] \<and>
       fl_view fl' (pod_key ''a'') = Some (sem (GMap (pod ''n1''))) \<and> list_all (\<lambda>lru. entries lru (key_lru (pod_key ''a'')) = None) (fleet_lrus fl'))"
proof -
  from sample_fleet obtain fl :: "unit fleet" where fl: "fleet_inv fl" "fl_lrus fl ! 0 \<noteq> None" by blast
  have gone: "list_all (\<lambda>lru. entries lru k = None) lrus'" if "map entries lrus' = map (\<lambda>lru. (entries lru)(k := None)) lrus" for lrus lrus' and k
    using arg_cong [OF that, of set] by (auto simp: list_all_iff image_iff set_eq_iff) (metis fun_upd_same)
  from write_through [OF fleet_inv_ok [OF fl(1)] sample_api_ok sample_gvk(2), of "Unstr []" "[]" "\<lparr>cp_data = \<lambda>_. Inr ''{}'', cp_type = ''merge''\<rparr>" "''{}''"] fl
  show ?thesis
    by (intro exI [of _ fl])
      (auto simp: absorbed_def sample_api_def sample_am_named wrote_def converted_def sample_key Let_def simp del: sem.simps elim!: returns_mono intro: gone)
qed

text \<open>
  C25 (safety): reads see writes. After an Update that the server accepted, a Get of the object into an Unstructured by any client, with or without an LRU of its own, returns what the
  server returned.
\<close>

theorem read_your_writes:
  assumes "fleet_inv fl" "api_ok api" "GVKFromObject am obj = (g, None)" "ToUnstructured am obj = Inr u0"
    and "Client_Update am api obj fl = Some (Inr x, fl')" "api_update api (GVRFromGVK g) (api_ns (am_GetNamespace am obj)) u0 = Inr u"
    and "GVKForObject am (Unstr v) = Inr g" "gvk_slash_free g" "slash_free (am_GetNamespace am (Unstr u))"
  shows "returns (Client_Get am i (am_GetNamespace am (Unstr u)) (am_GetName am (Unstr u)) (Unstr v) fl')
    (\<lambda>(r, fl''). \<exists>w. r = Inr (Unstr w) \<and> sem (GMap w) = sem (GMap u) \<and> fl_view fl'' = fl_view fl')"
proof -
  from Client_writes(2) [OF fleet_inv_ok [OF assms(1)] assms(2-4)] assms(5,6)
  have w: "wrote am g u (send (UpdateRequest (GVRFromGVK g) (api_ns (am_GetNamespace am obj)) u0) fl) fl'" by (simp add: absorbed_def)
  from Client_Get_correct [OF _ assms(7-9), of fl' i "am_GetName am (Unstr u)"] w assms(1) show ?thesis
    by (auto simp: wrote_def Let_def client_result_def store_key_def converted_def simp del: sem.simps elim!: returns_mono)
qed

theorem read_your_writes_witness:
  "\<exists>(fl :: unit fleet) fl' w. Client_Update sample_am sample_api (Unstr []) fl = Some (Inr (Unstr (pod ''n1'')), fl') \<and>
     map_option fst (Client_Get sample_am 0 ''ns'' ''a'' (Unstr []) fl') = Some (Inr (Unstr w)) \<and> sem (GMap w) = sem (GMap (pod ''n1''))"
proof -
  from sample_fleet obtain fl :: "unit fleet" where fl: "fleet_inv fl" by blast
  from Client_writes(2) [OF fleet_inv_ok [OF fl] sample_api_ok sample_gvk(2), of "Unstr []" "[]"] obtain fl' where
    u: "Client_Update sample_am sample_api (Unstr []) fl = Some (Inr (Unstr (pod ''n1'')), fl')"
    by (auto simp: returns_iff absorbed_def sample_api_def converted_def)
  have "slash_free (am_GetNamespace sample_am (Unstr (pod ''n1'')))" by (simp add: sample_am_named sample_slash_free)
  from read_your_writes [OF fl sample_api_ok sample_gvk(2) _ u _ sample_gvk(1) sample_slash_free(1) this, of "[]" 0 "[]"] u show ?thesis
    by (auto simp: returns_iff sample_am_named sample_api_def simp del: sem.simps)
qed

text \<open>
  After a Delete that the server accepted, a Get of the object by any client finds nothing.
\<close>

lemma delete_visible:
  assumes "fleet_inv fl" "GVKFromObject am obj = (g, None)"
    and "api_delete api (GVRFromGVK g) (api_ns (am_GetNamespace am obj)) (am_GetName am obj) = None"
    and "GVKForObject am obj' = Inr g" "gvk_slash_free g" "slash_free (am_GetNamespace am obj)"
  shows "returns (Client_Delete am api obj fl) (\<lambda>(err, fl'). err = None \<and>
    returns (Client_Get am i (am_GetNamespace am obj) (am_GetName am obj) obj' fl')
      (\<lambda>(r, fl''). r = Inl (CCache (ObjectNotFound (am_GetNamespace am obj) (am_GetName am obj)))))"
proof -
  from Client_Delete_correct [OF assms(1-3)] obtain fl' where
    fl': "Client_Delete am api obj fl = Some (None, fl')" "fleet_inv fl'" "fl_view fl' = (fl_view fl)(store_key am g obj := None)"
    by (auto simp: returns_iff)
  from Client_Get_correct [OF fl'(2) assms(4-6), of i "am_GetName am obj"] fl'(1,3) show ?thesis
    by (auto simp: client_result_def store_key_def elim!: returns_mono)
qed

text \<open>
  C26 (functional): DeleteAllOf sends one request that deletes the collection of the GVK in the namespace of the options, with empty selectors, whatever selectors and delete options were given; an error of the server is
  returned and nothing else changes. Otherwise exactly the objects of the GVK in that namespace, or in all namespaces when none is given, leave the store, and the entries of their keys, no others, leave all LRUs. This holds on every system that is
  reached from a new cache, with informers and other clients. It assumes that an accessor gives the same name for an object read back as for the JSON content that came in (\<open>names_stable\<close>): the code deletes each object under the name it reads from the object.
\<close>

theorem delete_all_of:
  fixes opts :: "(delete_all_of_options \<Rightarrow> delete_all_of_options) list"
  assumes "fl_cache fl0 = with_indexes am specs (NewCache namespaces n)" "fl_lrus fl0 = []" "sys_trace am (system_of fl0) h s"
    and "names_stable am" "list_all json_event h" "GVKFromObject am obj = (g, None)"
  defines "r \<equiv> GVRFromGVK g" and "ns \<equiv> clo_namespace (dao_list (apply_delete_all_of opts))"
  defines "fl1 \<equiv> send (DeleteCollectionRequest r (if ns = '''' then None else Some ns) '''' '''') (sy_fleet s)"
  shows "returns (Client_DeleteAllOf ff get_labels am api obj opts (sy_fleet s)) (\<lambda>(err, fl').
    case api_deleteCollection api r (if ns = '''' then None else Some ns) '''' '''' of
      Some e \<Rightarrow> err = Some (CAPICallFailed e) \<and> fl' = fl1
    | None \<Rightarrow> err = None \<and> keys_removed {key. key_gvk key = g \<and> (ns = '''' \<or> key_namespace key = ns) \<and> fl_view (sy_fleet s) key \<noteq> None} fl1 fl')"
proof -
  have api: "(if ns = '''' then None else Some ns) = api_ns ns" by (simp add: api_ns_def)
  have fl1: "fl1 = send (DeleteCollectionRequest r (api_ns ns) '''' '''') (sy_fleet s)" unfolding fl1_def api ..
  note new = sys_inv_new [OF assms(1)] tidy_new [OF assms(1,2)]
  from sys_trace_inv [OF assms(3) new(1)] have I: "sys_inv am h s" .
  from sys_trace_tidy [OF assms(3) new] tidy_fleet_ok [OF _ I] have "fleet_ok (sy_fleet s)" by blast
  from DeleteAllOf_correct [OF this reached_well_named [OF assms(3) I assms(4,5)] assms(6), where opts = opts and api = api and ff = ff and get_labels = get_labels]
  have "returns (Client_DeleteAllOf ff get_labels am api obj opts (sy_fleet s)) (\<lambda>(err, fl').
    case api_deleteCollection api r (api_ns ns) '''' '''' of
      Some e \<Rightarrow> err = Some (CAPICallFailed e) \<and> fl' = fl1
    | None \<Rightarrow> err = None \<and> keys_removed {key. in_scope g ns key \<and> fl_view (sy_fleet s) key \<noteq> None} fl1 fl')"
    unfolding fl1 r_def ns_def .
  then show ?thesis unfolding in_scope_def api conj_assoc .
qed

text \<open>A label selector that no pod meets, and the pod that a client has written is deleted all the same.\<close>

theorem delete_all_of_witness:
  "\<exists>s. sys_trace sample_am (system_of sample_fleet0) [Stored (pod_key ''a'') [(''kind'', Scalar (IString ''Pod''))]] s \<and> fl_view (sy_fleet s) (pod_key ''a'') \<noteq> None \<and>
     returns (Client_DeleteAllOf (\<lambda>_. ''0'') (\<lambda>_. []) sample_am sample_api (Unstr [])
         [\<lambda>o1. o1\<lparr>dao_list := (dao_list o1)\<lparr>clo_labels := Some ([(''app'', OpEquals, [''x''])], True)\<rparr>\<rparr>] (sy_fleet s))
       (\<lambda>(err, fl'). err = None \<and> fl_view fl' (pod_key ''a'') = None \<and>
         fl_requests fl' = fl_requests (sy_fleet s) @ [DeleteCollectionRequest (GVRFromGVK (core_gvk ''Pod'')) None '''' ''''])"
proof -
  let ?opts = "[\<lambda>o1. o1\<lparr>dao_list := (dao_list o1)\<lparr>clo_labels := Some ([(''app'', OpEquals, [''x''])], True)\<rparr>\<rparr>]"
  let ?u = "[(''kind'', Scalar (IString ''Pod''))]"
  let ?h = "[Stored (pod_key ''a'') ?u]"
  have fl0: "fl_cache sample_fleet0 = with_indexes sample_am sample_index (NewCache [] 0)" "fl_lrus sample_fleet0 = []" by (simp_all add: sample_fleet0_def)
  note new = sys_inv_new [OF fl0(1)] tidy_new [OF fl0]
  from system_stored [OF sys_nil new, of ?u "core_gvk ''Pod''"] obtain s where s: "sys_trace sample_am (system_of sample_fleet0) ?h s"
    by (auto simp: sample_key)
  from sys_trace_inv [OF s new(1)] have "fl_view (sy_fleet s) (pod_key ''a'') = Some (sem (GMap ?u))"
    by (simp add: sys_inv_def holds_def history_view_def del: sem.simps)
  moreover have "names_stable sample_am" by (simp add: names_stable_def sample_am_named)
  moreover have "list_all json_event ?h" by (simp add: json_event_def)
  moreover have "clo_namespace (dao_list (apply_delete_all_of ?opts)) = ''''" by (simp add: apply_delete_all_of_def)
  ultimately show ?thesis
    using delete_all_of [OF fl0 s _ _ sample_gvk(2), where obj = "Unstr []" and opts = ?opts and api = sample_api and ff = "\<lambda>_. ''0''" and get_labels = "\<lambda>_. []"] s
    by (intro exI [of _ s]) (auto simp: sample_api_def keys_removed_def pod_key_def simp del: sem.simps elim!: returns_mono)
qed

text \<open>
  Writes to subresources are writes to the object: Update of the status and Patch differ from the ordinary operations in the request only, and the reply, whatever its kind, is stored as the object. Update of another subresource
  sends an ordinary update of the object, and the name of the subresource is ignored by Create.
\<close>

lemma subresource_writes:
  assumes "fleet_ok fl" "api_ok api" "GVKFromObject am obj = (g, None)" "ToUnstructured am obj = Inr u0" "cp_data patch obj = Inr data"
  defines "r \<equiv> GVRFromGVK g" and "ns \<equiv> api_ns (am_GetNamespace am obj)" and "name \<equiv> am_GetName am obj"
  shows "returns (SubResource_Update am api Client_Status obj None fl) (absorbed am g obj fl (UpdateStatusRequest r ns u0) (api_updateStatus api r ns u0)) \<and>
    returns (SubResource_Patch am api (Client_SubResource sub) obj patch None fl)
      (absorbed am g obj fl (PatchRequest r ns name (cp_type patch) data [sub]) (api_patch api r ns name (cp_type patch) data [sub])) \<and>
    (sub \<noteq> ''status'' \<longrightarrow> SubResource_Update am api (Client_SubResource sub) obj None fl = Client_Update am api obj fl) \<and>
    SubResource_Create am api sc obj x fl = SubResource_Create am api sc' obj x fl"
  using Client_writes(4,6) [OF assms(1-3), where body = None] assms(3-5) unfolding r_def ns_def name_def
  by (simp add: Client_SubResource_def SubResource_Update_def SubResource_Create_def Client_Update_def cong: sum.case_cong)

section \<open>Options that nothing reads\<close>

text \<open>
  The interval of the garbage collection and the GVKs to watch are kept in the options and have no effect on what is built: no collection is ever scheduled, and no informer is registered for the GVKs.
\<close>

lemma options_unread:
  fixes newScheme :: 's and defaultMapper :: 'm and fn :: "('s, 'm) option_fn"
  assumes "fn = WithGCInterval d \<or> fn = WithGVKs gvks"
  defines "built \<equiv> map_sum id (\<lambda>(cc :: ('s, 'm) client_config, fl). (cc_scheme cc, cc_mapper cc, fl))"
  shows "built (New newScheme defaultMapper dyn (optFns @ [fn])) = built (New newScheme defaultMapper dyn optFns)"
    "built (NewSharedStoreManager newScheme defaultMapper cfg dyn (optFns @ [fn])) = built (NewSharedStoreManager newScheme defaultMapper cfg dyn optFns)"
    "snd (NewClient cc (optFns @ [fn]) fl) = snd (NewClient cc optFns fl)"
proof -
  obtain opts' where opts: "run_options (optFns @ [fn]) = opts'" "opt_scheme opts' = opt_scheme (run_options optFns)"
    "opt_mapper opts' = opt_mapper (run_options optFns)" "opt_namespaces opts' = opt_namespaces (run_options optFns)"
    "opt_reconstructLRUSize opts' = opt_reconstructLRUSize (run_options optFns)"
    using assms(1) by (auto simp: run_options_def WithGCInterval_def WithGVKs_def)
  then show "built (New newScheme defaultMapper dyn (optFns @ [fn])) = built (New newScheme defaultMapper dyn optFns)"
    by (simp add: built_def New_def with_defaults_def Let_def split: option.split)
  from opts show "built (NewSharedStoreManager newScheme defaultMapper cfg dyn (optFns @ [fn])) = built (NewSharedStoreManager newScheme defaultMapper cfg dyn optFns)"
    by (simp add: built_def NewSharedStoreManager_def with_defaults_def Let_def split: option.split)
  from opts show "snd (NewClient cc (optFns @ [fn]) fl) = snd (NewClient cc optFns fl)"
    by (simp add: NewClient_def Let_def)
qed

section \<open>Reads\<close>

text \<open>
  C21 (safety): reads are fresh unless an informer came in between. Take a new cache, with or without an LRU, and any history of its informers and of the reads and writes of any clients. As long as no informer event
  on a key came after a Get of the key with no client write of the key in between or since, a Get of the key by any client gives what the history says, the last thing that an informer or a client said of it, or not
  found. The keys that are read have no slash in their GVK and namespace, as in Kubernetes.
\<close>

theorem reads_fresh:
  assumes "fl_cache fl0 = with_indexes am specs (NewCache namespaces n)" "fl_lrus fl0 = []" "sys_trace am (system_of fl0) h s"
    and "\<forall>k. Looked k \<in> set h \<longrightarrow> key_ok k" "GVKForObject am obj = Inr g" "key_ok \<lparr>key_gvk = g, key_namespace = ns, key_name = name\<rparr>"
    and "entry_state am \<lparr>key_gvk = g, key_namespace = ns, key_name = name\<rparr> h = (held, False)"
  shows "returns (Client_Get am i ns name obj (sy_fleet s)) (\<lambda>(r, fl').
    case history_view am h \<lparr>key_gvk = g, key_namespace = ns, key_name = name\<rparr> of
      None \<Rightarrow> r = Inl (CCache (ObjectNotFound ns name))
    | Some u \<Rightarrow> (\<exists>w. sem (GMap w) = sem (GMap u) \<and>
        r = (case FromUnstructured am w obj of Inl e \<Rightarrow> Inl (CCache (CacheConversion e)) | Inr x \<Rightarrow> Inr x)))"
proof -
  note new = sys_inv_new [OF assms(1)] tidy_new [OF assms(1,2)]
  have "entries (ca_lru (sy_cache (system_of fl0))) k = None" for k
    using with_indexes_lru [of am specs "NewCache namespaces n"] assms(1) by (simp add: system_of_def entries_def NewCache_def lru_view_new)
  note E = sys_trace_entry [OF assms(3) new this assms(6,4)]
  from fresh_read [OF sys_trace_inv [OF assms(3) new(1)] _ E _ assms(5) refl] sys_trace_tidy [OF assms(3) new] assms(7) show ?thesis by simp
qed

text \<open>A client of a cache with an LRU reads a pod that an informer has listed, writes another version of it, and reads that one.\<close>

theorem reads_fresh_witness:
  "\<exists>(fl0 :: unit fleet) s w. New () () None [WithReconstructionCache 8] = Inr (with_defaults () () (run_options [WithReconstructionCache 8]), fl0) \<and>
     sys_trace sample_am (system_of fl0) (listed_history @ [Looked (pod_key ''a'')] @ [Stored (pod_key ''a'') (pod ''n2'')]) s \<and>
     map_option fst (Client_Get sample_am 0 ''ns'' ''a'' (Unstr []) (sy_fleet s)) = Some (Inr (Unstr w)) \<and> sem (GMap w) = sem (GMap (pod ''n2''))"
proof -
  let ?k = "pod_key ''a''" and ?h = "listed_history @ [Looked (pod_key ''a'')]"
  obtain fl0 :: "unit fleet" where fl0: "New () () None [WithReconstructionCache 8] = Inr (with_defaults () () (run_options [WithReconstructionCache 8]), fl0)"
    "fl_cache fl0 = with_indexes sample_am [] (NewCache [] 8)" "fl_lrus fl0 = []" "\<not> ca_started (fl_cache fl0)"
    by (auto simp: New_def Let_def run_options_def defaultOptions_def WithReconstructionCache_def with_indexes_def NewCache_def)
  from system_listed [OF fl0(2,4)] obtain s where s: "sys_trace sample_am (system_of fl0) listed_history s" by blast
  note new = sys_inv_new [OF fl0(2)] tidy_new [OF fl0(2,3)]
  have looked: "looked sample_am ''ns'' ''a'' (Unstr []) = [Looked ?k]" by (simp add: looked_def sample_gvk pod_key_def)
  have quiet: "entry_state sample_am ?k listed_history = (False, False)" by (simp add: entry_state_def listed_history_def)
  from reads_fresh [OF fl0(2,3) s _ sample_gvk(1), of "''ns''" "''a''" False 0 "Unstr []"] quiet obtain r fl where
    "Client_Get sample_am 0 ''ns'' ''a'' (Unstr []) (sy_fleet s) = Some (r, fl)"
    by (auto simp: listed_history_def returns_iff pod_key_fold sample_key_ok)
  from sys_snoc [OF s sys_get [OF this]] have t: "sys_trace sample_am (system_of fl0) ?h (launch s fl)" by (simp add: looked)
  from system_stored [OF t new pod_ok(1), of "core_gvk ''Pod''" "''n2''"] obtain u where
    u: "sys_trace sample_am (system_of fl0) (?h @ [Stored ?k (pod ''n2'')]) u" by (auto simp: sample_key)
  have "entry_state sample_am ?k (?h @ [Stored ?k (pod ''n2'')]) = (False, False)"
    using quiet by (simp add: entry_state_append)
  moreover have "history_view sample_am (?h @ [Stored ?k (pod ''n2'')]) ?k = Some (pod ''n2'')" by (simp add: history_view_append)
  ultimately show ?thesis
    using reads_fresh [OF fl0(2,3) u _ sample_gvk(1), of "''ns''" "''a''" False 0 "Unstr []"] fl0(1) u
    by (intro exI [of _ fl0] exI [of _ u])
      (auto simp: listed_history_def returns_iff pod_key_fold sample_key_ok simp del: sem.simps)
qed

text \<open>
  The LRU of a client is never filled. On a manager, whatever clients and informers do, the LRU of every client is empty and the shared cache has none, so every Get is
  a Get of the shared cache and reconstructs the object from the store.
\<close>

lemma client_lru_unfilled:
  assumes "NewSharedStoreManager newScheme defaultMapper cfg dyn optFns = Inr (cc, fl0)" "sys_trace am (system_of fl0) h s"
  shows "(\<forall>lru. Some lru \<in> set (fl_lrus (sy_fleet s)) \<longrightarrow> lru_len lru = 0) \<and> ca_lru (sy_cache s) = None \<and>
    map_option fst (Client_Get am i ns name obj (sy_fleet s)) =
      map_option (\<lambda>(r, c). case r of Inl e \<Rightarrow> Inl (CCache e) | Inr x \<Rightarrow> Inr x) (Cache_Get am ns name obj (sy_cache s))"
proof -
  note M = manager_new [OF assms(1), of am]
  then have "quiet s" using sys_trace_tidy [OF assms(2)] by (simp add: quiet_def)
  then have u: "all_unfilled (sy_fleet s)" "ca_lru (sy_cache s) = None" by (simp_all add: quiet_def tidy_def)
  from Client_Get_unfilled(2) [OF u(1), of am i ns name obj] obtain lrus where
    "Client_Get am i ns name obj (sy_fleet s) = (case Cache_Get am ns name obj (sy_cache s) of
       None \<Rightarrow> None
     | Some (r, c) \<Rightarrow> Some (case r of Inl e \<Rightarrow> Inl (CCache e) | Inr x \<Rightarrow> Inr x, (sy_fleet s)\<lparr>fl_cache := c, fl_lrus := lrus\<rparr>))" by blast
  moreover from u have "\<forall>lru. Some lru \<in> set (fl_lrus (sy_fleet s)) \<longrightarrow> lru_len lru = 0"
    by (auto simp: all_unfilled_def list_all_iff unfilled_empty)
  ultimately show ?thesis using u(2) by (auto split: option.split)
qed

end
