(* ===== verification/Races.thy ===== *)
theory Races
  imports Cache_Coherence
begin

text \<open>
  Concurrent calls on one cache, one access to a shared structure at a time. The mutexes of the store, the LRU and the indexer make each access atomic, and between two accesses of a call
  any other call may run. \<open>Cache.Get\<close> is a lookup in the LRU, a read of the store and a put into the LRU; a write of a client is a write to the store and an invalidation; a write of an informer is a write to
  the store and an update of the indexer; \<open>List\<close> and \<open>GC\<close> hold the lock of the store from beginning to end, so each is one access. A run is a schedule: the index of the call that moves, for each step.
\<close>

section \<open>Calls and their steps\<close>

datatype change = Put object_key gobj | Remove object_key

primrec change_key :: "change \<Rightarrow> object_key" where
  "change_key (Put key u) = key"
| "change_key (Remove key) = key"

primrec change_value :: "change \<Rightarrow> gobj option" where
  "change_value (Put key u) = Some u"
| "change_value (Remove key) = None"

primrec change_ok :: "change \<Rightarrow> bool" where
  "change_ok (Put key u) = tree_ok (GMap u)"
| "change_ok (Remove key) = True"

primrec store_change :: "change \<Rightarrow> dedup_store \<Rightarrow> dedup_store option" where
  "store_change (Put key u) s = Upsert key u s"
| "store_change (Remove key) s = Delete key s"

primrec index_change :: "change \<Rightarrow> 't client_object indexer \<Rightarrow> 't client_object indexer" where
  "index_change (Put key u) idx = UpdateIndex key (Unstr u) idx"
| "index_change (Remove key) idx = RemoveIndex key idx"

text \<open>A query of \<open>List\<close>, with the rendering of numbers and the labels of an object, which are outside the repository.\<close>

record query =
  q_format :: "64 word \<Rightarrow> string"
  q_labels :: "gobj \<Rightarrow> (string, string) gomap"
  q_gvk :: gvk
  q_options :: "list_option list"

text \<open>Where a call is: the accesses still to come, or its answer.\<close>

datatype call =
    Reading object_key
  | Fetching object_key
  | Filling object_key gobj
  | Answered object_key "gobj option"
  | Writing change
  | Invalidating change
  | Informing change
  | Indexing change
  | Done
  | Listing query
  | Listed query "gobj list"
  | Collecting

record 't shared =
  sh_cached :: "'t cached"
  sh_lru :: "gobj lru_cache option"

definition list_of :: "query \<Rightarrow> 't shared \<Rightarrow> gobj list option" where
  "list_of q sh = List (q_format q) (q_labels q) (cd_store (sh_cached sh)) (q_gvk q) (q_options q)"

text \<open>The next access of a call. \<open>None\<close>: the call has returned, or the store does not return.\<close>

fun call_step :: "call \<Rightarrow> 't shared \<Rightarrow> (call \<times> 't shared) option" where
  "call_step (Reading key) sh =
     (case sh_lru sh of
        None \<Rightarrow> Some (Fetching key, sh)
      | Some lru \<Rightarrow>
          (let (hit, lru1) = lru_get (key_lru key) lru
           in Some (case hit of Some u \<Rightarrow> Answered key (Some u) | None \<Rightarrow> Fetching key, sh\<lparr>sh_lru := Some lru1\<rparr>)))"
| "call_step (Fetching key) sh =
     (case Get key (cd_store (sh_cached sh)) of
        None \<Rightarrow> None
      | Some None \<Rightarrow> Some (Answered key None, sh)
      | Some (Some u) \<Rightarrow> Some (if sh_lru sh = None then Answered key (Some u) else Filling key u, sh))"
| "call_step (Filling key u) sh = Some (Answered key (Some u), sh\<lparr>sh_lru := map_option (lru_put (key_lru key) u) (sh_lru sh)\<rparr>)"
| "call_step (Writing w) sh =
     map_option (\<lambda>s. (Invalidating w, sh\<lparr>sh_cached := (sh_cached sh)\<lparr>cd_store := s\<rparr>\<rparr>)) (store_change w (cd_store (sh_cached sh)))"
| "call_step (Invalidating w) sh = Some (Done, sh\<lparr>sh_lru := map_option (lru_delete (key_lru (change_key w))) (sh_lru sh)\<rparr>)"
| "call_step (Informing w) sh =
     map_option (\<lambda>s. (Indexing w, sh\<lparr>sh_cached := (sh_cached sh)\<lparr>cd_store := s\<rparr>\<rparr>)) (store_change w (cd_store (sh_cached sh)))"
| "call_step (Indexing w) sh = Some (Done, sh\<lparr>sh_cached := (sh_cached sh)\<lparr>cd_index := index_change w (cd_index (sh_cached sh))\<rparr>\<rparr>)"
| "call_step (Listing q) sh = map_option (\<lambda>items. (Listed q items, sh)) (list_of q sh)"
| "call_step Collecting sh = map_option (\<lambda>s. (Done, sh\<lparr>sh_cached := (sh_cached sh)\<lparr>cd_store := s\<rparr>\<rparr>)) (collect (cd_store (sh_cached sh)))"
| "call_step (Answered key r) sh = None"
| "call_step (Listed q items) sh = None"
| "call_step Done sh = None"

definition race_step :: "nat \<Rightarrow> 't shared \<times> call list \<Rightarrow> ('t shared \<times> call list) option" where
  "race_step i = (\<lambda>(sh, cs).
     if i < length cs then map_option (\<lambda>(c, sh'). (sh', cs[i := c])) (call_step (cs ! i) sh) else None)"

definition race :: "nat list \<Rightarrow> 't shared \<times> call list \<Rightarrow> ('t shared \<times> call list) option" where
  "race = foldM race_step"

fun finished :: "call \<Rightarrow> bool" where
  "finished (Answered key r) = True"
| "finished (Listed q items) = True"
| "finished Done = True"
| "finished _ = False"

fun call_ok :: "call \<Rightarrow> bool" where
  "call_ok (Reading key) = key_ok key"
| "call_ok (Fetching key) = key_ok key"
| "call_ok (Filling key u) = key_ok key"
| "call_ok (Answered key r) = key_ok key"
| "call_ok (Writing w) = (change_ok w \<and> key_ok (change_key w))"
| "call_ok (Invalidating w) = key_ok (change_key w)"
| "call_ok (Informing w) = change_ok w"
| "call_ok _ = True"

text \<open>A call at its start.\<close>

fun starting :: "call \<Rightarrow> bool" where
  "starting (Reading key) = True"
| "starting (Writing w) = True"
| "starting (Informing w) = True"
| "starting (Listing q) = True"
| "starting Collecting = True"
| "starting _ = False"

abbreviation race_view :: "'t shared \<Rightarrow> object_key \<Rightarrow> aval option" where
  "race_view sh \<equiv> store_view (cd_store (sh_cached sh))"

section \<open>One access\<close>

definition shared_inv :: "'t shared \<Rightarrow> bool" where
  "shared_inv sh \<longleftrightarrow> store_inv (cd_store (sh_cached sh)) \<and> (\<forall>lru. sh_lru sh = Some lru \<longrightarrow> lru_inv lru)"

definition lru_holds :: "'t shared \<Rightarrow> object_key \<Rightarrow> gobj \<Rightarrow> bool" where
  "lru_holds sh key u \<longleftrightarrow> key_ok key \<and> (\<exists>lru. sh_lru sh = Some lru \<and> lru_view lru (key_lru key) = Some u)"

definition change_view :: "change \<Rightarrow> (object_key \<Rightarrow> aval option) \<Rightarrow> (object_key \<Rightarrow> aval option)" where
  "change_view w m = m(change_key w := map_option (\<lambda>u. sem (GMap u)) (change_value w))"

lemma store_change_correct:
  assumes "store_inv s" "change_ok w"
  shows "returns (store_change w s) (\<lambda>t. store_inv t \<and> store_view t = change_view w (store_view s))"
  using assms ds.ups_law ds.del_law by (cases w) (auto simp: change_view_def simp del: sem.simps tree_ok.simps)

lemma call_step_returns:
  assumes "shared_inv sh" "call_ok c"
  shows "call_step c sh = None \<longleftrightarrow> finished c"
proof -
  let ?s = "cd_store (sh_cached sh)"
  have get: "\<exists>r. Get key ?s = Some r" for key using assms(1) ds.get_law [of ?s key] by (auto simp: shared_inv_def returns_iff)
  have change: "change_ok w \<Longrightarrow> \<exists>t. store_change w ?s = Some t" for w
    using assms(1) store_change_correct [of ?s w] by (auto simp: shared_inv_def returns_iff)
  have collect: "\<exists>t. collect ?s = Some t" using assms(1) ds.gc_law [of ?s] by (auto simp: shared_inv_def returns_iff)
  show ?thesis
  proof (cases c)
    case (Fetching key)
    with get [of key] show ?thesis by (auto split: option.split)
  next
    case (Writing w)
    with change [of w] assms(2) show ?thesis by auto
  next
    case (Informing w)
    with change [of w] assms(2) show ?thesis by auto
  next
    case (Listing q)
    with assms(1) show ?thesis by (simp add: list_of_def shared_inv_def List_eq)
  next
    case Collecting
    with collect show ?thesis by auto
  qed (auto simp: Let_def split: option.split prod.split)
qed

text \<open>The LRU under the three accesses, as what it holds.\<close>

lemma lru_holds_get:
  assumes "shared_inv sh" "sh_lru sh = Some lru"
  shows "lru_holds (sh\<lparr>sh_lru := Some (snd (lru_get k lru))\<rparr>) = lru_holds sh" "fst (lru_get k lru) = lru_view lru k"
    "shared_inv (sh\<lparr>sh_lru := Some (snd (lru_get k lru))\<rparr>)"
  using assms lru.get_law [of lru k] by (auto simp: lru_holds_def shared_inv_def fun_eq_iff)

lemma lru_holds_put:
  fixes u :: gobj
  assumes "shared_inv sh" "key_ok key"
  defines "sh' \<equiv> sh\<lparr>sh_lru := map_option (lru_put (key_lru key) u) (sh_lru sh)\<rparr>"
  shows "shared_inv sh'" "lru_holds sh' k v \<Longrightarrow> lru_holds sh k v \<or> k = key \<and> v = u"
proof -
  have law: "lru_inv (lru_put (key_lru key) u lru) \<and> lru_view (lru_put (key_lru key) u lru) \<subseteq>\<^sub>m (lru_view lru)(key_lru key \<mapsto> u)"
    if "lru_inv lru" for lru
    using lru.put_law [OF that] by blast
  with assms(1) show "shared_inv sh'" by (auto simp: shared_inv_def sh'_def)
  assume "lru_holds sh' k v"
  then obtain lru where lru: "sh_lru sh = Some lru" "key_ok k" "lru_view (lru_put (key_lru key) u lru) (key_lru k) = Some v"
    by (auto simp: lru_holds_def sh'_def)
  with law [of lru] assms(1) have "((lru_view lru)(key_lru key \<mapsto> u)) (key_lru k) = Some v"
    by (force simp: shared_inv_def map_le_def)
  with lru assms(2) show "lru_holds sh k v \<or> k = key \<and> v = u"
    by (auto simp: lru_holds_def key_lru_inject split: if_splits)
qed

lemma lru_holds_delete:
  assumes "shared_inv sh" "key_ok key"
  defines "sh' \<equiv> sh\<lparr>sh_lru := map_option (lru_delete (key_lru key)) (sh_lru sh)\<rparr>"
  shows "shared_inv sh'" "lru_holds sh' k v \<Longrightarrow> lru_holds sh k v \<and> k \<noteq> key"
proof -
  have law: "lru_inv (lru_delete (key_lru key) lru) \<and> lru_view (lru_delete (key_lru key) lru) = (lru_view lru)(key_lru key := None)"
    if "lru_inv lru" for lru :: "gobj lru_cache"
    using lru.del_law [OF that] by blast
  with assms(1) show "shared_inv sh'" by (auto simp: shared_inv_def sh'_def)
  assume "lru_holds sh' k v"
  with law assms(1) show "lru_holds sh k v \<and> k \<noteq> key"
    by (auto simp: lru_holds_def sh'_def shared_inv_def split: if_splits)
qed

lemma store_changed:
  assumes "shared_inv sh" "change_ok w" "store_change w (cd_store (sh_cached sh)) = Some t"
  defines "sh' \<equiv> sh\<lparr>sh_cached := (sh_cached sh)\<lparr>cd_store := t\<rparr>\<rparr>"
  shows "store_inv t" "store_view t = change_view w (race_view sh)" "lru_holds sh' = lru_holds sh" "shared_inv sh'"
proof -
  from assms(1) have s: "store_inv (cd_store (sh_cached sh))" by (simp add: shared_inv_def)
  show "store_inv t" "store_view t = change_view w (race_view sh)"
    using store_change_correct [OF s assms(2)] assms(3) by (simp_all add: returns_iff)
  with assms(1) show "lru_holds sh' = lru_holds sh" "shared_inv sh'"
    by (simp_all add: sh'_def lru_holds_def fun_eq_iff shared_inv_def)
qed

text \<open>The lookup of a Get: the LRU holds the same before and after.\<close>

lemma call_step_Reading:
  assumes "shared_inv sh" "key_ok key" "call_step (Reading key) sh = Some (c', sh')"
  shows "sh_cached sh' = sh_cached sh \<and> lru_holds sh' = lru_holds sh \<and> shared_inv sh' \<and>
    (c' = Fetching key \<or> (\<exists>u. c' = Answered key (Some u) \<and> lru_holds sh key u))"
proof (cases "sh_lru sh")
  case None
  with assms show ?thesis by simp
next
  case (Some lru)
  note G = lru_holds_get [OF assms(1) Some, of "key_lru key"]
  from assms Some G show ?thesis
    by (cases "lru_view lru (key_lru key)") (auto simp: Let_def lru_holds_def split: prod.splits)
qed

text \<open>Every access, by what it does to the store, to what the LRU holds, and to the call.\<close>

lemma call_stepE:
  assumes "shared_inv sh" "call_ok c" "call_step c sh = Some (c', sh')"
  obtains
    (look) key where "c = Reading key" "c' = Fetching key \<or> (\<exists>u. c' = Answered key (Some u) \<and> lru_holds sh key u)" "key_ok key"
      "sh_cached sh' = sh_cached sh" "lru_holds sh' = lru_holds sh" "shared_inv sh'"
  | (fetch) key r where "c = Fetching key" "race_view sh key = map_option (\<lambda>u. sem (GMap u)) r" "sh' = sh" "key_ok key"
      "c' = Answered key r \<or> (\<exists>u. r = Some u \<and> c' = Filling key u)"
  | (fill) key u where "c = Filling key u" "c' = Answered key (Some u)" "key_ok key" "sh_cached sh' = sh_cached sh" "shared_inv sh'"
      "\<And>k v. lru_holds sh' k v \<Longrightarrow> lru_holds sh k v \<or> k = key \<and> v = u"
  | (change) w s where "c = Writing w \<and> c' = Invalidating w \<and> key_ok (change_key w) \<or> c = Informing w \<and> c' = Indexing w" "change_ok w"
      "sh' = sh\<lparr>sh_cached := (sh_cached sh)\<lparr>cd_store := s\<rparr>\<rparr>"
      "store_inv s" "store_view s = change_view w (race_view sh)" "lru_holds sh' = lru_holds sh" "shared_inv sh'"
  | (invalidate) w where "c = Invalidating w" "c' = Done" "sh_cached sh' = sh_cached sh" "shared_inv sh'"
      "\<And>k v. lru_holds sh' k v \<Longrightarrow> lru_holds sh k v \<and> k \<noteq> change_key w"
  | (index) w where "c = Indexing w" "c' = Done" "lru_holds sh' = lru_holds sh" "shared_inv sh'"
      "sh' = sh\<lparr>sh_cached := (sh_cached sh)\<lparr>cd_index := index_change w (cd_index (sh_cached sh))\<rparr>\<rparr>"
  | (list) q items where "c = Listing q" "c' = Listed q items" "sh' = sh" "list_of q sh = Some items"
  | (collect) s where "c = Collecting" "c' = Done" "sh' = sh\<lparr>sh_cached := (sh_cached sh)\<lparr>cd_store := s\<rparr>\<rparr>"
      "store_inv s" "store_view s = race_view sh" "lru_holds sh' = lru_holds sh" "shared_inv sh'"
proof (cases c)
  case (Reading key)
  with assms call_step_Reading [OF assms(1), of key] show thesis by (intro look [of key]) simp_all
next
  case (Fetching key)
  from assms(1) ds.get_law [of "cd_store (sh_cached sh)" key] obtain r where
    "Get key (cd_store (sh_cached sh)) = Some r" "race_view sh key = map_option (\<lambda>u. sem (GMap u)) r"
    by (auto simp: shared_inv_def returns_iff simp del: sem.simps)
  with assms(2,3) Fetching show thesis
    by (intro fetch [of key r]) (auto simp del: sem.simps split: option.splits if_splits)
next
  case (Filling key u)
  with assms lru_holds_put [OF assms(1), of key u] show thesis by (intro fill [of key u]) auto
next
  case (Writing w)
  with assms store_changed [OF assms(1), of w] show thesis by (auto intro: change [of w])
next
  case (Informing w)
  with assms store_changed [OF assms(1), of w] show thesis by (auto intro: change [of w])
next
  case (Invalidating w)
  with assms lru_holds_delete [OF assms(1), of "change_key w"] show thesis by (intro invalidate [of w]) auto
next
  case (Indexing w)
  with assms show thesis by (intro index [of w]) (auto simp: lru_holds_def fun_eq_iff shared_inv_def)
next
  case (Listing q)
  with assms(3) show thesis by (auto intro: list [of q])
next
  case Collecting
  with assms(3) obtain s where s: "collect (cd_store (sh_cached sh)) = Some s" "c' = Done" "sh' = sh\<lparr>sh_cached := (sh_cached sh)\<lparr>cd_store := s\<rparr>\<rparr>" by auto
  from assms(1) ds.gc_law [of "cd_store (sh_cached sh)"] s(1) have "store_inv s \<and> store_view s = race_view sh" by (auto simp: shared_inv_def returns_iff)
  with s Collecting assms(1) show thesis by (intro collect [of s]) (auto simp: lru_holds_def fun_eq_iff shared_inv_def)
qed (use assms(3) in auto)

lemma call_step_ok:
  assumes "shared_inv sh" "call_ok c" "call_step c sh = Some (c', sh')"
  shows "shared_inv sh' \<and> call_ok c'"
  by (rule call_stepE [OF assms]) (use assms in auto)

section \<open>Runs\<close>

definition race_ok :: "'t shared \<times> call list \<Rightarrow> bool" where
  "race_ok = (\<lambda>(sh, cs). shared_inv sh \<and> list_all call_ok cs)"

lemma race_Nil [simp]: "race [] p = Some p"
  by (simp add: race_def)

lemma race_snoc:
  "race (is @ [i]) p = Some q \<longleftrightarrow>
   (\<exists>sh cs c sh'. race is p = Some (sh, cs) \<and> i < length cs \<and> call_step (cs ! i) sh = Some (c, sh') \<and> q = (sh', cs[i := c]))"
  by (fastforce simp: race_def foldM_append race_step_def split: option.splits prod.splits if_splits)

lemma race_induct [consumes 1, case_names start access]:
  assumes "race is p = Some q" "P [] p"
    and "\<And>is sh cs i c sh'. race is p = Some (sh, cs) \<Longrightarrow> P is (sh, cs) \<Longrightarrow> i < length cs \<Longrightarrow> call_step (cs ! i) sh = Some (c, sh') \<Longrightarrow> P (is @ [i]) (sh', cs[i := c])"
  shows "P is q"
  using assms(1)
proof (induction "is" arbitrary: q rule: rev_induct)
  case Nil
  with assms(2) show ?case by simp
next
  case (snoc i "is")
  then show ?case using assms(3) by (auto simp: race_snoc)
qed

lemma race_okD: "race_ok (sh, cs) \<Longrightarrow> shared_inv sh" "race_ok (sh, cs) \<Longrightarrow> i < length cs \<Longrightarrow> call_ok (cs ! i)"
  by (simp_all add: race_ok_def list_all_length)

lemma race_ok_step:
  assumes "race_ok (sh, cs)" "i < length cs" "call_step (cs ! i) sh = Some (c, sh')"
  shows "race_ok (sh', cs[i := c])"
proof -
  from assms(1,2) have "call_ok (cs ! i)" by (simp add: race_ok_def list_all_length)
  with assms call_step_ok [OF _ this assms(3)] show ?thesis
    by (auto simp: race_ok_def list_all_iff dest: in_update(1))
qed

lemma race_ok_run:
  assumes "race is p = Some q" "race_ok p"
  shows "race_ok q"
  using assms(1) by (induction rule: race_induct) (use assms(2) race_ok_step in auto)

text \<open>A call has at most three accesses, and one that has not returned can make the next.\<close>

fun accesses :: "call \<Rightarrow> nat" where
  "accesses (Reading key) = 3"
| "accesses (Fetching key) = 2"
| "accesses (Filling key u) = 1"
| "accesses (Writing w) = 2"
| "accesses (Invalidating w) = 1"
| "accesses (Informing w) = 2"
| "accesses (Indexing w) = 1"
| "accesses (Listing q) = 1"
| "accesses Collecting = 1"
| "accesses _ = 0"

lemma accesses_step:
  assumes "shared_inv sh" "call_ok c" "call_step c sh = Some (c', sh')"
  shows "accesses c' < accesses c"
  by (rule call_stepE [OF assms]) auto

lemma accesses_update: "i < length cs \<Longrightarrow> accesses c < accesses (cs ! i) \<Longrightarrow> sum_list (map accesses (cs[i := c])) < sum_list (map accesses cs)"
proof (induction cs arbitrary: i)
  case (Cons a cs)
  then show ?case by (cases i) auto
qed simp

lemma race_bounded:
  assumes "race is p = Some q" "race_ok p"
  shows "length is + sum_list (map accesses (snd q)) \<le> sum_list (map accesses (snd p))"
  using assms(1)
proof (induction rule: race_induct)
  case (access "is" sh cs i c sh')
  from race_okD [OF race_ok_run [OF access.hyps(1) assms(2)]] access.hyps(2) have "shared_inv sh" "call_ok (cs ! i)" by blast+
  from accesses_update [OF access.hyps(2) accesses_step [OF this access.hyps(3)]] access.IH show ?case by simp
qed simp

lemma race_continues:
  assumes "race_ok (sh, cs)"
  shows "list_all finished cs \<or> (\<exists>i q. race_step i (sh, cs) = Some q)"
proof (cases "list_all finished cs")
  case False
  then obtain i where i: "i < length cs" "\<not> finished (cs ! i)" by (auto simp: list_all_length)
  with assms call_step_returns [of sh "cs ! i"] obtain r where "call_step (cs ! i) sh = Some r"
    by (auto simp: race_ok_def list_all_length)
  with i show ?thesis by (cases r) (auto simp: race_step_def)
qed simp

lemma race_finishes:
  assumes "race_ok p"
  shows "\<exists>is q. race is p = Some q \<and> list_all finished (snd q)"
  using assms
proof (induction "sum_list (map accesses (snd p))" arbitrary: p rule: less_induct)
  case less
  obtain sh cs where p: "p = (sh, cs)" by fastforce
  show ?case
  proof (cases "list_all finished cs")
    case True
    with p show ?thesis by (intro exI [of _ "[]"]) simp
  next
    case False
    with race_continues less.prems p obtain i q where "race_step i p = Some q" by blast
    then have q: "race [i] p = Some q" by (simp add: race_def)
    from race_bounded [OF this less.prems] have "sum_list (map accesses (snd q)) < sum_list (map accesses (snd p))" by simp
    from less.hyps [OF this race_ok_run [OF q less.prems]] obtain "is" r where "race is q = Some r" "list_all finished (snd r)" by blast
    with q show ?thesis by (intro exI [of _ "i # is"] exI [of _ r]) (auto simp: race_def split: option.splits)
  qed
qed

section \<open>Reads\<close>

text \<open>What was so at some moment of a run.\<close>

definition sometime :: "nat list \<Rightarrow> 't shared \<times> call list \<Rightarrow> ('t shared \<Rightarrow> bool) \<Rightarrow> bool" where
  "sometime is p holding \<longleftrightarrow> (\<exists>n sh cs. race (take n is) p = Some (sh, cs) \<and> holding sh)"

lemma sometime_snoc: "sometime is p holding \<Longrightarrow> sometime (is @ [i]) p holding"
proof -
  assume "sometime is p holding"
  then obtain n sh cs where "race (take n is) p = Some (sh, cs)" "holding sh" by (auto simp: sometime_def)
  moreover have "take (min n (length is)) (is @ [i]) = take n is" by (cases "n \<le> length is") simp_all
  ultimately show ?thesis unfolding sometime_def by metis
qed

lemma sometime_now: "race is p = Some (sh, cs) \<Longrightarrow> holding sh \<Longrightarrow> sometime is p holding"
  unfolding sometime_def by (intro exI [of _ "length is"] exI [of _ sh] exI [of _ cs]) simp

abbreviation was_stored :: "nat list \<Rightarrow> 't shared \<times> call list \<Rightarrow> object_key \<Rightarrow> aval option \<Rightarrow> bool" where
  "was_stored is p key x \<equiv> sometime is p (\<lambda>sh. race_view sh key = x)"

definition reads_stored :: "'t shared \<times> call list \<Rightarrow> nat list \<Rightarrow> 't shared \<times> call list \<Rightarrow> bool" where
  "reads_stored p is = (\<lambda>(sh, cs).
     (\<forall>key u. lru_holds sh key u \<or> Filling key u \<in> set cs \<longrightarrow> was_stored is p key (Some (sem (GMap u)))) \<and>
     (\<forall>key r. Answered key r \<in> set cs \<longrightarrow> was_stored is p key (map_option (\<lambda>u. sem (GMap u)) r)) \<and>
     (\<forall>q items. Listed q items \<in> set cs \<longrightarrow> sometime is p (\<lambda>sh. list_of q sh = Some items)))"

text \<open>What an access to the LRU or the store reads: where an entry, an object on its way to the LRU or an answer comes from.\<close>

lemma call_step_reads:
  assumes "shared_inv sh" "call_ok c" "call_step c sh = Some (c', sh')"
  shows "lru_holds sh' key u \<Longrightarrow> lru_holds sh key u \<or> c = Filling key u"
    and "c' = Filling key u \<Longrightarrow> race_view sh key = Some (sem (GMap u))"
    and "c' = Answered key r \<Longrightarrow> race_view sh key = map_option (\<lambda>u. sem (GMap u)) r \<or> (\<exists>u. r = Some u \<and> (c = Filling key u \<or> lru_holds sh key u))"
    and "c' = Listed q items \<Longrightarrow> list_of q sh = Some items"
  by (rule call_stepE [OF assms]; auto simp del: sem.simps)+

lemma reads_stored_old:
  assumes "reads_stored p is (sh, cs)"
  shows "lru_holds sh key u \<or> Filling key u \<in> set cs \<Longrightarrow> was_stored (is @ [i]) p key (Some (sem (GMap u)))"
    "Answered key r \<in> set cs \<Longrightarrow> was_stored (is @ [i]) p key (map_option (\<lambda>u. sem (GMap u)) r)"
    "Listed q items \<in> set cs \<Longrightarrow> sometime (is @ [i]) p (\<lambda>sh. list_of q sh = Some items)"
  using assms by (auto simp: reads_stored_def intro: sometime_snoc simp del: sem.simps)

lemma reads_stored_fill:
  assumes "race_ok (sh, cs)" "reads_stored p is (sh, cs)" "race is p = Some (sh, cs)" "i < length cs" "call_step (cs ! i) sh = Some (c, sh')"
    and "lru_holds sh' key u \<or> Filling key u \<in> set (cs[i := c])"
  shows "was_stored (is @ [i]) p key (Some (sem (GMap u)))"
proof -
  note new = call_step_reads [OF race_okD(1) [OF assms(1)] race_okD(2) [OF assms(1,4)] assms(5)]
    and old = reads_stored_old(1) [OF assms(2), of key u i]
  from assms(6) consider "lru_holds sh' key u" | "Filling key u \<in> set cs" | "c = Filling key u" by (auto dest: in_update(1))
  then show ?thesis
  proof cases
    case 1
    with new have "lru_holds sh key u \<or> cs ! i = Filling key u" by blast
    with old assms(4) show ?thesis by (metis nth_mem)
  next
    case 3
    with new have "race_view sh key = Some (sem (GMap u))" by blast
    moreover have "was_stored (is @ [i]) p key (race_view sh key)"
      using assms(3) by (auto intro: sometime_snoc sometime_now)
    ultimately show ?thesis by (simp del: sem.simps)
  qed (use old in blast)
qed

lemma reads_stored_step:
  assumes "race_ok (sh, cs)" "reads_stored p is (sh, cs)" "race is p = Some (sh, cs)" "i < length cs" "call_step (cs ! i) sh = Some (c, sh')"
  shows "reads_stored p (is @ [i]) (sh', cs[i := c])"
proof -
  note new = call_step_reads [OF race_okD(1) [OF assms(1)] race_okD(2) [OF assms(1,4)] assms(5)] and old = reads_stored_old [OF assms(2)]
  have now: "was_stored (is @ [i]) p key (race_view sh key)" for key
    using assms(3) by (auto intro: sometime_snoc sometime_now)
  have "was_stored (is @ [i]) p key (map_option (\<lambda>u. sem (GMap u)) r)" if "Answered key r \<in> set (cs[i := c])" for key r
  proof (cases "Answered key r \<in> set cs")
    case False
    with that have "c = Answered key r" by (auto dest: in_update(1))
    with new consider "race_view sh key = map_option (\<lambda>u. sem (GMap u)) r"
      | u where "r = Some u" "cs ! i = Filling key u \<or> lru_holds sh key u" by blast
    then show ?thesis
    proof cases
      case 1
      with now [of key] show ?thesis by (simp del: sem.simps)
    next
      case 2
      with assms(4) have "lru_holds sh key u \<or> Filling key u \<in> set cs" by (metis nth_mem)
      from old(1) [OF this] 2(1) show ?thesis by (simp del: sem.simps)
    qed
  qed (rule old(2))
  moreover have "sometime (is @ [i]) p (\<lambda>sh. list_of q sh = Some items)" if "Listed q items \<in> set (cs[i := c])" for q items
  proof (cases "Listed q items \<in> set cs")
    case False
    with that have "c = Listed q items" by (auto dest: in_update(1))
    with new have "list_of q sh = Some items" by blast
    with assms(3) show ?thesis by (blast intro: sometime_snoc sometime_now)
  qed (rule old(3))
  ultimately show ?thesis using reads_stored_fill [OF assms] by (auto simp: reads_stored_def simp del: sem.simps)
qed

lemma reads_stored_run:
  assumes "race is p = Some q" "race_ok p" "reads_stored p [] p"
  shows "reads_stored p is q"
  using assms(1) by (induction rule: race_induct) (use assms race_ok_run reads_stored_step in blast)+

section \<open>Writes that do not overlap\<close>

text \<open>
  The overlaps that do harm: a client that writes a key while a Get holds an older object of the key that it is about to put into the LRU, and an informer that writes a key while another has
  written it to the store and not yet to the indexer.
\<close>

fun undisturbed :: "call \<Rightarrow> call list \<Rightarrow> bool" where
  "undisturbed (Writing w) cs = list_all (\<lambda>c. case c of Filling key u \<Rightarrow> key \<noteq> change_key w | _ \<Rightarrow> True) cs"
| "undisturbed (Informing w) cs = list_all (\<lambda>c. case c of Indexing w' \<Rightarrow> change_key w' \<noteq> change_key w | _ \<Rightarrow> True) cs"
| "undisturbed _ cs = True"

fun careful :: "nat list \<Rightarrow> 't shared \<times> call list \<Rightarrow> bool" where
  "careful [] p = True"
| "careful (i # is) p = (undisturbed (snd p ! i) (snd p) \<and> (case race_step i p of None \<Rightarrow> True | Some q \<Rightarrow> careful is q))"

lemma careful_snoc: "race is p = Some q \<Longrightarrow> careful (is @ [i]) p \<longleftrightarrow> careful is p \<and> undisturbed (snd q ! i) (snd q)"
  by (induction "is" arbitrary: p) (auto simp: race_def split: option.splits)

fun of_client :: "call \<Rightarrow> bool" where
  "of_client (Writing w) = True"
| "of_client (Invalidating w) = True"
| "of_client _ = False"

fun of_informer :: "call \<Rightarrow> bool" where
  "of_informer (Informing w) = True"
| "of_informer (Indexing w) = True"
| "of_informer _ = False"

lemma call_step_of:
  assumes "shared_inv sh" "call_ok c" "call_step c sh = Some (c', sh')"
  shows "of_client c' \<longrightarrow> of_client c" "of_informer c' \<longrightarrow> of_informer c"
  by (rule call_stepE [OF assms]; auto)+

text \<open>Reads and clients: an entry of the LRU that differs from the store is about to be deleted.\<close>

definition reads_coherent :: "'t shared \<times> call list \<Rightarrow> bool" where
  "reads_coherent = (\<lambda>(sh, cs). \<not> list_ex of_informer cs \<and>
     (\<forall>key u. lru_holds sh key u \<longrightarrow> race_view sh key = Some (sem (GMap u)) \<or> (\<exists>w. Invalidating w \<in> set cs \<and> change_key w = key)) \<and>
     (\<forall>key u. Filling key u \<in> set cs \<longrightarrow> race_view sh key = Some (sem (GMap u))))"

text \<open>An access as the LRU sees it: it keeps the view of the store, changes it at a key, or deletes an entry.\<close>

lemma call_step_lruE:
  assumes "shared_inv sh" "call_ok c" "call_step c sh = Some (c', sh')"
  obtains
    (quiet) "race_view sh' = race_view sh" "\<And>w. c \<noteq> Invalidating w" "\<And>key u. lru_holds sh' key u \<Longrightarrow> lru_holds sh key u \<or> c = Filling key u"
      "\<And>key u. c' = Filling key u \<Longrightarrow> race_view sh key = Some (sem (GMap u))"
  | (change) w where "c = Writing w \<and> c' = Invalidating w \<or> c = Informing w \<and> c' = Indexing w"
      "race_view sh' = change_view w (race_view sh)" "lru_holds sh' = lru_holds sh"
  | (invalidate) w where "c = Invalidating w" "c' = Done" "race_view sh' = race_view sh"
      "\<And>k v. lru_holds sh' k v \<Longrightarrow> lru_holds sh k v \<and> k \<noteq> change_key w"
proof (rule call_stepE [OF assms])
  fix w s assume "c = Writing w \<and> c' = Invalidating w \<and> key_ok (change_key w) \<or> c = Informing w \<and> c' = Indexing w"
    "sh' = sh\<lparr>sh_cached := (sh_cached sh)\<lparr>cd_store := s\<rparr>\<rparr>" "store_view s = change_view w (race_view sh)" "lru_holds sh' = lru_holds sh"
  then show thesis by (intro change [of w]) auto
next
  fix w assume "c = Invalidating w" "c' = Done" "sh_cached sh' = sh_cached sh" "\<And>k v. lru_holds sh' k v \<Longrightarrow> lru_holds sh k v \<and> k \<noteq> change_key w"
  then show thesis by (intro invalidate [of w]) simp_all
qed (rule quiet; auto simp del: sem.simps)+

lemma reads_coherent_step:
  assumes "race_ok (sh, cs)" "reads_coherent (sh, cs)" "i < length cs" "call_step (cs ! i) sh = Some (c, sh')" "undisturbed (cs ! i) cs"
  shows "reads_coherent (sh', cs[i := c])"
proof -
  note ok = race_okD(1) [OF assms(1)] race_okD(2) [OF assms(1,3)]
  have at: "cs ! i \<in> set cs" using assms(3) by simp
  have no: "\<not> list_ex of_informer cs" "\<not> list_ex of_informer (cs[i := c])"
    using assms(2,3) call_step_of(2) [OF ok assms(4)] by (auto simp: reads_coherent_def list_ex_iff dest!: in_update(1))
  have lru: "lru_holds sh key u \<Longrightarrow> race_view sh key = Some (sem (GMap u)) \<or> (\<exists>w. Invalidating w \<in> set cs \<and> change_key w = key)"
    and filling: "Filling key u \<in> set cs \<Longrightarrow> race_view sh key = Some (sem (GMap u))" for key u
    using assms(2) by (auto simp: reads_coherent_def simp del: sem.simps)
  have stay: "Invalidating w \<in> set cs \<Longrightarrow> Invalidating w \<noteq> cs ! i \<Longrightarrow> Invalidating w \<in> set (cs[i := c])" for w
    by (rule in_update(2))
  note new = in_update(1) [of _ cs i c]
  have "(\<forall>key u. lru_holds sh' key u \<longrightarrow> race_view sh' key = Some (sem (GMap u)) \<or> (\<exists>w. Invalidating w \<in> set (cs[i := c]) \<and> change_key w = key)) \<and>
     (\<forall>key u. Filling key u \<in> set (cs[i := c]) \<longrightarrow> race_view sh' key = Some (sem (GMap u)))"
    using ok assms(4)
  proof (cases rule: call_step_lruE)
    case quiet
    then show ?thesis using lru filling stay at new by metis
  next
    case (change w)
    with no(1) at have w: "cs ! i = Writing w" "c = Invalidating w" by (auto simp: list_ex_iff)
    have mem: "Invalidating w \<in> set (cs[i := c])" using assms(3) w(2) set_update_memI by fastforce
    have same: "race_view sh' key = race_view sh key" if "key \<noteq> change_key w" for key using change(2) that by (simp add: change_view_def)
    moreover have "Filling key u \<in> set (cs[i := c]) \<Longrightarrow> Filling key u \<in> set cs \<and> key \<noteq> change_key w" for key u
      using new [of "Filling key u"] assms(5) w by (fastforce simp: list_all_iff)
    moreover have "race_view sh' key = Some (sem (GMap u)) \<or> (\<exists>w. Invalidating w \<in> set (cs[i := c]) \<and> change_key w = key)"
      if "lru_holds sh' key u" for key u
      using lru [of key u] that same [of key] mem stay w(1) unfolding change(3) by (cases "key = change_key w") (auto simp del: sem.simps)
    ultimately show ?thesis using filling by simp
  next
    case (invalidate w)
    have "race_view sh key = Some (sem (GMap u)) \<or> (\<exists>w'. Invalidating w' \<in> set (cs[i := c]) \<and> change_key w' = key)" if "lru_holds sh' key u" for key u
      using lru [of key u] invalidate(4) [OF that] stay invalidate(1) by (metis call.inject(6))
    moreover have "Filling key u \<in> set (cs[i := c]) \<Longrightarrow> Filling key u \<in> set cs" for key u using new invalidate(2) by auto
    ultimately show ?thesis using filling invalidate(3) by (simp del: sem.simps)
  qed
  with no(2) show ?thesis by (simp add: reads_coherent_def del: sem.simps)
qed

lemma reads_coherent_run:
  assumes "race is p = Some q" "race_ok p" "reads_coherent p" "careful is p"
  shows "reads_coherent q"
proof -
  from assms(1) have "careful is p \<longrightarrow> reads_coherent q"
  proof (induction rule: race_induct)
    case (access "is" sh cs i c sh')
    from access reads_coherent_step [OF race_ok_run [OF access.hyps(1) assms(2)]] show ?case by (simp add: careful_snoc [OF access.hyps(1)])
  qed (use assms(3) in simp)
  with assms(4) show ?thesis by simp
qed

section \<open>The store and the indexer\<close>

text \<open>The two halves of a write of an informer.\<close>

lemma holds_store_half:
  assumes "holds d m mi" "store_inv s" "store_view s = change_view w (store_view (cd_store d))"
  shows "holds (d\<lparr>cd_store := s\<rparr>) (m(change_key w := change_value w)) mi"
  using assms by (simp add: holds_def change_view_def)

lemma holds_index_half:
  assumes "holds d m mi"
  shows "holds (d\<lparr>cd_index := index_change w (cd_index d)\<rparr>) m (mi(change_key w := change_value w))"
proof -
  from assms have i: "index_inv (cd_index d)" and r: "reflects (cd_index d) (\<lambda>key. map_option Unstr (mi key))" by (simp_all add: holds_def)
  have upd: "(\<lambda>key. map_option Unstr (mi key))(k := map_option Unstr x) = (\<lambda>key. map_option Unstr ((mi(k := x)) key))" for k x by auto
  have "index_inv (index_change w (cd_index d)) \<and> reflects (index_change w (cd_index d)) (\<lambda>key. map_option Unstr ((mi(change_key w := change_value w)) key))"
  proof (cases w)
    case (Put key u)
    from index_step_correct(1,2) [OF i r, of "IndexUpdate key (Unstr u)"] show ?thesis by (simp add: Put del: fun_upd_apply flip: upd)
  next
    case (Remove key)
    from index_step_correct(1,2) [OF i r, of "IndexRemove key"] show ?thesis by (simp add: Remove del: fun_upd_apply flip: upd)
  qed
  with assms show ?thesis by (simp add: holds_def del: fun_upd_apply)
qed

text \<open>Where the store and the indexer differ, an informer is about to update the indexer.\<close>

definition index_follows :: "'t shared \<times> call list \<Rightarrow> bool" where
  "index_follows = (\<lambda>(sh, cs). \<not> list_ex of_client cs \<and>
     (\<exists>m mi. holds (sh_cached sh) m mi \<and> (\<forall>key. m key = mi key \<or> (\<exists>w. Indexing w \<in> set cs \<and> change_key w = key)) \<and>
        (\<forall>w. Indexing w \<in> set cs \<longrightarrow> m (change_key w) = change_value w)))"

text \<open>An access as the indexer sees it.\<close>

lemma call_step_indexE:
  assumes "shared_inv sh" "call_ok c" "call_step c sh = Some (c', sh')"
  obtains
    (quiet) "\<And>m mi. holds (sh_cached sh) m mi \<Longrightarrow> holds (sh_cached sh') m mi" "\<And>w. c \<noteq> Indexing w" "\<And>w. c' \<noteq> Indexing w"
  | (change) w s where "c = Writing w \<or> c = Informing w \<and> c' = Indexing w" "sh_cached sh' = (sh_cached sh)\<lparr>cd_store := s\<rparr>"
      "store_inv s" "store_view s = change_view w (race_view sh)"
  | (index) w where "c = Indexing w" "c' = Done" "sh_cached sh' = (sh_cached sh)\<lparr>cd_index := index_change w (cd_index (sh_cached sh))\<rparr>"
proof (rule call_stepE [OF assms])
  fix w s assume "c = Writing w \<and> c' = Invalidating w \<and> key_ok (change_key w) \<or> c = Informing w \<and> c' = Indexing w"
    "sh' = sh\<lparr>sh_cached := (sh_cached sh)\<lparr>cd_store := s\<rparr>\<rparr>" "store_inv s" "store_view s = change_view w (race_view sh)"
  then show thesis by (intro change [of w s]) auto
next
  fix w assume "c = Indexing w" "c' = Done" "sh' = sh\<lparr>sh_cached := (sh_cached sh)\<lparr>cd_index := index_change w (cd_index (sh_cached sh))\<rparr>\<rparr>"
  then show thesis by (intro index [of w]) simp_all
qed (rule quiet; auto simp: holds_def)+

lemma index_follows_step:
  assumes "race_ok (sh, cs)" "index_follows (sh, cs)" "i < length cs" "call_step (cs ! i) sh = Some (c, sh')" "undisturbed (cs ! i) cs"
  shows "index_follows (sh', cs[i := c])"
proof -
  note ok = race_okD(1) [OF assms(1)] race_okD(2) [OF assms(1,3)]
  have at: "cs ! i \<in> set cs" using assms(3) by simp
  have no: "\<not> list_ex of_client cs" "\<not> list_ex of_client (cs[i := c])"
    using assms(2,3) call_step_of(1) [OF ok assms(4)] by (auto simp: index_follows_def list_ex_iff dest!: in_update(1))
  from assms(2) obtain m mi where H: "holds (sh_cached sh) m mi" and
    differ: "\<And>key. m key = mi key \<or> (\<exists>w. Indexing w \<in> set cs \<and> change_key w = key)" and
    pending: "\<And>w. Indexing w \<in> set cs \<Longrightarrow> m (change_key w) = change_value w" by (auto simp: index_follows_def)
  have stay: "Indexing w \<in> set cs \<Longrightarrow> Indexing w \<noteq> cs ! i \<Longrightarrow> Indexing w \<in> set (cs[i := c])" for w by (rule in_update(2))
  note new = in_update(1) [of _ cs i c]
  have "\<exists>m mi. holds (sh_cached sh') m mi \<and> (\<forall>key. m key = mi key \<or> (\<exists>w. Indexing w \<in> set (cs[i := c]) \<and> change_key w = key)) \<and>
        (\<forall>w. Indexing w \<in> set (cs[i := c]) \<longrightarrow> m (change_key w) = change_value w)"
    using ok assms(4)
  proof (cases rule: call_step_indexE)
    case quiet
    have "m key = mi key \<or> (\<exists>w. Indexing w \<in> set (cs[i := c]) \<and> change_key w = key)" for key
      using differ [of key] stay quiet(2) by metis
    moreover have "Indexing w \<in> set (cs[i := c]) \<Longrightarrow> m (change_key w) = change_value w" for w
      using pending [of w] new [of "Indexing w"] quiet(3) by metis
    ultimately show ?thesis using H quiet(1) by (intro exI [of _ m] exI [of _ mi]) simp
  next
    case (change w s)
    with no(1) at have w: "cs ! i = Informing w" "c = Indexing w" by (auto simp: list_ex_iff)
    have mem: "Indexing w \<in> set (cs[i := c])" using assms(3) w(2) set_update_memI by fastforce
    have "holds (sh_cached sh') (m(change_key w := change_value w)) mi" using holds_store_half [OF H change(3,4)] change(2) by simp
    moreover have "(m(change_key w := change_value w)) key = mi key \<or> (\<exists>w'. Indexing w' \<in> set (cs[i := c]) \<and> change_key w' = key)" for key
      using differ [of key] stay mem w(1) by (cases "key = change_key w") auto
    moreover have "(m(change_key w := change_value w)) (change_key w') = change_value w'" if "Indexing w' \<in> set (cs[i := c])" for w'
      using new [OF that] w pending [of w'] assms(5) by (auto simp: list_all_iff)
    ultimately show ?thesis by blast
  next
    case (index w)
    with pending at have "m (change_key w) = change_value w" by metis
    then have "m key = (mi(change_key w := change_value w)) key \<or> (\<exists>w'. Indexing w' \<in> set (cs[i := c]) \<and> change_key w' = key)" for key
      using differ [of key] stay index(1) by (cases "key = change_key w") auto
    moreover have "holds (sh_cached sh') m (mi(change_key w := change_value w))" using holds_index_half [OF H] index(3) by simp
    moreover have "Indexing w' \<in> set (cs[i := c]) \<Longrightarrow> m (change_key w') = change_value w'" for w'
      using new index(2) pending [of w'] by auto
    ultimately show ?thesis by blast
  qed
  with no(2) show ?thesis by (simp add: index_follows_def)
qed

lemma index_follows_run:
  assumes "race is p = Some q" "race_ok p" "index_follows p" "careful is p"
  shows "index_follows q"
proof -
  from assms(1) have "careful is p \<longrightarrow> index_follows q"
  proof (induction rule: race_induct)
    case (access "is" sh cs i c sh')
    from access index_follows_step [OF race_ok_run [OF access.hyps(1) assms(2)]] show ?case by (simp add: careful_snoc [OF access.hyps(1)])
  qed (use assms(3) in simp)
  with assms(4) show ?thesis by simp
qed

end
