(* ===== verification/Race_Properties.thy ===== *)
theory Race_Properties
  imports Races Cache_Samples
begin

text \<open>
  The properties of calls that run at the same time: on the intern pools and the map of informers, whose operations look twice, and on a cache, where
  reads, writes of clients and writes of informers interleave between their accesses.
\<close>

section \<open>Operations that look twice\<close>

text \<open>
  C16 (equivalence): concurrent calls of Intern on the value pool, for any values (nil, NaN and types that are still to be normalised included), are some sequence of atomic calls,
  whatever runs between the search under the read lock and the one under the write lock. Each identifier returned is in use and resolves to what its value means. Two different calls get the same identifier exactly when
  their values mean the same and are not NaN: each call with a NaN gets an identifier of its own.
\<close>

theorem racing_value_interns:
  assumes "dc_reaches intern_fast intern_slow vs p (q, ts)" "value_inv p"
  shows "value_inv q \<and>
    (\<exists>order. snd (sequential value_intern order p) = q \<and> mset (fst (sequential value_intern order p)) = mset (results ts)) \<and>
    (\<forall>v i. Returned v i \<in> set ts \<longrightarrow> value_has q i \<and> scalar_sem (value_resolve q i) = scalar_sem v) \<and>
    (\<forall>k < length ts. \<forall>l < length ts. \<forall>v i w j. k \<noteq> l \<longrightarrow> ts ! k = Returned v i \<longrightarrow> ts ! l = Returned w j \<longrightarrow>
       (i = j) = (scalar_sem v = scalar_sem w \<and> \<not> nan_value v))"
proof -
  have all: "\<forall>v\<in>set vs. True" by simp
  note R = vl.racing_interns [OF assms all]
  have "(i = j) = (scalar_sem v = scalar_sem w \<and> \<not> nan_value v)"
    if k: "k < length ts" "l < length ts" "k \<noteq> l" "ts ! k = Returned v i" "ts ! l = Returned w j" for k l v i w j
    using vl.racing_ids [OF assms all k] R(3) [of v i] nth_mem [OF k(1)] k(4) by simp
  with R(1-3) show ?thesis by blast
qed

text \<open>An int and an int64 of the same number share an identifier; two NaNs do not.\<close>

theorem racing_value_interns_witness:
  "\<exists>q. dc_reaches intern_fast intern_slow [IInt 2, IInt64 2] NewValueInternPool (q, [Returned (IInt 2) 1, Returned (IInt64 2) 1]) \<and> scalar_sem (value_resolve q 1) = AInt 2 \<and>
   (\<exists>q'. dc_reaches intern_fast intern_slow [IFloat64 0x7FF8000000000000, IFloat64 0x7FF8000000000000] q
     (q', [Returned (IFloat64 0x7FF8000000000000) 2, Returned (IFloat64 0x7FF8000000000000) 3]) \<and> value_has q' 2 \<and> value_has q' 3)"
proof -
  let ?n = "IFloat64 0x7FF8000000000000"
  let ?q = "snd (intern_slow (IInt 2) NewValueInternPool)"
  let ?r = "snd (intern_slow ?n ?q)"
  have "dc_reaches intern_fast intern_slow [IInt 2, IInt64 2] NewValueInternPool (?q, [Returned (IInt 2) 1, Returned (IInt64 2) 1])"
    by (rule two_race) (code_simp+)
  moreover from racing_value_interns [OF this value_inv_new] have "value_inv ?q \<and> scalar_sem (value_resolve ?q 1) = AInt 2" by fastforce
  moreover have race: "dc_reaches intern_fast intern_slow [?n, ?n] ?q (snd (intern_slow ?n ?r), [Returned ?n 2, Returned ?n 3])"
    by (rule two_race [where s' = ?r]) (code_simp+)
  moreover from calculation racing_value_interns [OF race] have "value_has (snd (intern_slow ?n ?r)) 2 \<and> value_has (snd (intern_slow ?n ?r)) 3" by fastforce
  ultimately show ?thesis by blast
qed

text \<open>
  Concurrent calls of Intern on the subtree pool are some sequence of atomic calls, in the order in which they return. Each identifier resolves to its node, and two calls get the same identifier
  exactly when their nodes are equal, also when other nodes of the same hash are interned in between.
\<close>

lemma racing_node_interns:
  assumes "dc_reaches subtree_lookup subtree_insert ns p (q, ts)" "subtree_inv p" "\<forall>n\<in>set ns. node_normal n"
  shows "subtree_inv q \<and>
    (\<exists>order. snd (sequential subtree_intern order p) = q \<and> mset (fst (sequential subtree_intern order p)) = mset (results ts)) \<and>
    (\<forall>n i. Returned n i \<in> set ts \<longrightarrow> subtree_has q i \<and> subtree_resolve q i = n) \<and>
    (\<forall>n i m j. Returned n i \<in> set ts \<longrightarrow> Returned m j \<in> set ts \<longrightarrow> (i = j) = (n = m))"
proof -
  note R = sl.racing_interns [OF assms]
  have "(i = j) = (n = m)" if "Returned n i \<in> set ts" "Returned m j \<in> set ts" for n i m j
    using R(3) [OF that(1)] R(5) [OF that] by simp
  with R(1-3) show ?thesis by blast
qed



section \<open>Reads and writes of one cache\<close>

definition shared_of :: "'t cache \<Rightarrow> 't shared" where
  "shared_of c = \<lparr>sh_cached = ca_cached c, sh_lru = ca_lru c\<rparr>"

lemma shared_of_ok:
  assumes "cache_inv c" "list_all call_ok cs"
  shows "race_ok (shared_of c, cs)" "lru_holds (shared_of c) key u \<Longrightarrow> cache_view c key = Some (sem (GMap u))"
  using assms by (auto simp: race_ok_def shared_inv_def shared_of_def lru_holds_def cache_inv_def option_coherent_def lru_coherent_def simp del: sem.simps)

lemma starting_calls:
  assumes "list_all starting cs"
  shows "Filling key u \<notin> set cs" "Answered key r \<notin> set cs" "Invalidating w \<notin> set cs" "Indexing w \<notin> set cs" "Listed q items \<notin> set cs" "sum_list (map accesses cs) \<le> 3 * length cs"
proof -
  show "Filling key u \<notin> set cs" "Answered key r \<notin> set cs" "Invalidating w \<notin> set cs" "Indexing w \<notin> set cs" "Listed q items \<notin> set cs"
    using assms by (auto simp: list_all_iff)
  have "accesses c \<le> 3" for c by (cases c) auto
  then show "sum_list (map accesses cs) \<le> 3 * length cs" by (induction cs) (auto intro: add_mono)
qed

text \<open>From the start, every answer is what the store held at some moment.\<close>

lemma started_reads:
  assumes "cache_inv c" "list_all starting cs" "list_all call_ok cs" "race sched (shared_of c, cs) = Some q"
  shows "reads_stored (shared_of c, cs) sched q"
proof -
  note ok = shared_of_ok [OF assms(1,3)]
  have now: "was_stored [] (shared_of c, cs) key (cache_view c key)" for key
    by (auto simp: sometime_def shared_of_def)
  have "reads_stored (shared_of c, cs) [] (shared_of c, cs)"
    unfolding reads_stored_def prod.case using starting_calls [OF assms(2)] ok(2) now by metis
  from reads_stored_run [OF assms(4) ok(1) this] show ?thesis .
qed

text \<open>Without interruption, the accesses of a call are the operation as \<open>Object_Cache\<close> and \<open>Informer\<close> have it.\<close>

lemma uninterrupted_get:
  assumes "Cache_Get am ns name obj c = Some (res, c')" "GVKForObject am obj = Inr g"
  defines "key \<equiv> \<lparr>key_gvk = g, key_namespace = ns, key_name = name\<rparr>"
  shows "\<exists>is r. race is (shared_of c, [Reading key]) = Some (shared_of c', [Answered key r]) \<and>
    res = (case r of None \<Rightarrow> Inl (ObjectNotFound ns name)
      | Some u \<Rightarrow> (case FromUnstructured am u obj of Inl e \<Rightarrow> Inl (CacheConversion e) | Inr x \<Rightarrow> Inr x))"
proof -
  obtain c1 where c1: "EnsureInformer am obj c = (None, c1)" "ca_cached c1 = ca_cached c" "ca_lru c1 = ca_lru c"
    using EnsureInformer_frame [of am obj c] assms(2) by (cases "EnsureInformer am obj c") auto
  have key: "lruKey g ns name = key_lru key" by (simp add: key_lru_def key_def)
  note defs = Cache_Get_def assms(2) c1 key shared_of_def race_def race_step_def Let_def
  show ?thesis
  proof (cases "ca_lru c")
    case None
    with assms(1,2) c1 have "c1 = c'" by (auto simp: Cache_Get_def Let_def split: option.splits)
    with c1(2,3) have same: "shared_of c = shared_of c'" by (simp add: shared_of_def)
    obtain r where r: "Get key (cd_store (ca_cached c)) = Some r"
      using assms(1,2) None c1 by (cases "Get key (cd_store (ca_cached c))") (auto simp: Cache_Get_def Let_def simp flip: key_def)
    then have "race [0, 0] (shared_of c, [Reading key]) = Some (shared_of c', [Answered key r])"
      unfolding same [symmetric] using None by (cases r) (simp_all add: race_def race_step_def shared_of_def)
    moreover have "res = (case r of None \<Rightarrow> Inl (ObjectNotFound ns name)
      | Some u \<Rightarrow> (case FromUnstructured am u obj of Inl e \<Rightarrow> Inl (CacheConversion e) | Inr x \<Rightarrow> Inr x))"
      using assms(1,2) None c1 r by (cases r) (simp_all add: Cache_Get_def Let_def flip: key_def)
    ultimately show ?thesis by blast
  next
    case (Some lru)
    obtain hit lru1 where g: "lru_get (key_lru key) lru = (hit, lru1)" by fastforce
    show ?thesis
    proof (cases hit)
      case None
      show ?thesis
      proof (cases "Get key (cd_store (ca_cached c)) = Some None")
        case True
        with assms(1) Some g None show ?thesis
          by (intro exI [of _ "[0, 0]"]) (auto simp: defs simp flip: key_def split: option.splits)
      next
        case False
        with assms(1) Some g None show ?thesis
          by (intro exI [of _ "[0, 0, 0]"]) (auto simp: defs simp flip: key_def split: option.splits)
      qed
    next
      case (Some u)
      with assms(1) \<open>ca_lru c = _\<close> g show ?thesis
        by (intro exI [of _ "[0]"]) (auto simp: defs simp flip: key_def)
    qed
  qed
qed

lemma uninterrupted_list:
  assumes "Cache_List ff get_labels am scheme_New target opts c = Some (out, c')" "gvkForList target = Inr g" "fst (EnsureInformer am (Unstr (am_SetGVK am g [])) c) = None"
  defines "q \<equiv> \<lparr>q_format = ff, q_labels = get_labels, q_gvk = g, q_options = store_options opts\<rparr>"
  shows "\<exists>items. race [0] (shared_of c, [Listing q]) = Some (shared_of c', [Listed q items]) \<and> (\<forall>k. target = UnstructuredList k \<longrightarrow> out = ListItems (list_gvk g) items)"
proof -
  obtain c1 where c1: "EnsureInformer am (Unstr (am_SetGVK am g [])) c = (None, c1)" using assms(3) by (metis prod.collapse)
  with EnsureInformer_frame [of am "Unstr (am_SetGVK am g [])" c] have "ca_cached c1 = ca_cached c" "ca_lru c1 = ca_lru c" by auto
  with assms(1,2) c1 show ?thesis
    by (auto simp: Cache_List_def race_def race_step_def list_of_def shared_of_def q_def split: option.splits)
qed

lemma uninterrupted_writes:
  "cached_upsert key u d = Some d' \<Longrightarrow> race [0, 0] (sh\<lparr>sh_cached := d\<rparr>, [Informing (Put key u)]) = Some (sh\<lparr>sh_cached := d'\<rparr>, [Done])"
  "cached_delete key d = Some d' \<Longrightarrow> race [0, 0] (sh\<lparr>sh_cached := d\<rparr>, [Informing (Remove key)]) = Some (sh\<lparr>sh_cached := d'\<rparr>, [Done])"
  "store_change w (cd_store (ca_cached c)) = Some s \<Longrightarrow> race [0, 0] (shared_of c, [Writing w]) =
     Some (shared_of (InvalidateLRU (key_gvk (change_key w)) (key_namespace (change_key w)) (key_name (change_key w)) (c\<lparr>ca_cached := (ca_cached c)\<lparr>cd_store := s\<rparr>\<rparr>)), [Done])"
  by (auto simp: cached_upsert_def cached_delete_def race_def race_step_def shared_of_def InvalidateLRU_def key_lru_def split: option.splits)

text \<open>
  C12 (safety): reads do not invent objects. However Gets, Lists, collections, client writes and informer writes on a cache interleave, what a Get answers, an object or not found, is what the store held under the key
  at some moment of the run, and what a List answers is what List answers on the whole store of one moment.
\<close>

theorem reads_return_stored:
  assumes "cache_inv c" "list_all starting cs" "list_all call_ok cs" "race sched (shared_of c, cs) = Some (sh, cs')"
  shows "(\<forall>key r. Answered key r \<in> set cs' \<longrightarrow>
      (\<exists>n sh1 cs1. race (take n sched) (shared_of c, cs) = Some (sh1, cs1) \<and> race_view sh1 key = map_option (\<lambda>u. sem (GMap u)) r)) \<and>
    (\<forall>q items. Listed q items \<in> set cs' \<longrightarrow>
      (\<exists>n sh1 cs1. race (take n sched) (shared_of c, cs) = Some (sh1, cs1) \<and> list_of q sh1 = Some items))"
  using started_reads [OF assms] by (simp add: reads_stored_def sometime_def del: sem.simps)

text \<open>
  No call waits for another. A run of calls takes at most three accesses per call, and from every point of it there is a way on in which all calls return.
\<close>

lemma races_finish:
  assumes "cache_inv c" "list_all starting cs" "list_all call_ok cs" "race sched (shared_of c, cs) = Some (sh, cs')"
  shows "length sched \<le> 3 * length cs \<and>
    (\<exists>more sh'' cs''. race (sched @ more) (shared_of c, cs) = Some (sh'', cs'') \<and> list_all finished cs'')"
proof -
  note ok = shared_of_ok(1) [OF assms(1,3)]
  from race_finishes [OF race_ok_run [OF assms(4) ok]] obtain more sh'' cs'' where "race more (sh, cs') = Some (sh'', cs'')" "list_all finished cs''" by auto
  then have "race (sched @ more) (shared_of c, cs) = Some (sh'', cs'')" using assms(4) by (simp add: race_def foldM_append)
  with \<open>list_all finished cs''\<close> race_bounded [OF assms(4) ok] starting_calls(6) [OF assms(2)] show ?thesis by fastforce
qed

section \<open>The LRU under races\<close>

text \<open>
  C13 (safety): the LRU is coherent when calls do not overlap badly. Gets and client writes may interleave at will, as long as no client writes a key while a Get that has read the key from the store has not yet put it into
  the LRU. Once all calls have returned, every entry of the LRU is what the store holds, and the cache is again one on which Get is correct.
\<close>

theorem careful_reads_coherent:
  assumes "cache_inv c" "list_all starting cs" "list_all call_ok cs" "\<not> list_ex of_informer cs" "careful sched (shared_of c, cs)"
    and "race sched (shared_of c, cs) = Some (sh, cs')" "list_all finished cs'"
  shows "cache_inv (c\<lparr>ca_cached := sh_cached sh, ca_lru := sh_lru sh\<rparr>)"
proof -
  note ok = shared_of_ok [OF assms(1,3)]
  have "reads_coherent (shared_of c, cs)"
    using starting_calls(1) [OF assms(2)] ok(2) assms(4) by (auto simp: reads_coherent_def shared_of_def simp del: sem.simps)
  from reads_coherent_run [OF assms(6) ok(1) this assms(5)] have R: "reads_coherent (sh, cs')" .
  have "Invalidating w \<notin> set cs'" for w using assms(7) by (auto simp: list_all_iff)
  with R have "lru_holds sh key u \<Longrightarrow> race_view sh key = Some (sem (GMap u))" for key u by (auto simp: reads_coherent_def simp del: sem.simps)
  with race_ok_run [OF assms(6) ok(1)] show ?thesis
    by (auto simp: cache_inv_def option_coherent_def lru_coherent_def race_ok_def shared_inv_def lru_holds_def simp del: sem.simps split: option.split)
qed

text \<open>
  C35 (safety): the overlap that leaves the LRU stale after all calls have returned. A Get that misses reads the old object from the store; a client then writes the key and invalidates the LRU, all of which returns; then the Get puts the old
  object into the LRU. The next Get answers with the old object, also to the client that wrote the new one.
\<close>

theorem stale_fill:
  assumes "cache_inv c" "ca_lru c = Some lru" "key_ok key" "lru_view lru (key_lru key) = None" "cache_view c key = Some a" "tree_ok (GMap u)"
  shows "\<exists>sh u0. race [0, 0, 1, 1, 0] (shared_of c, [Reading key, Writing (Put key u)]) = Some (sh, [Answered key (Some u0), Done]) \<and>
    sem (GMap u0) = a \<and> race_view sh key = Some (sem (GMap u)) \<and> (\<exists>sh'. call_step (Reading key) sh = Some (Answered key (Some u0), sh'))"
proof -
  let ?s = "cd_store (ca_cached c)"
  from assms(1,2) have s: "store_inv ?s" and i: "lru_inv lru" by (simp_all add: cache_inv_def option_coherent_def lru_coherent_def)
  obtain hit lru1 where g: "lru_get (key_lru key) lru = (hit, lru1)" by fastforce
  with lru.get_law [OF i, of "key_lru key"] assms(4) have hit: "hit = None" "lru_inv lru1" by simp_all
  from ds.get_law [OF s, of key] assms(5) obtain u0 where u0: "Get key ?s = Some (Some u0)" "sem (GMap u0) = a"
    by (auto simp: returns_iff simp del: sem.simps)
  from ds.ups_law [OF s assms(6)] obtain t where t: "Upsert key u ?s = Some t" "store_view t = (store_view ?s)(key \<mapsto> sem (GMap u))"
    by (auto simp: returns_iff simp del: sem.simps)
  let ?lru2 = "lru_put (key_lru key) u0 (lru_delete (key_lru key) lru1)"
  let ?sh = "\<lparr>sh_cached = (ca_cached c)\<lparr>cd_store := t\<rparr>, sh_lru = Some ?lru2\<rparr>"
  have "lru_inv (lru_delete (key_lru key) lru1)" using lru.del_law [OF hit(2)] by blast
  from lru.put_law [OF this] have put: "lru_inv ?lru2" "lru_view ?lru2 (key_lru key) = Some u0" by blast+
  have "race [0, 0, 1, 1, 0] (shared_of c, [Reading key, Writing (Put key u)]) = Some (?sh, [Answered key (Some u0), Done])"
    by (simp add: race_def race_step_def shared_of_def assms(2) g hit u0(1) t(1))
  moreover have "call_step (Reading key) ?sh = Some (Answered key (Some u0), ?sh\<lparr>sh_lru := Some (snd (lru_get (key_lru key) ?lru2))\<rparr>)"
    using lru.get_law [OF put(1), of "key_lru key"] put(2) by (simp add: Let_def split_beta)
  ultimately show ?thesis using u0(2) t(2) by (intro exI [of _ ?sh] exI [of _ u0]) (simp del: sem.simps)
qed

text \<open>A cache with an LRU, empty, and a store of one pod.\<close>

lemma sample_race_cache:
  "\<exists>(c :: unit cache) lru. cache_inv c \<and> ca_lru c = Some lru \<and> lru_view lru = (\<lambda>_. None) \<and> mirrors (ca_cached c) [pod_key ''a'' \<mapsto> pod ''n1'']"
proof -
  from holds_upsert [OF mirrors_empty pod_ok(1), of "pod_key ''a''" "''n1''"] obtain d :: "unit cached" where
    d: "mirrors d [pod_key ''a'' \<mapsto> pod ''n1'']" by (auto simp: returns_iff)
  let ?c = "(NewCache [] 8)\<lparr>ca_cached := d\<rparr>"
  have "cache_inv ?c \<and> ca_lru ?c = Some (newLRUCache 8)"
    using d by (simp add: cache_inv_def NewCache_def option_coherent_def lru_coherent_new holds_def)
  with d show ?thesis by (intro exI [of _ ?c] exI [of _ "newLRUCache 8"]) (simp add: lru_view_new)
qed

theorem stale_fill_witness:
  "\<exists>(c :: unit cache) sh u0. race [0, 0, 1, 1, 0] (shared_of c, [Reading (pod_key ''a''), Writing (Put (pod_key ''a'') (pod ''n2''))]) =
     Some (sh, [Answered (pod_key ''a'') (Some u0), Done]) \<and> sem (GMap u0) = sem (GMap (pod ''n1'')) \<and> race_view sh (pod_key ''a'') = Some (sem (GMap (pod ''n2'')))"
proof -
  from sample_race_cache obtain c :: "unit cache" and lru where c: "cache_inv c" "ca_lru c = Some lru" "lru_view lru = (\<lambda>_. None)"
    "mirrors (ca_cached c) [pod_key ''a'' \<mapsto> pod ''n1'']" by blast
  from c(4) have "cache_view c (pod_key ''a'') = Some (sem (GMap (pod ''n1'')))" by (simp add: holds_def del: sem.simps)
  from stale_fill [OF c(1,2) sample_key_ok _ this pod_ok(1), of "''n2''"] c(3) show ?thesis by (auto simp del: sem.simps)
qed

text \<open>A single Get that misses and fills the LRU.\<close>

lemma sample_calls: "list_all starting [Reading (pod_key ''a'')] \<and> list_all call_ok [Reading (pod_key ''a'')] \<and> \<not> list_ex of_informer [Reading (pod_key ''a'')]"
  by (simp add: sample_key_ok)

lemma sample_read:
  "\<exists>(c :: unit cache) sh u. cache_inv c \<and> race [0, 0, 0] (shared_of c, [Reading (pod_key ''a'')]) = Some (sh, [Answered (pod_key ''a'') (Some u)]) \<and>
     careful [0, 0, 0] (shared_of c, [Reading (pod_key ''a'')])"
proof -
  from sample_race_cache obtain c :: "unit cache" and lru where c: "cache_inv c" "ca_lru c = Some lru" "lru_view lru = (\<lambda>_. None)"
    "mirrors (ca_cached c) [pod_key ''a'' \<mapsto> pod ''n1'']" by blast
  then have s: "lru_inv lru" by (simp add: cache_inv_def option_coherent_def lru_coherent_def)
  obtain hit lru1 where g: "lru_get (key_lru (pod_key ''a'')) lru = (hit, lru1)" by fastforce
  with lru.get_law [OF s, of "key_lru (pod_key ''a'')"] c(3) have hit: "hit = None" by simp
  from holds_get [OF c(4), of "pod_key ''a''"] obtain u where u: "Get (pod_key ''a'') (cd_store (ca_cached c)) = Some (Some u)"
    by (auto simp: returns_iff simp del: sem.simps)
  from c(1) g hit u show ?thesis
    by (intro exI [of _ c]) (simp add: race_def race_step_def shared_of_def c(2))
qed

theorem reads_return_stored_witness:
  "\<exists>(c :: unit cache) u n sh1 cs1. race (take n [0, 0, 0]) (shared_of c, [Reading (pod_key ''a'')]) = Some (sh1, cs1) \<and>
     race_view sh1 (pod_key ''a'') = map_option (\<lambda>u. sem (GMap u)) (Some u)"
proof -
  from sample_read obtain c :: "unit cache" and sh u where c: "cache_inv c"
    "race [0, 0, 0] (shared_of c, [Reading (pod_key ''a'')]) = Some (sh, [Answered (pod_key ''a'') (Some u)])" by blast
  from reads_return_stored [OF c(1) _ _ c(2)] sample_calls show ?thesis by (simp del: sem.simps) blast
qed

theorem careful_reads_coherent_witness:
  "\<exists>(c :: unit cache) sh u. race [0, 0, 0] (shared_of c, [Reading (pod_key ''a'')]) = Some (sh, [Answered (pod_key ''a'') (Some u)]) \<and>
     cache_inv (c\<lparr>ca_cached := sh_cached sh, ca_lru := sh_lru sh\<rparr>)"
proof -
  from sample_read obtain c :: "unit cache" and sh u where c: "cache_inv c"
    "race [0, 0, 0] (shared_of c, [Reading (pod_key ''a'')]) = Some (sh, [Answered (pod_key ''a'') (Some u)])"
    "careful [0, 0, 0] (shared_of c, [Reading (pod_key ''a'')])" by blast
  from careful_reads_coherent [OF c(1) _ _ _ c(3,2)] sample_calls c(2) show ?thesis by auto
qed

section \<open>The indexer under races\<close>

text \<open>
  C31 (invariant): the indexer follows the store when informer writes do not overlap on a key. Gets and writes of any number of informers may interleave between their accesses, as long as no informer writes a key to the store while
  another has written it and not yet indexed it. Once all calls have returned, the store and the indexer hold the same objects.
\<close>

theorem careful_index:
  assumes "cache_inv c" "mirrors (ca_cached c) m" "list_all starting cs" "list_all call_ok cs" "\<not> list_ex of_client cs"
    and "careful sched (shared_of c, cs)" "race sched (shared_of c, cs) = Some (sh, cs')" "list_all finished cs'"
  shows "\<exists>m'. mirrors (sh_cached sh) m'"
proof -
  note ok = shared_of_ok(1) [OF assms(1,4)]
  have "index_follows (shared_of c, cs)"
    using starting_calls(4) [OF assms(3)] assms(2,5) by (auto simp: index_follows_def shared_of_def)
  from index_follows_run [OF assms(7) ok this assms(6)] obtain m1 mi where
    H: "holds (sh_cached sh) m1 mi" "\<And>key. m1 key = mi key \<or> (\<exists>w. Indexing w \<in> set cs' \<and> change_key w = key)"
    by (auto simp: index_follows_def)
  have "Indexing w \<notin> set cs'" for w using assms(8) by (auto simp: list_all_iff)
  with H(2) have "m1 = mi" by auto
  with H(1) show ?thesis by blast
qed

text \<open>Two runs of one informer, which the cache starts, can overlap: then the store keeps the newer object and the indexer the older one.\<close>

lemma index_race:
  assumes "holds d m mi" "tree_ok (GMap u1)" "tree_ok (GMap u2)"
  shows "\<exists>d'. race [0, 1, 1, 0] (sh\<lparr>sh_cached := d\<rparr>, [Informing (Put key u1), Informing (Put key u2)]) = Some (sh\<lparr>sh_cached := d'\<rparr>, [Done, Done]) \<and>
    holds d' (m(key \<mapsto> u2)) (mi(key \<mapsto> u1))"
proof -
  from assms(1) have s: "store_inv (cd_store d)" by (simp add: holds_def)
  from store_change_correct [OF s, of "Put key u1"] assms(2) obtain s1 where s1: "Upsert key u1 (cd_store d) = Some s1" "store_inv s1"
    "store_view s1 = change_view (Put key u1) (store_view (cd_store d))" by (auto simp: returns_iff)
  from store_change_correct [OF s1(2), of "Put key u2"] assms(3) obtain s2 where s2: "Upsert key u2 s1 = Some s2" "store_inv s2"
    "store_view s2 = change_view (Put key u2) (store_view s1)" by (auto simp: returns_iff)
  have h1: "holds (d\<lparr>cd_store := s1\<rparr>) (m(key \<mapsto> u1)) mi" using holds_store_half [OF assms(1) s1(2,3)] by simp
  have h2: "holds (d\<lparr>cd_store := s2\<rparr>) (m(key \<mapsto> u2)) mi"
    using holds_store_half [OF h1 s2(2), of "Put key u2"] s2(3) by simp
  have h3: "holds (d\<lparr>cd_store := s2, cd_index := UpdateIndex key (Unstr u2) (cd_index d)\<rparr>) (m(key \<mapsto> u2)) (mi(key \<mapsto> u2))"
    using holds_index_half [OF h2, of "Put key u2"] by simp
  have "holds (d\<lparr>cd_store := s2, cd_index := UpdateIndex key (Unstr u1) (UpdateIndex key (Unstr u2) (cd_index d))\<rparr>) (m(key \<mapsto> u2)) (mi(key \<mapsto> u1))"
    using holds_index_half [OF h3, of "Put key u1"] by simp
  then show ?thesis
    by (intro exI [of _ "d\<lparr>cd_store := s2, cd_index := UpdateIndex key (Unstr u1) (UpdateIndex key (Unstr u2) (cd_index d))\<rparr>"])
      (simp add: race_def race_step_def s1(1) s2(1))
qed

theorem careful_index_witness:
  "\<exists>(c :: unit cache) sh m'. race [0, 0] (shared_of c, [Informing (Put (pod_key ''a'') (pod ''n2''))]) = Some (sh, [Done]) \<and> mirrors (sh_cached sh) m'"
proof -
  let ?w = "Put (pod_key ''a'') (pod ''n2'')"
  from sample_race_cache obtain c :: "unit cache" where c: "cache_inv c" "mirrors (ca_cached c) [pod_key ''a'' \<mapsto> pod ''n1'']" by blast
  from holds_upsert [OF c(2) pod_ok(1), of "pod_key ''a''" "''n2''"] obtain d where
    d: "cached_upsert (pod_key ''a'') (pod ''n2'') (ca_cached c) = Some d" by (auto simp: returns_iff)
  have "shared_of c = (shared_of c)\<lparr>sh_cached := ca_cached c\<rparr>" by (simp add: shared_of_def)
  with uninterrupted_writes(1) [OF d, of "shared_of c"] have run: "race [0, 0] (shared_of c, [Informing ?w]) = Some ((shared_of c)\<lparr>sh_cached := d\<rparr>, [Done])"
    by simp
  have "careful [0, 0] (shared_of c, [Informing ?w])"
    by (simp add: race_step_def split: option.split)
  from careful_index [OF c _ _ _ this run] obtain m' where "mirrors d m'" by (auto simp del: tree_ok.simps)
  with run show ?thesis by (intro exI [of _ c] exI [of _ "(shared_of c)\<lparr>sh_cached := d\<rparr>"] exI [of _ m']) simp
qed

end
