(* ===== verification/Linearizable.thy ===== *)
theory Linearizable
  imports Race_Properties "HOL-Library.Sublist"
begin

text \<open>
  A cache without an LRU is linearizable: each call takes effect at one access to the store, and every run of concurrent calls has the outcome of the run in which the calls are made one after another, in the order of these accesses.
\<close>

section \<open>Calls one after another\<close>

text \<open>The accesses of a call that is not interrupted, when there is no LRU.\<close>

fun solo :: "call \<Rightarrow> nat" where
  "solo (Reading key) = 2"
| "solo (Writing w) = 2"
| "solo (Informing w) = 2"
| "solo (Listing q) = 1"
| "solo Collecting = 1"
| "solo _ = 0"

text \<open>The schedule in which the calls with these indices run one after another.\<close>

definition one_by_one :: "call list \<Rightarrow> nat list \<Rightarrow> nat list" where
  "one_by_one cs order = concat (map (\<lambda>i. replicate (solo (cs ! i)) i) order)"

lemma one_by_one_snoc: "one_by_one cs (order @ [i]) = one_by_one cs order @ replicate (solo (cs ! i)) i"
  by (simp add: one_by_one_def)

lemma race_append: "race (is @ js) p = (case race is p of None \<Rightarrow> None | Some q \<Rightarrow> race js q)"
  unfolding race_def foldM_append ..

lemma race_indices: "race is p = Some q \<Longrightarrow> set is \<subseteq> {..<length (snd p)} \<and> length (snd q) = length (snd p)"
  by (induction rule: race_induct) auto

section \<open>The point at which a call takes effect\<close>

text \<open>After its access to the store a write has only the LRU left to invalidate, which does nothing without an LRU, or the indexer to update, which no call reads.\<close>

fun settle :: "call \<Rightarrow> call" where
  "settle (Invalidating w) = Done"
| "settle (Indexing w) = Done"
| "settle c = c"

definition settled :: "call \<Rightarrow> bool" where
  "settled c \<longleftrightarrow> finished (settle c)"

lemma settle_finished: "finished c \<Longrightarrow> settle c = c"
  by (cases c) simp_all

text \<open>Two states of a cache without an LRU that differ at most in the indexer.\<close>

definition same_store :: "'t shared \<Rightarrow> 't shared \<Rightarrow> bool" where
  "same_store sh sh2 \<longleftrightarrow> sh_lru sh = None \<and> sh_lru sh2 = None \<and> cd_store (sh_cached sh2) = cd_store (sh_cached sh)"

text \<open>
  One access of a call that has not taken effect: it looks at the LRU, which is not there, or the call takes effect, and then the uninterrupted call does the same in every state with the same store.
\<close>

lemma access_effect:
  assumes "call_step c sh = Some (c', sh')" "same_store sh sh2" "starting c0" "c = c0 \<or> (\<exists>key. c0 = Reading key \<and> c = Fetching key)" "i < length cs" "cs ! i = c0"
  shows "(\<exists>key. c0 = Reading key \<and> c' = Fetching key \<and> sh' = sh) \<or>
    settled c' \<and> (\<exists>sh2'. same_store sh' sh2' \<and> race (replicate (solo c0) i) (sh2, cs) = Some (sh2', cs[i := settle c']))"
proof (cases c)
  case (Fetching key)
  with assms(3,4) have c0: "c0 = Reading key" by auto
  with Fetching assms(1,2,5,6) show ?thesis
    by (auto simp: settled_def race_def race_step_def numeral_2_eq_2 same_store_def split: option.splits)
qed (use assms in \<open>auto simp: settled_def race_def race_step_def numeral_2_eq_2 same_store_def list_of_def\<close>)

lemma settled_access:
  assumes "call_step c sh = Some (c', sh')" "same_store sh sh2" "settled c"
  shows "settle c' = settle c \<and> settled c' \<and> same_store sh' sh2"
  using assms by (cases c) (auto simp: settled_def same_store_def)

section \<open>Linearization\<close>

text \<open>
  At every moment of a run from \<open>(sh0, cs0)\<close>: the calls that have taken effect, in the order in which they did, have the outcome of the same calls one after another, and the others have not taken effect.
\<close>

definition linear :: "'t shared \<times> call list \<Rightarrow> nat list \<Rightarrow> 't shared \<times> call list \<Rightarrow> nat list \<Rightarrow> bool" where
  "linear p is = (\<lambda>(sh, cs) order. distinct order \<and> subseq order is \<and> length cs = length (snd p) \<and>
     (\<exists>sh2 cs'. same_store sh sh2 \<and> race (one_by_one (snd p) order) p = Some (sh2, cs') \<and> length cs' = length cs \<and>
       (\<forall>i < length cs. i \<in> set order \<longrightarrow> settled (cs ! i) \<and> cs' ! i = settle (cs ! i)) \<and>
       (\<forall>i < length cs. i \<notin> set order \<longrightarrow> cs' ! i = snd p ! i \<and> (cs ! i = snd p ! i \<or> (\<exists>key. snd p ! i = Reading key \<and> cs ! i = Fetching key)))))"

lemma linear_step:
  assumes "linear (sh0, cs0) is (sh, cs) order" "list_all starting cs0" "i < length cs" "call_step (cs ! i) sh = Some (c', sh')"
  shows "\<exists>order'. linear (sh0, cs0) (is @ [i]) (sh', cs[i := c']) order'"
proof -
  from assms(1) obtain sh2 cs' where same: "same_store sh sh2" and order: "distinct order" "subseq order is" and len: "length cs = length cs0" "length cs' = length cs"
    and run: "race (one_by_one cs0 order) (sh0, cs0) = Some (sh2, cs')"
    and calls: "\<And>j. j < length cs \<Longrightarrow> j \<in> set order \<Longrightarrow> settled (cs ! j) \<and> cs' ! j = settle (cs ! j)"
      "\<And>j. j < length cs \<Longrightarrow> j \<notin> set order \<Longrightarrow> cs' ! j = cs0 ! j \<and> (cs ! j = cs0 ! j \<or> (\<exists>key. cs0 ! j = Reading key \<and> cs ! j = Fetching key))"
    by (auto simp: linear_def)
  have longer: "subseq order (is @ [i])" using order(2) by (rule list_emb_prefix)
  show ?thesis
  proof (cases "i \<in> set order")
    case True
    with settled_access [OF assms(4) same] calls(1) [OF assms(3)] have "settle c' = settle (cs ! i)" "settled c'" "same_store sh' sh2" by simp_all
    with True run order(1) longer len calls assms(3) have "linear (sh0, cs0) (is @ [i]) (sh', cs[i := c']) order"
      unfolding linear_def by (auto simp: nth_list_update intro!: exI [of _ sh2] exI [of _ cs'])
    then show ?thesis by blast
  next
    case False
    note at = calls(2) [OF assms(3) False]
    have "starting (cs0 ! i)" using assms(2,3) len(1) by (simp add: list_all_length)
    from access_effect [OF assms(4) same this, of i cs'] at consider
      key where "cs0 ! i = Reading key" "c' = Fetching key" "sh' = sh"
      | sh2' where "settled c'" "same_store sh' sh2'" "race (replicate (solo (cs0 ! i)) i) (sh2, cs') = Some (sh2', cs'[i := settle c'])"
      using assms(3) len(2) by fastforce
    then show ?thesis
    proof cases
      case 1
      with False run same order(1) longer len calls at assms(3) have "linear (sh0, cs0) (is @ [i]) (sh', cs[i := c']) order"
        unfolding linear_def by (auto simp: nth_list_update intro!: exI [of _ sh2] exI [of _ cs'])
      then show ?thesis by blast
    next
      case (2 sh2')
      from run 2(3) have "race (one_by_one cs0 (order @ [i])) (sh0, cs0) = Some (sh2', cs'[i := settle c'])"
        by (simp add: one_by_one_snoc race_append)
      moreover have "subseq (order @ [i]) (is @ [i])" using order(2) by simp
      ultimately have "linear (sh0, cs0) (is @ [i]) (sh', cs[i := c']) (order @ [i])"
        using False order(1) 2(1,2) len calls assms(3) unfolding linear_def
        by (auto simp: nth_list_update intro!: exI [of _ sh2'] exI [of _ "cs'[i := settle c']"])
      then show ?thesis by blast
    qed
  qed
qed

lemma linear_run:
  assumes "race is (sh0, cs0) = Some q" "sh_lru sh0 = None" "list_all starting cs0"
  shows "\<exists>order. linear (sh0, cs0) is q order"
  using assms(1)
proof (induction rule: race_induct)
  case start
  from assms(2) show ?case by (intro exI [of _ "[]"]) (simp add: linear_def one_by_one_def same_store_def)
next
  case (access "is" sh cs i c sh')
  then show ?case using linear_step [OF _ assms(3)] by blast
qed

text \<open>
  C15 (equivalence): without an LRU the cache is linearizable. However Gets, Lists, collections, client writes and informer writes interleave, once all have returned the answers and the store are those of the calls made one after another, in an order in which each call has its
  place at one of its own accesses; so a call that returned before another began comes before it.
\<close>

theorem cache_linearizable:
  assumes "ca_lru c = None" "list_all starting cs" "race sched (shared_of c, cs) = Some (sh, cs')" "list_all finished cs'"
  shows "\<exists>order sh2. distinct order \<and> set order = {..<length cs} \<and> subseq order sched \<and>
    race (one_by_one cs order) (shared_of c, cs) = Some (sh2, cs') \<and> cd_store (sh_cached sh2) = cd_store (sh_cached sh)"
proof -
  have "sh_lru (shared_of c) = None" using assms(1) by (simp add: shared_of_def)
  from linear_run [OF assms(3) this assms(2)] obtain order where "linear (shared_of c, cs) sched (sh, cs') order" by blast
  then obtain sh2 cs2 where
    L: "distinct order" "subseq order sched" "length cs' = length cs" "same_store sh sh2" "race (one_by_one cs order) (shared_of c, cs) = Some (sh2, cs2)" "length cs2 = length cs'"
    and calls: "\<And>i. i < length cs' \<Longrightarrow> i \<in> set order \<Longrightarrow> cs2 ! i = settle (cs' ! i)"
      "\<And>i. i < length cs' \<Longrightarrow> i \<notin> set order \<Longrightarrow> cs' ! i = cs ! i \<or> (\<exists>key. cs' ! i = Fetching key)"
    unfolding linear_def prod.case snd_conv by blast
  have fin: "finished (cs' ! i)" if "i < length cs'" for i using assms(4) that by (simp add: list_all_length)
  have "i \<in> set order" if "i < length cs'" for i
  proof (rule ccontr)
    assume "i \<notin> set order"
    with calls(2) [OF that] fin [OF that] have "cs' ! i = cs ! i" by auto
    moreover have "starting (cs ! i)" using assms(2) that L(3) by (simp add: list_all_length)
    ultimately show False using fin [OF that] by (cases "cs ! i") auto
  qed
  moreover have "i < length cs" if "i \<in> set order" for i
    using race_indices [OF assms(3)] L(2) that by (auto dest: list_emb_set)
  ultimately have "set order = {..<length cs}" using L(3) by auto
  moreover have "cs2 = cs'"
    using calls(1) fin settle_finished \<open>set order = _\<close> L(3,6) by (simp add: list_eq_iff_nth_eq)
  ultimately show ?thesis using L by (auto simp: same_store_def)
qed

theorem cache_linearizable_witness:
  "\<exists>(c :: unit cache) sh u order sh2. race [0, 1, 0, 1] (shared_of c, [Reading (pod_key ''a''), Writing (Put (pod_key ''a'') (pod ''n1''))]) = Some (sh, [Answered (pod_key ''a'') (Some u), Done]) \<and>
     set order = {..<2} \<and> subseq order [0, 1, 0, 1] \<and>
     race (one_by_one [Reading (pod_key ''a''), Writing (Put (pod_key ''a'') (pod ''n1''))] order) (shared_of c, [Reading (pod_key ''a''), Writing (Put (pod_key ''a'') (pod ''n1''))]) =
       Some (sh2, [Answered (pod_key ''a'') (Some u), Done])"
proof -
  let ?k = "pod_key ''a''"
  let ?c = "NewCache [] 0 :: unit cache"
  let ?cs = "[Reading ?k, Writing (Put ?k (pod ''n1''))]"
  have c: "ca_lru ?c = None" "cd_store (ca_cached ?c) = NewDedupStore" by (simp_all add: NewCache_def empty_cached_def)
  from ds.ups_law [OF store_inv_new pod_ok(1)] obtain t where
    t: "Upsert ?k (pod ''n1'') NewDedupStore = Some t" "store_inv t" "store_view t ?k = Some (sem (GMap (pod ''n1'')))"
    by (fastforce simp: returns_iff simp del: sem.simps)
  from ds.get_law [OF t(2), of ?k] t(3) obtain u where u: "Get ?k t = Some (Some u)" by (auto simp: returns_iff simp del: sem.simps)
  obtain sh where run: "race [0, 1, 0, 1] (shared_of ?c, ?cs) = Some (sh, [Answered ?k (Some u), Done])"
    using c t(1) u by (simp add: race_def race_step_def shared_of_def)
  from cache_linearizable [OF c(1) _ run] obtain order sh2 where
    "set order = {..<length ?cs}" "subseq order [0, 1, 0, 1]" "race (one_by_one ?cs order) (shared_of ?c, ?cs) = Some (sh2, [Answered ?k (Some u), Done])" by auto
  with run show ?thesis by (intro exI [of _ ?c] exI [of _ sh] exI [of _ u] exI [of _ order] exI [of _ sh2]) (simp add: numeral_2_eq_2)
qed

end
