(* ===== verification/Object_Heap.thy ===== *)
theory Object_Heap
  imports Dedup_Store
begin

text \<open>
  Objects in memory. The other theories take the content of an \<open>Unstructured\<close> as a value; in the program it is a tree of Go maps and slices, which are references, and whoever holds a reference can write through it.
  Here maps and slices are cells of a heap, and \<open>reconstruct\<close> (\<open>store/dedup_store.go\<close>) allocates them. The lemmas say which cells a tree lives in, and that it stays what it is while others write elsewhere.
\<close>

section \<open>Heaps\<close>

datatype rval = RScalar iface | RMap nat | RSlice nat

datatype cell = MapCell "(string, rval) gomap" | SliceCell "rval list"

text \<open>The cells by address; allocation appends. An address is never used again, so the garbage collector of Go has no part in this.\<close>

type_synonym heap = "cell list"

text \<open>\<open>denotes h A w t\<close>: the value \<open>w\<close> is the tree \<open>t\<close>, in cells of the region \<open>A\<close> alone.\<close>

inductive denotes :: "heap \<Rightarrow> nat set \<Rightarrow> rval \<Rightarrow> gval \<Rightarrow> bool" for h A where
  denotes_scalar: "denotes h A (RScalar v) (Scalar v)"
| denotes_map: "a \<in> A \<Longrightarrow> a < length h \<Longrightarrow> h ! a = MapCell m \<Longrightarrow>
    list_all2 (\<lambda>x y. fst x = fst y \<and> denotes h A (snd x) (snd y)) m kvs \<Longrightarrow> denotes h A (RMap a) (GMap kvs)"
| denotes_slice: "a \<in> A \<Longrightarrow> a < length h \<Longrightarrow> h ! a = SliceCell ws \<Longrightarrow> list_all2 (denotes h A) ws ts \<Longrightarrow> denotes h A (RSlice a) (GSlice ts)"

inductive_simps denotes_simps:
  "denotes h A w (Scalar v)"
  "denotes h A w (GMap kvs)"
  "denotes h A w (GSlice ts)"

inductive_cases denotes_mapE: "denotes h A (RMap a) t"

text \<open>A tree stays what it is when the cells of its region do.\<close>

lemma denotes_frame:
  assumes "denotes h A w t" "\<And>a. a \<in> A \<Longrightarrow> a < length h \<Longrightarrow> a \<in> B \<and> a < length h' \<and> h' ! a = h ! a"
  shows "denotes h' B w t"
  using assms(1)
proof (induction rule: denotes.induct)
  case (denotes_map a m kvs)
  then show ?case using assms(2) [of a] by (auto intro!: denotes.denotes_map elim!: list_all2_mono)
next
  case (denotes_slice a ws ts)
  then show ?case using assms(2) [of a] by (auto intro!: denotes.denotes_slice elim!: list_all2_mono)
qed (rule denotes.denotes_scalar)

lemma list_all2_unique:
  "list_all2 R xs ys \<Longrightarrow> list_all2 S xs zs \<Longrightarrow> (\<And>x y z. R x y \<Longrightarrow> S x z \<Longrightarrow> y = z) \<Longrightarrow> ys = zs"
proof (induction arbitrary: zs rule: list_all2_induct)
  case (Cons x xs y ys)
  then show ?case by (auto simp: list_all2_Cons1)
qed simp

lemma denotes_unique: "denotes h A w t \<Longrightarrow> denotes h B w s \<Longrightarrow> t = s"
proof (induction arbitrary: s rule: denotes.induct)
  case (denotes_scalar v)
  then show ?case by (auto elim: denotes.cases)
next
  case (denotes_map a m kvs)
  from denotes_map.prems denotes_map.hyps(3) obtain kvs' where
    s: "s = GMap kvs'" "list_all2 (\<lambda>x y. fst x = fst y \<and> denotes h B (snd x) (snd y)) m kvs'" by (auto elim: denotes_mapE)
  have "kvs = kvs'" by (rule list_all2_unique [OF denotes_map.IH s(2)]) (auto simp: prod_eq_iff)
  with s(1) show ?case by simp
next
  case (denotes_slice a ws ts)
  from denotes_slice.prems denotes_slice.hyps(3) obtain ts' where s: "s = GSlice ts'" "list_all2 (denotes h B) ws ts'" by (auto elim: denotes.cases)
  have "ts = ts'" by (rule list_all2_unique [OF denotes_slice.IH s(2)]) auto
  with s(1) show ?case by simp
qed

section \<open>No path passes twice through a cell\<close>

lemma size_children:
  "kv \<in> set kvs \<Longrightarrow> size (snd kv) < size (GMap kvs)" "t \<in> set ts \<Longrightarrow> size t < size (GSlice ts)"
proof -
  show "kv \<in> set kvs \<Longrightarrow> size (snd kv) < size (GMap kvs)" by (induction kvs) auto
  show "t \<in> set ts \<Longrightarrow> size t < size (GSlice ts)" by (induction ts) auto
qed

lemma list_all2_entries:
  "list_all2 (\<lambda>x y. fst x = fst y \<and> R (snd x) (snd y)) m kvs \<longleftrightarrow> map fst m = map fst kvs \<and> list_all2 R (map snd m) (map snd kvs)"
proof (induction m arbitrary: kvs)
  case (Cons x m)
  then show ?case by (cases kvs) auto
qed simp

lemma denotes_below:
  assumes "denotes h A w t" "denotes h B v s" "size t < size s" "v = RMap a \<or> v = RSlice a"
  shows "denotes h (A - {a}) w t"
  using assms(1,3)
proof (induction rule: denotes.induct)
  case (denotes_map b m kvs)
  have "b \<noteq> a"
  proof
    assume "b = a"
    with assms(4) denotes_map.hyps(3) assms(2) have "v = RMap b" by (auto elim: denotes.cases)
    moreover have "denotes h A (RMap b) (GMap kvs)"
      using denotes_map.hyps(1-3) by (rule denotes.denotes_map) (rule list_all2_mono [OF denotes_map.IH], auto)
    ultimately show False using denotes_unique [OF assms(2)] denotes_map.prems by blast
  qed
  moreover have "list_all2 (\<lambda>x y. fst x = fst y \<and> denotes h (A - {a}) (snd x) (snd y)) m kvs"
    using denotes_map.IH size_children(1) [of _ kvs] denotes_map.prems by (force intro: list.rel_mono_strong)
  ultimately show ?case using denotes_map.hyps(1-3) by (auto intro: denotes.denotes_map)
next
  case (denotes_slice b ws ts)
  have "b \<noteq> a"
  proof
    assume "b = a"
    with assms(4) denotes_slice.hyps(3) assms(2) have "v = RSlice b" by (auto elim: denotes.cases)
    moreover have "denotes h A (RSlice b) (GSlice ts)"
      using denotes_slice.hyps(1-3) by (rule denotes.denotes_slice) (rule list_all2_mono [OF denotes_slice.IH], auto)
    ultimately show False using denotes_unique [OF assms(2)] denotes_slice.prems by blast
  qed
  moreover have "list_all2 (denotes h (A - {a})) ws ts"
    using denotes_slice.IH size_children(2) [of _ ts] denotes_slice.prems by (force intro: list.rel_mono_strong)
  ultimately show ?case using denotes_slice.hyps(1-3) by (auto intro: denotes.denotes_slice)
qed (rule denotes.denotes_scalar)

lemma denotes_children:
  "denotes h A (RMap a) (GMap kvs) \<Longrightarrow> \<exists>m. a \<in> A \<and> a < length h \<and> h ! a = MapCell m \<and> map fst m = map fst kvs \<and> list_all2 (denotes h (A - {a})) (map snd m) (map snd kvs)"
  "denotes h A (RSlice a) (GSlice ts) \<Longrightarrow> \<exists>ws. a \<in> A \<and> a < length h \<and> h ! a = SliceCell ws \<and> list_all2 (denotes h (A - {a})) ws ts"
proof -
  assume d: "denotes h A (RMap a) (GMap kvs)"
  then obtain m where m: "a \<in> A" "a < length h" "h ! a = MapCell m" "list_all2 (\<lambda>x y. fst x = fst y \<and> denotes h A (snd x) (snd y)) m kvs"
    by (auto simp: denotes_simps)
  have "list_all2 (\<lambda>x y. fst x = fst y \<and> denotes h (A - {a}) (snd x) (snd y)) m kvs"
    using m(4) by (rule list.rel_mono_strong) (use denotes_below [OF _ d] size_children(1) in blast)
  with m(1-3) show "\<exists>m. a \<in> A \<and> a < length h \<and> h ! a = MapCell m \<and> map fst m = map fst kvs \<and> list_all2 (denotes h (A - {a})) (map snd m) (map snd kvs)"
    unfolding list_all2_entries by blast
next
  assume d: "denotes h A (RSlice a) (GSlice ts)"
  then obtain ws where ws: "a \<in> A" "a < length h" "h ! a = SliceCell ws" "list_all2 (denotes h A) ws ts"
    by (auto simp: denotes_simps)
  have "list_all2 (denotes h (A - {a})) ws ts"
    using ws(4) by (rule list.rel_mono_strong) (use denotes_below [OF _ d] size_children(2) in blast)
  with ws(1-3) show "\<exists>ws. a \<in> A \<and> a < length h \<and> h ! a = SliceCell ws \<and> list_all2 (denotes h (A - {a})) ws ts" by blast
qed

section \<open>Reading an object\<close>

text \<open>The content below a reference. The number of cells is enough fuel, since no path passes twice through a cell.\<close>

primrec read_value :: "nat \<Rightarrow> heap \<Rightarrow> rval \<Rightarrow> gval option" where
  "read_value 0 h w = None"
| "read_value (Suc n) h w =
     (case w of
        RScalar v \<Rightarrow> Some (Scalar v)
      | RMap a \<Rightarrow>
          (case h ! a of
             MapCell m \<Rightarrow> map_option (\<lambda>ts. GMap (zip (map fst m) ts)) (mapM (read_value n h) (map snd m))
           | SliceCell ws \<Rightarrow> None)
      | RSlice a \<Rightarrow>
          (case h ! a of
             SliceCell ws \<Rightarrow> map_option GSlice (mapM (read_value n h) ws)
           | MapCell m \<Rightarrow> None))"

definition read_object :: "nat \<Rightarrow> heap \<Rightarrow> gobj" where
  "read_object a h = (case read_value (Suc (length h)) h (RMap a) of Some (GMap u) \<Rightarrow> u | _ \<Rightarrow> [])"

lemma mapM_related: "list_all2 (\<lambda>x y. f x = Some y) xs ys \<Longrightarrow> mapM f xs = Some ys"
  by (induction rule: list_all2_induct) simp_all

lemma read_value_denotes: "denotes h A w t \<Longrightarrow> finite A \<Longrightarrow> card A < n \<Longrightarrow> read_value n h w = Some t"
proof (induction n arbitrary: A w t)
  case (Suc n)
  have IH: "read_value n h v = Some s" if "denotes h (A - {a}) v s" "a \<in> A" for v s a
    using Suc.IH [OF that(1)] Suc.prems(2,3) card_Diff1_less [OF Suc.prems(2) that(2)] by simp
  show ?case
    using Suc.prems(1)
  proof cases
    case (denotes_map a m' kvs)
    with Suc.prems(1) denotes_children(1) obtain m where m: "a \<in> A" "h ! a = MapCell m" "map fst m = map fst kvs"
      "list_all2 (denotes h (A - {a})) (map snd m) (map snd kvs)" by blast
    have "mapM (read_value n h) (map snd m) = Some (map snd kvs)"
      by (rule mapM_related, rule list_all2_mono [OF m(4)]) (rule IH [OF _ m(1)])
    with denotes_map(1,2) m(2,3) show ?thesis by (simp add: zip_map_fst_snd)
  next
    case (denotes_slice a ws' ts)
    with Suc.prems(1) denotes_children(2) obtain ws where ws: "a \<in> A" "h ! a = SliceCell ws" "list_all2 (denotes h (A - {a})) ws ts" by blast
    have "mapM (read_value n h) ws = Some ts"
      by (rule mapM_related, rule list_all2_mono [OF ws(3)]) (rule IH [OF _ ws(1)])
    with denotes_slice(1,2) ws(2) show ?thesis by simp
  qed simp
qed simp

lemma read_object_denotes:
  assumes "denotes h A (RMap a) (GMap u)"
  shows "read_object a h = u"
proof -
  have "denotes h {..<length h} (RMap a) (GMap u)" using assms by (rule denotes_frame) auto
  then have "read_value (Suc (length h)) h (RMap a) = Some (GMap u)" by (rule read_value_denotes) simp_all
  then show ?thesis by (simp add: read_object_def del: read_value.simps)
qed

section \<open>New cells\<close>

text \<open>\<open>heap_grows h h'\<close>: \<open>h'\<close> has the cells of \<open>h\<close> and possibly new ones, which are the region \<open>new_cells h h'\<close>.\<close>

definition heap_grows :: "heap \<Rightarrow> heap \<Rightarrow> bool" where
  "heap_grows h h' \<longleftrightarrow> length h \<le> length h' \<and> (\<forall>a < length h. h' ! a = h ! a)"

abbreviation new_cells :: "heap \<Rightarrow> heap \<Rightarrow> nat set" where
  "new_cells h h' \<equiv> {length h..<length h'}"

lemma heap_grows_refl [simp]: "heap_grows h h"
  by (simp add: heap_grows_def)

lemma heap_grows_trans: "heap_grows h h' \<Longrightarrow> heap_grows h' h'' \<Longrightarrow> heap_grows h h''"
  by (auto simp: heap_grows_def)

lemma heap_grows_append [simp]: "heap_grows h (h @ cs)"
  by (auto simp: heap_grows_def nth_append)

lemma heap_grows_update: "heap_grows h h' \<Longrightarrow> length h \<le> a \<Longrightarrow> heap_grows h (h'[a := c])"
  by (auto simp: heap_grows_def)

lemma denotes_heap_grows: "denotes h A w t \<Longrightarrow> heap_grows h h' \<Longrightarrow> A \<subseteq> B \<Longrightarrow> denotes h' B w t"
  by (erule denotes_frame) (auto simp: heap_grows_def)

lemma denotes_update: "denotes h A w t \<Longrightarrow> a \<notin> A \<Longrightarrow> A \<subseteq> B \<Longrightarrow> denotes (h[a := c]) B w t"
  by (erule denotes_frame) (simp, metis nth_list_update_neq subsetD)

text \<open>The result of a computation that allocates, against the one on values.\<close>

definition allocates :: "heap \<Rightarrow> (rval \<times> heap) option \<Rightarrow> gval option \<Rightarrow> bool" where
  "allocates h r t = rel_option (\<lambda>(w, h') t. heap_grows h h' \<and> denotes h' (new_cells h h') w t) r t"

section \<open>reconstruct\<close>

definition set_entry :: "nat \<Rightarrow> string \<Rightarrow> rval \<Rightarrow> heap \<Rightarrow> heap" where
  "set_entry a k w h = (case h ! a of MapCell m \<Rightarrow> h[a := MapCell (go_put k w m)] | _ \<Rightarrow> h)"

definition set_item :: "nat \<Rightarrow> nat \<Rightarrow> rval \<Rightarrow> heap \<Rightarrow> heap" where
  "set_item a i w h = (case h ! a of SliceCell ws \<Rightarrow> h[a := SliceCell (ws[i := w])] | _ \<Rightarrow> h)"

text \<open>\<open>make\<close> allocates the map or the slice, whose elements are nil, and the loop fills it.\<close>

primrec reconstruct_heap :: "nat \<Rightarrow> dedup_store \<Rightarrow> nat \<Rightarrow> heap \<Rightarrow> (rval \<times> heap) option" where
  "reconstruct_heap 0 s i h = None"
| "reconstruct_heap (Suc fuel) s i h =
     (let n = resolve_node s i; a = length h
      in case node_kind n of
           NodeKindScalar \<Rightarrow> Some (RScalar (resolve_value s (node_value n)), h)
         | NodeKindMap \<Rightarrow>
             map_option (Pair (RMap a))
               (foldM (\<lambda>e h. map_option (\<lambda>(w, h). set_entry a (key_string s (entry_key e)) w h) (reconstruct_heap fuel s (entry_value e) h))
                  (node_entries n) (h @ [MapCell []]))
         | NodeKindSlice \<Rightarrow>
             map_option (Pair (RSlice a))
               (foldM (\<lambda>(k, item) h. map_option (\<lambda>(w, h). set_item a k w h) (reconstruct_heap fuel s item h))
                  (enumerate 0 (node_items n)) (h @ [SliceCell (replicate (length (node_items n)) (RScalar INil))])))"

lemma foldM_related:
  assumes "R s t" "\<And>x s t. x \<in> set xs \<Longrightarrow> R s t \<Longrightarrow> rel_option R (f x s) (g x t)"
  shows "rel_option R (foldM f xs s) (foldM g xs t)"
  using assms
proof (induction xs arbitrary: s t)
  case (Cons x xs)
  from Cons.prems(2) [of x s t] Cons.prems(1) show ?case
    by (auto simp: option_rel_Some1 option_rel_Some2 split: option.split intro!: Cons.IH Cons.prems(2))
qed simp

lemma list_all2_go_put:
  "list_all2 (\<lambda>x y. fst x = fst y \<and> R (snd x) (snd y)) m kvs \<Longrightarrow> R w t \<Longrightarrow>
   list_all2 (\<lambda>x y. fst x = fst y \<and> R (snd x) (snd y)) (go_put k w m) (go_put k t kvs)"
  by (induction rule: list_all2_induct) (auto split: prod.splits)

text \<open>The loop over the entries: the map under construction is the cell \<open>a\<close>, the children lie above it.\<close>

definition filling_map :: "heap \<Rightarrow> heap \<Rightarrow> gobj \<Rightarrow> bool" where
  "filling_map h h' kvs \<longleftrightarrow> heap_grows h h' \<and> length h < length h' \<and>
     (\<exists>m. h' ! length h = MapCell m \<and> list_all2 (\<lambda>x y. fst x = fst y \<and> denotes h' {length h<..<length h'} (snd x) (snd y)) m kvs)"

lemma filling_map_step:
  assumes "filling_map h h1 kvs" "heap_grows h1 h2" "denotes h2 (new_cells h1 h2) w t"
  shows "filling_map h (set_entry (length h) k w h2) (go_put k t kvs)"
proof -
  from assms(1) obtain m where m: "heap_grows h h1" "length h < length h1" "h1 ! length h = MapCell m"
    "list_all2 (\<lambda>x y. fst x = fst y \<and> denotes h1 {length h<..<length h1} (snd x) (snd y)) m kvs" by (auto simp: filling_map_def)
  let ?h3 = "h2[length h := MapCell (go_put k w m)]"
  from assms(2) m(2,3) have 2: "h2 ! length h = MapCell m" "length h < length h2" "length h1 \<le> length h2" by (auto simp: heap_grows_def)
  have keep: "denotes ?h3 {length h<..<length ?h3} v u" if "denotes h1 {length h<..<length h1} v u" for v u
    using that by (rule denotes_frame) (use assms(2) 2 in \<open>auto simp: heap_grows_def\<close>)
  have new: "denotes ?h3 {length h<..<length ?h3} w t"
    using assms(3) by (rule denotes_frame) (use m(2) in auto)
  from m(4) have "list_all2 (\<lambda>x y. fst x = fst y \<and> denotes ?h3 {length h<..<length ?h3} (snd x) (snd y)) m kvs"
    by (rule list_all2_mono) (auto dest: keep)
  from list_all2_go_put [OF this, of w t k, OF new]
  show ?thesis
    using heap_grows_trans [OF m(1) assms(2)] 2 by (auto simp: filling_map_def set_entry_def intro!: heap_grows_update)
qed

text \<open>The loop over the items: those done are in their places, the rest is nil.\<close>

definition filling_slice :: "heap \<Rightarrow> nat \<Rightarrow> heap \<Rightarrow> gval list \<Rightarrow> bool" where
  "filling_slice h n h' ts \<longleftrightarrow> heap_grows h h' \<and> length h < length h' \<and>
     (\<exists>ws. h' ! length h = SliceCell (ws @ replicate n (RScalar INil)) \<and> list_all2 (denotes h' {length h<..<length h'}) ws ts)"

lemma filling_slice_step:
  assumes "filling_slice h (Suc n) h1 ts" "heap_grows h1 h2" "denotes h2 (new_cells h1 h2) w t"
  shows "filling_slice h n (set_item (length h) (length ts) w h2) (ts @ [t])"
proof -
  from assms(1) obtain ws where ws: "heap_grows h h1" "length h < length h1" "h1 ! length h = SliceCell (ws @ replicate (Suc n) (RScalar INil))"
    "list_all2 (denotes h1 {length h<..<length h1}) ws ts" by (auto simp: filling_slice_def)
  let ?h3 = "h2[length h := SliceCell ((ws @ [w]) @ replicate n (RScalar INil))]"
  have len: "length ws = length ts" using ws(4) by (rule list_all2_lengthD)
  from assms(2) ws(2,3) have 2: "h2 ! length h = SliceCell (ws @ replicate (Suc n) (RScalar INil))" "length h < length h2" "length h1 \<le> length h2"
    by (auto simp: heap_grows_def)
  then have set: "set_item (length h) (length ts) w h2 = ?h3" by (simp add: set_item_def list_update_append flip: len)
  have keep: "denotes ?h3 {length h<..<length ?h3} v u" if "denotes h1 {length h<..<length h1} v u" for v u
    using that by (rule denotes_frame) (use assms(2) 2 in \<open>auto simp: heap_grows_def\<close>)
  have new: "denotes ?h3 {length h<..<length ?h3} w t"
    using assms(3) by (rule denotes_frame) (use ws(2) in auto)
  from ws(4) have "list_all2 (denotes ?h3 {length h<..<length ?h3}) ws ts" by (rule list_all2_mono) (rule keep)
  with new have "list_all2 (denotes ?h3 {length h<..<length ?h3}) (ws @ [w]) (ts @ [t])" by (simp add: list_all2_appendI)
  moreover have "?h3 ! length h = SliceCell ((ws @ [w]) @ replicate n (RScalar INil))" using 2 by simp
  moreover have "heap_grows h ?h3" by (intro heap_grows_update heap_grows_trans [OF ws(1) assms(2)]) simp
  ultimately show ?thesis using 2 unfolding set filling_slice_def by (metis length_list_update)
qed

text \<open>The bodies of the two loops.\<close>

lemma set_items_loop:
  assumes "\<And>item h. item \<in> set items \<Longrightarrow> allocates h (build item h) (value_of item)"
    and "filling_slice h (length items) h1 ts"
  shows "rel_option (\<lambda>h' us. filling_slice h 0 h' (ts @ us))
    (foldM (\<lambda>(k, item) h'. map_option (\<lambda>(w, h'). set_item (length h) k w h') (build item h')) (enumerate (length ts) items) h1)
    (mapM value_of items)"
  using assms
proof (induction items arbitrary: h1 ts)
  case (Cons item items)
  from Cons.prems(1) [of item h1] consider "build item h1 = None" "value_of item = None"
    | w h2 t where "build item h1 = Some (w, h2)" "value_of item = Some t" "heap_grows h1 h2" "denotes h2 (new_cells h1 h2) w t"
    by (auto simp: allocates_def option_rel_Some2 elim!: option.rel_cases)
  then show ?case
  proof cases
    case (2 w h2 t)
    from filling_slice_step [OF _ 2(3,4)] Cons.prems(2) have "filling_slice h (length items) (set_item (length h) (length ts) w h2) (ts @ [t])" by simp
    from Cons.IH [OF Cons.prems(1) this] 2(1,2) show ?thesis by (auto simp: option.rel_map)
  qed simp
qed simp

lemma set_entries_loop:
  assumes "\<And>e h. e \<in> set es \<Longrightarrow> allocates h (build e h) (value_of e)" "filling_map h h1 kvs"
  shows "rel_option (filling_map h)
    (foldM (\<lambda>e h'. map_option (\<lambda>(w, h'). set_entry (length h) (key e) w h') (build e h')) es h1)
    (foldM (\<lambda>e m. case value_of e of None \<Rightarrow> None | Some x \<Rightarrow> Some (go_put (key e) x m)) es kvs)"
proof (rule foldM_related [where R = "filling_map h", OF assms(2)])
  fix e h2 kvs assume e: "e \<in> set es" "filling_map h h2 kvs"
  from assms(1) [OF e(1), of h2] consider "build e h2 = None" "value_of e = None"
    | w h3 t where "build e h2 = Some (w, h3)" "value_of e = Some t" "heap_grows h2 h3" "denotes h3 (new_cells h2 h3) w t"
    by (auto simp: allocates_def elim!: option.rel_cases)
  then show "rel_option (filling_map h) (map_option (\<lambda>(w, h'). set_entry (length h) (key e) w h') (build e h2))
      (case value_of e of None \<Rightarrow> None | Some x \<Rightarrow> Some (go_put (key e) x kvs))"
    by cases (use filling_map_step [OF e(2)] in simp_all)
qed

lemma filling_map_done:
  assumes "filling_map h h' kvs"
  shows "heap_grows h h' \<and> denotes h' (new_cells h h') (RMap (length h)) (GMap kvs)"
proof -
  from assms obtain m where m: "heap_grows h h'" "length h < length h'" "h' ! length h = MapCell m"
    "list_all2 (\<lambda>x y. fst x = fst y \<and> denotes h' {length h<..<length h'} (snd x) (snd y)) m kvs" by (auto simp: filling_map_def)
  have "denotes h' (new_cells h h') v u" if "denotes h' {length h<..<length h'} v u" for v u
    using that by (rule denotes_heap_grows) auto
  with m show ?thesis by (auto intro!: denotes_map elim!: list_all2_mono)
qed

lemma filling_slice_done:
  assumes "filling_slice h 0 h' ts"
  shows "heap_grows h h' \<and> denotes h' (new_cells h h') (RSlice (length h)) (GSlice ts)"
proof -
  from assms obtain ws where ws: "heap_grows h h'" "length h < length h'" "h' ! length h = SliceCell ws"
    "list_all2 (denotes h' {length h<..<length h'}) ws ts" by (auto simp: filling_slice_def)
  have "denotes h' (new_cells h h') v u" if "denotes h' {length h<..<length h'} v u" for v u
    using that by (rule denotes_heap_grows) auto
  with ws show ?thesis by (auto intro!: denotes_slice elim!: list_all2_mono)
qed

text \<open>\<open>reconstruct\<close> on the heap returns when the one on values does, and what it returns is that value in new cells.\<close>

lemma reconstruct_heap_allocates: "allocates h (reconstruct_heap fuel s i h) (reconstruct fuel s i)"
proof (induction fuel arbitrary: i h)
  case (Suc fuel)
  let ?n = "resolve_node s i"
  show ?case
  proof (cases "node_kind ?n")
    case NodeKindScalar
    then show ?thesis by (simp add: allocates_def denotes_scalar)
  next
    case NodeKindMap
    have "filling_map h (h @ [MapCell []]) []" by (auto simp: filling_map_def)
    from set_entries_loop [where es = "node_entries ?n" and key = "\<lambda>e. key_string s (entry_key e)" and build = "\<lambda>e. reconstruct_heap fuel s (entry_value e)"
        and value_of = "\<lambda>e. reconstruct fuel s (entry_value e)", OF Suc.IH this]
    show ?thesis using NodeKindMap filling_map_done by (auto simp: allocates_def Let_def option.rel_map elim!: option.rel_mono_strong)
  next
    case NodeKindSlice
    let ?xs = "node_items ?n"
    have "filling_slice h (length ?xs) (h @ [SliceCell (replicate (length ?xs) (RScalar INil))]) []" by (auto simp: filling_slice_def)
    from set_items_loop [where build = "reconstruct_heap fuel s" and value_of = "reconstruct fuel s", OF Suc.IH this]
    show ?thesis using NodeKindSlice filling_slice_done by (auto simp: allocates_def Let_def option.rel_map elim!: option.rel_mono_strong)
  qed
qed (simp add: allocates_def)

end
