(* ===== verification/Heap_Races.thy ===== *)
theory Heap_Races
  imports Races Object_Heap
begin

text \<open>
  Concurrent calls on one cache with its objects in memory (\<open>cache/cache.go\<close>, \<open>codec/codec.go\<close>). The LRU holds references, and a caller may write through every reference it has been given. \<open>FromUnstructured\<close> makes a
  deep copy for the caller, so no caller can reach the objects of the LRU: every run here is a run of \<open>Races\<close>, where objects are values.
\<close>

section \<open>An LRU of references against one of values\<close>

definition entry_rel :: "('a \<Rightarrow> 'b \<Rightarrow> bool) \<Rightarrow> 'a lru_entry \<Rightarrow> 'b lru_entry \<Rightarrow> bool" where
  "entry_rel P e f \<longleftrightarrow> le_key e = le_key f \<and> le_elem e = le_elem f \<and> P (le_val e) (le_val f)"

definition lru_rel :: "('a \<Rightarrow> 'b \<Rightarrow> bool) \<Rightarrow> 'a lru_cache \<Rightarrow> 'b lru_cache \<Rightarrow> bool" where
  "lru_rel P c d \<longleftrightarrow> lru_capacity c = lru_capacity d \<and> lru_items c = lru_items d \<and> lru_order c = lru_order d \<and> lru_next c = lru_next d \<and>
     (\<forall>a. rel_option (entry_rel P) (lru_heap c a) (lru_heap d a))"

lemma lru_rel_new: "lru_rel P (newLRUCache n) (newLRUCache n)"
  by (simp add: lru_rel_def newLRUCache_def)

lemma lru_rel_mono:
  assumes "lru_rel P c d" "\<And>a b. P a b \<Longrightarrow> Q a b"
  shows "lru_rel Q c d"
proof -
  have "rel_option (entry_rel Q) x y" if "rel_option (entry_rel P) x y" for x y
    using that by (rule option.rel_mono_strong) (auto simp: entry_rel_def assms(2))
  with assms(1) show ?thesis by (simp add: lru_rel_def)
qed

text \<open>What an address holds on either side.\<close>

lemma lru_rel_at:
  assumes "lru_rel P c d"
  obtains "lru_heap c a = None" "lru_heap d a = None"
  | e f where "lru_heap c a = Some e" "lru_heap d a = Some f" "le_key e = le_key f" "le_elem e = le_elem f" "P (le_val e) (le_val f)"
proof -
  from assms have "rel_option (entry_rel P) (lru_heap c a) (lru_heap d a)" by (simp add: lru_rel_def)
  then show thesis using that by (cases rule: option.rel_cases) (auto simp: entry_rel_def)
qed

lemma lru_rel_get:
  assumes "lru_rel P c d"
  shows "rel_option P (fst (lru_get k c)) (fst (lru_get k d))" "lru_rel P (snd (lru_get k c)) (snd (lru_get k d))"
proof -
  from assms have items: "lru_items c = lru_items d" by (simp add: lru_rel_def)
  have "rel_option P (fst (lru_get k c)) (fst (lru_get k d)) \<and> lru_rel P (snd (lru_get k c)) (snd (lru_get k d))"
  proof (cases "go_get (lru_items d) k")
    case (Some a)
    from assms show ?thesis
      by (cases rule: lru_rel_at [where a = a]) (use assms Some items in \<open>simp_all add: lru_get_def lru_rel_def\<close>)
  qed (use assms items in \<open>simp add: lru_get_def\<close>)
  then show "rel_option P (fst (lru_get k c)) (fst (lru_get k d))" "lru_rel P (snd (lru_get k c)) (snd (lru_get k d))" by simp_all
qed

lemma lru_rel_delete:
  assumes "lru_rel P c d"
  shows "lru_rel P (lru_delete k c) (lru_delete k d)"
proof -
  from assms have items: "lru_items c = lru_items d" by (simp add: lru_rel_def)
  show ?thesis
  proof (cases "go_get (lru_items d) k")
    case (Some a)
    from assms show ?thesis
      by (cases rule: lru_rel_at [where a = a]) (use assms Some items in \<open>simp_all add: lru_delete_def lru_rel_def\<close>)
  qed (use assms items in \<open>simp add: lru_delete_def\<close>)
qed

lemma lru_rel_evict:
  assumes "lru_rel P c d"
  shows "lru_rel P (lru_evict c) (lru_evict d)"
proof -
  from assms have same: "lru_items c = lru_items d" "lru_order c = lru_order d" "lru_capacity c = lru_capacity d" by (simp_all add: lru_rel_def)
  show ?thesis
  proof (cases "list_Back (lru_order d)")
    case (Some x)
    obtain el a where x: "x = (el, a)" by fastforce
    from assms show ?thesis
      by (cases rule: lru_rel_at [where a = a]) (use assms Some x same in \<open>simp_all add: lru_evict_def lru_rel_def\<close>)
  qed (use assms same in \<open>simp add: lru_evict_def\<close>)
qed

lemma lru_rel_put:
  assumes "lru_rel P c d" "P v w"
  shows "lru_rel P (lru_put k v c) (lru_put k w d)"
proof -
  from assms have items: "lru_items c = lru_items d" by (simp add: lru_rel_def)
  show ?thesis
  proof (cases "go_get (lru_items d) k")
    case None
    with items assms(2) lru_rel_evict [OF assms(1)] show ?thesis
      by (auto simp: lru_put_def lru_rel_def entry_rel_def Let_def split: prod.split)
  next
    case (Some a)
    from assms(1) show ?thesis
      by (cases rule: lru_rel_at [where a = a]) (use assms Some items in \<open>simp_all add: lru_put_def lru_rel_def entry_rel_def\<close>)
  qed
qed

section \<open>Calls and their accesses\<close>

text \<open>\<open>Get\<close> of the store, which returns a reference to a new object.\<close>

definition Get_heap :: "object_key \<Rightarrow> dedup_store \<Rightarrow> heap \<Rightarrow> (nat option \<times> heap) option" where
  "Get_heap key s h =
     (case go_get (ds_objects s) key of
        None \<Rightarrow> Some (None, h)
      | Some root \<Rightarrow> map_option (\<lambda>(raw, h'). (case raw of RMap a \<Rightarrow> Some a | _ \<Rightarrow> None, h')) (reconstruct_heap (node_fuel s) s root h))"

text \<open>\<open>List\<close> of the store: the filters read the object that \<open>reconstruct\<close> has just made, and the result has references to those that pass.\<close>

definition list_entry_heap ::
    "(64 word \<Rightarrow> string) \<Rightarrow> (gobj \<Rightarrow> (string, string) gomap) \<Rightarrow> dedup_store \<Rightarrow> gvk \<Rightarrow> list_options \<Rightarrow>
     object_key \<times> nat \<Rightarrow> nat list \<times> heap \<Rightarrow> (nat list \<times> heap) option" where
  "list_entry_heap ff get_labels s gvk lo = (\<lambda>(key, root) (result, h).
     if key_gvk key \<noteq> gvk then Some (result, h)
     else if lo_namespace lo \<noteq> '''' \<and> key_namespace key \<noteq> lo_namespace lo then Some (result, h)
     else
       (case reconstruct_heap (node_fuel s) s root h of
          None \<Rightarrow> None
        | Some (raw, h') \<Rightarrow>
            (case raw of
               RMap a \<Rightarrow> Some (if selected ff get_labels lo (read_object a h') then result @ [a] else result, h')
             | _ \<Rightarrow> Some (result, h'))))"

definition List_heap :: "query \<Rightarrow> dedup_store \<Rightarrow> heap \<Rightarrow> (nat list \<times> heap) option" where
  "List_heap q s h =
     (let lo = apply_options (q_options q)
      in foldM (list_entry_heap (q_format q) (q_labels q) s (q_gvk q) lo) (ds_objects s) ([], h))"

text \<open>
  The cache with its heap, and the cells that callers can reach: those they were given and those they made.
\<close>

record 't heap_shared =
  hs_cached :: "'t cached"
  hs_lru :: "nat lru_cache option"
  hs_heap :: heap
  hs_owned :: "nat set"

datatype heap_call =
    HReading object_key
  | HFetching object_key
  | HFilling object_key nat
  | HCopying object_key nat
  | HAnswered object_key "nat option"
  | HWriting change
  | HInvalidating change
  | HInforming change
  | HIndexing change
  | HListing query
  | HListed query "nat list"
  | HCollecting
  | HDone

text \<open>
  The next access of a call. \<open>copy a h\<close> is \<open>DeepCopyInto\<close> of the object at \<open>a\<close>, which is code of the API machinery. \<open>Cache.Get\<close> ends with it, after it has released all locks.
  \<open>Cache.List\<close> gives the objects that the store has just made to its caller, without a copy.
\<close>

fun heap_access :: "(nat \<Rightarrow> heap \<Rightarrow> nat \<times> heap) \<Rightarrow> heap_call \<Rightarrow> 't heap_shared \<Rightarrow> (heap_call \<times> 't heap_shared) option" where
  "heap_access copy (HReading key) st =
     (case hs_lru st of
        None \<Rightarrow> Some (HFetching key, st)
      | Some lru \<Rightarrow>
          (let (hit, lru1) = lru_get (key_lru key) lru
           in Some (case hit of Some a \<Rightarrow> HCopying key a | None \<Rightarrow> HFetching key, st\<lparr>hs_lru := Some lru1\<rparr>)))"
| "heap_access copy (HFetching key) st =
     (case Get_heap key (cd_store (hs_cached st)) (hs_heap st) of
        None \<Rightarrow> None
      | Some (None, h) \<Rightarrow> Some (HAnswered key None, st\<lparr>hs_heap := h\<rparr>)
      | Some (Some a, h) \<Rightarrow> Some (if hs_lru st = None then HCopying key a else HFilling key a, st\<lparr>hs_heap := h\<rparr>))"
| "heap_access copy (HFilling key a) st = Some (HCopying key a, st\<lparr>hs_lru := map_option (lru_put (key_lru key) a) (hs_lru st)\<rparr>)"
| "heap_access copy (HCopying key a) st =
     (let (b, h) = copy a (hs_heap st)
      in Some (HAnswered key (Some b), st\<lparr>hs_heap := h, hs_owned := hs_owned st \<union> new_cells (hs_heap st) h\<rparr>))"
| "heap_access copy (HWriting w) st =
     map_option (\<lambda>s. (HInvalidating w, st\<lparr>hs_cached := (hs_cached st)\<lparr>cd_store := s\<rparr>\<rparr>)) (store_change w (cd_store (hs_cached st)))"
| "heap_access copy (HInvalidating w) st = Some (HDone, st\<lparr>hs_lru := map_option (lru_delete (key_lru (change_key w))) (hs_lru st)\<rparr>)"
| "heap_access copy (HInforming w) st =
     map_option (\<lambda>s. (HIndexing w, st\<lparr>hs_cached := (hs_cached st)\<lparr>cd_store := s\<rparr>\<rparr>)) (store_change w (cd_store (hs_cached st)))"
| "heap_access copy (HIndexing w) st = Some (HDone, st\<lparr>hs_cached := (hs_cached st)\<lparr>cd_index := index_change w (cd_index (hs_cached st))\<rparr>\<rparr>)"
| "heap_access copy HCollecting st =
     map_option (\<lambda>s. (HDone, st\<lparr>hs_cached := (hs_cached st)\<lparr>cd_store := s\<rparr>\<rparr>)) (collect (cd_store (hs_cached st)))"
| "heap_access copy (HListing q) st =
     map_option (\<lambda>(items, h). (HListed q items, st\<lparr>hs_heap := h, hs_owned := hs_owned st \<union> new_cells (hs_heap st) h\<rparr>))
       (List_heap q (cd_store (hs_cached st)) (hs_heap st))"
| "heap_access copy (HAnswered key r) st = None"
| "heap_access copy (HListed q items) st = None"
| "heap_access copy HDone st = None"

text \<open>A run: accesses of the calls, and callers that overwrite any cell they can reach with anything, or make new cells.\<close>

inductive heap_step ::
    "(nat \<Rightarrow> heap \<Rightarrow> nat \<times> heap) \<Rightarrow> 't heap_shared \<times> heap_call list \<Rightarrow> 't heap_shared \<times> heap_call list \<Rightarrow> bool" for copy where
  heap_moves: "i < length cs \<Longrightarrow> heap_access copy (cs ! i) st = Some (c, st') \<Longrightarrow> heap_step copy (st, cs) (st', cs[i := c])"
| caller_writes: "a \<in> hs_owned st \<Longrightarrow> heap_step copy (st, cs) (st\<lparr>hs_heap := (hs_heap st)[a := x]\<rparr>, cs)"
| caller_makes: "heap_step copy (st, cs) (st\<lparr>hs_heap := hs_heap st @ [x], hs_owned := insert (length (hs_heap st)) (hs_owned st)\<rparr>, cs)"

text \<open>What the documentation of \<open>DeepCopyInto\<close> says: the same content, and no cell shared with the original.\<close>

definition deep_copies :: "(nat \<Rightarrow> heap \<Rightarrow> nat \<times> heap) \<Rightarrow> bool" where
  "deep_copies copy \<longleftrightarrow>
     (\<forall>h A a u. denotes h A (RMap a) (GMap u) \<longrightarrow>
        heap_grows h (snd (copy a h)) \<and> denotes (snd (copy a h)) (new_cells h (snd (copy a h))) (RMap (fst (copy a h))) (GMap u))"

section \<open>Simulation\<close>

text \<open>The cells that no caller can reach. What lies in them stays.\<close>

definition unowned :: "'t heap_shared \<Rightarrow> nat set" where
  "unowned st = {..<length (hs_heap st)} - hs_owned st"

abbreviation holds_object :: "'t heap_shared \<Rightarrow> nat \<Rightarrow> gobj \<Rightarrow> bool" where
  "holds_object st a u \<equiv> denotes (hs_heap st) (unowned st) (RMap a) (GMap u)"

definition keeps :: "'t heap_shared \<Rightarrow> 't heap_shared \<Rightarrow> bool" where
  "keeps st st' \<longleftrightarrow> (\<forall>a\<in>unowned st. a \<in> unowned st' \<and> hs_heap st' ! a = hs_heap st ! a)"

lemma keeps_object:
  assumes "keeps st st'" "holds_object st a u"
  shows "holds_object st' a u"
  using assms(2) by (rule denotes_frame) (use assms(1) in \<open>auto simp: keeps_def unowned_def\<close>)

lemma keeps_refl [simp]: "keeps st st"
  by (simp add: keeps_def)

lemma keeps_same: "hs_heap st' = hs_heap st \<Longrightarrow> hs_owned st' = hs_owned st \<Longrightarrow> keeps st st' \<and> keeps st' st"
  by (simp add: keeps_def unowned_def)

text \<open>The state of a cache in memory against the state with values.\<close>

definition represents :: "'t heap_shared \<Rightarrow> 't shared \<Rightarrow> bool" where
  "represents st sh \<longleftrightarrow> hs_cached st = sh_cached sh \<and> hs_owned st \<subseteq> {..<length (hs_heap st)} \<and>
     rel_option (lru_rel (holds_object st)) (hs_lru st) (sh_lru sh)"

fun stands_for :: "'t heap_shared \<Rightarrow> heap_call \<Rightarrow> call \<Rightarrow> bool" where
  "stands_for st (HReading key) c = (c = Reading key)"
| "stands_for st (HFetching key) c = (c = Fetching key)"
| "stands_for st (HFilling key a) c = (\<exists>u. c = Filling key u \<and> holds_object st a u)"
| "stands_for st (HCopying key a) c = (\<exists>u. c = Answered key (Some u) \<and> holds_object st a u)"
| "stands_for st (HAnswered key r) c = (\<exists>v. c = Answered key v \<and> (r = None) = (v = None))"
| "stands_for st (HWriting w) c = (c = Writing w)"
| "stands_for st (HInvalidating w) c = (c = Invalidating w)"
| "stands_for st (HInforming w) c = (c = Informing w)"
| "stands_for st (HIndexing w) c = (c = Indexing w)"
| "stands_for st (HListing q) c = (c = Listing q)"
| "stands_for st (HListed q items) c = (\<exists>us. c = Listed q us)"
| "stands_for st HCollecting c = (c = Collecting)"
| "stands_for st HDone c = (c = Done)"

lemma stands_for_keeps:
  assumes "stands_for st hc c" "keeps st st'"
  shows "stands_for st' hc c"
  using assms(1) keeps_object [OF assms(2)] by (cases hc) auto

lemma lru_keeps: "rel_option (lru_rel (holds_object st)) l m \<Longrightarrow> keeps st st' \<Longrightarrow> rel_option (lru_rel (holds_object st')) l m"
  by (erule option.rel_mono_strong) (auto elim: lru_rel_mono intro: keeps_object)

lemma represents_keeps:
  assumes "represents st sh" "keeps st st'" "hs_cached st' = hs_cached st" "hs_lru st' = hs_lru st" "hs_owned st' \<subseteq> {..<length (hs_heap st')}"
  shows "represents st' sh"
  using assms lru_keeps [of st "hs_lru st" "sh_lru sh" st'] by (simp add: represents_def)

text \<open>New cells of the cache, and new cells for a caller.\<close>

lemma keeps_heap_grows:
  assumes "represents st sh" "heap_grows (hs_heap st) h"
  shows "keeps st (st\<lparr>hs_heap := h\<rparr>)" "keeps st (st\<lparr>hs_heap := h, hs_owned := hs_owned st \<union> new_cells (hs_heap st) h\<rparr>)"
    "new_cells (hs_heap st) h \<subseteq> unowned (st\<lparr>hs_heap := h\<rparr>)"
  using assms by (auto simp: keeps_def unowned_def heap_grows_def represents_def)

lemma Get_heap_related:
  "rel_option (\<lambda>(r, h') v. heap_grows h h' \<and> rel_option (\<lambda>a u. denotes h' (new_cells h h') (RMap a) (GMap u)) r v) (Get_heap key s h) (Get key s)"
proof (cases "go_get (ds_objects s) key")
  case (Some root)
  from reconstruct_heap_allocates [of h "node_fuel s" s root]
  have "rel_option (\<lambda>(w, h') t. heap_grows h h' \<and> denotes h' (new_cells h h') w t) (reconstruct_heap (node_fuel s) s root h) (reconstruct (node_fuel s) s root)"
    by (simp add: allocates_def)
  moreover have "rel_option (\<lambda>a u. denotes h' A (RMap a) (GMap u)) (case w of RMap a \<Rightarrow> Some a | _ \<Rightarrow> None) (case t of GMap u \<Rightarrow> Some u | _ \<Rightarrow> None)"
    if "denotes h' A w t" for h' A w t
    using that by (cases w; cases t) (auto elim: denotes.cases)
  ultimately show ?thesis using Some by (auto simp: Get_heap_def Get_def option.rel_map bind_eq_Some_conv elim!: option.rel_cases)
qed (simp add: Get_heap_def Get_def)

lemma List_heap_related:
  "rel_option (\<lambda>(items, h') us. heap_grows h h' \<and> list_all2 (\<lambda>a u. denotes h' (new_cells h h') (RMap a) (GMap u)) items us)
     (List_heap q s h) (List (q_format q) (q_labels q) s (q_gvk q) (q_options q))"
proof -
  let ?lo = "apply_options (q_options q)"
  let ?R = "\<lambda>(items, h') us. heap_grows h h' \<and> list_all2 (\<lambda>a u. denotes h' (new_cells h h') (RMap a) (GMap u)) items us"
  have "rel_option ?R (list_entry_heap (q_format q) (q_labels q) s (q_gvk q) ?lo (key, root) (items, h1))
      (list_entry (q_format q) (q_labels q) s (q_gvk q) ?lo (key, root) us)" if "?R (items, h1) us" for key root items h1 us
  proof -
    from that have R: "heap_grows h h1" "list_all2 (\<lambda>a u. denotes h1 (new_cells h h1) (RMap a) (GMap u)) items us" by simp_all
    have later: "list_all2 (\<lambda>a u. denotes h2 (new_cells h h2) (RMap a) (GMap u)) items us" if "heap_grows h1 h2" for h2
      using R(2) by (rule list_all2_mono) (erule denotes_heap_grows [OF _ that], use that in \<open>auto simp: heap_grows_def\<close>)
    have new: "denotes h2 (new_cells h h2) w t" if "heap_grows h1 h2" "denotes h2 (new_cells h1 h2) w t" for h2 w t
      using that(2) by (rule denotes_heap_grows) (use R(1) in \<open>auto simp: heap_grows_def\<close>)
    from reconstruct_heap_allocates [of h1 "node_fuel s" s root]
    have "rel_option (\<lambda>(w, h2) t. heap_grows h1 h2 \<and> denotes h2 (new_cells h1 h2) w t) (reconstruct_heap (node_fuel s) s root h1) (reconstruct (node_fuel s) s root)"
      by (simp add: allocates_def)
    then show ?thesis
    proof (cases rule: option.rel_cases)
      case (Some x t)
      obtain w h2 where x: "x = (w, h2)" by fastforce
      with Some(3) have 2: "heap_grows h1 h2" "denotes h2 (new_cells h1 h2) w t" by simp_all
      note keep = later [OF 2(1)] new [OF 2] heap_grows_trans [OF R(1) 2(1)]
      show ?thesis
      proof (cases t)
        case (GMap u)
        with 2(2) obtain a where a: "w = RMap a" by (auto simp: denotes_simps)
        with keep(2) GMap have "read_object a h2 = u" by (auto intro: read_object_denotes)
        with Some x a GMap keep R show ?thesis
          by (auto simp: list_entry_heap_def list_entry_def intro: list_all2_appendI)
      qed (use 2(2) Some x keep R in \<open>auto simp: list_entry_heap_def list_entry_def denotes_simps\<close>)
    qed (use R in \<open>auto simp: list_entry_heap_def list_entry_def\<close>)
  qed
  then have "rel_option ?R (foldM (list_entry_heap (q_format q) (q_labels q) s (q_gvk q) ?lo) (ds_objects s) ([], h))
      (foldM (list_entry (q_format q) (q_labels q) s (q_gvk q) ?lo) (ds_objects s) [])"
    by (intro foldM_related) (auto split: prod.split)
  then show ?thesis by (simp add: List_heap_def List_def Let_def)
qed

text \<open>
  One access. It is the access of the call with values, or the deep copy, which the call with values does not have: there the answer is already given.
\<close>

definition answer_denotes :: "'t heap_shared \<Rightarrow> heap_call \<Rightarrow> call \<Rightarrow> bool" where
  "answer_denotes st hc c \<longleftrightarrow>
     (case hc of
        HAnswered key None \<Rightarrow> c = Answered key None
      | HAnswered key (Some a) \<Rightarrow> (\<exists>u. c = Answered key (Some u) \<and> denotes (hs_heap st) (hs_owned st) (RMap a) (GMap u))
      | HListed q items \<Rightarrow> (\<exists>us. c = Listed q us \<and> list_all2 (\<lambda>a u. denotes (hs_heap st) (hs_owned st) (RMap a) (GMap u)) items us)
      | _ \<Rightarrow> True)"

definition simulates :: "'t heap_shared \<Rightarrow> 't shared \<Rightarrow> call \<Rightarrow> heap_call \<Rightarrow> 't heap_shared \<Rightarrow> call \<Rightarrow> 't shared \<Rightarrow> bool" where
  "simulates st sh c hc' st' c' sh' \<longleftrightarrow>
     (call_step c sh = Some (c', sh') \<or> c' = c \<and> sh' = sh) \<and> keeps st st' \<and> represents st' sh' \<and> stands_for st' hc' c' \<and> answer_denotes st' hc' c'"

lemma simulatesI:
  "call_step c sh = Some (c', sh') \<Longrightarrow> keeps st st' \<Longrightarrow> represents st' sh' \<Longrightarrow> stands_for st' hc' c' \<and> answer_denotes st' hc' c' \<Longrightarrow>
   \<exists>c' sh'. simulates st sh c hc' st' c' sh'"
  by (auto simp: simulates_def)

lemma simulates_Reading:
  assumes "represents st sh" "heap_access copy (HReading key) st = Some (hc', st')"
  shows "\<exists>c' sh'. simulates st sh (Reading key) hc' st' c' sh'"
proof (cases "hs_lru st")
  case None
  with assms show ?thesis by (auto simp: simulates_def represents_def answer_denotes_def)
next
  case (Some lru)
  with assms(1) obtain vlru where v: "sh_lru sh = Some vlru" "lru_rel (holds_object st) lru vlru" by (auto simp: represents_def option_rel_Some1)
  obtain hit lru1 vhit vlru1 where g: "lru_get (key_lru key) lru = (hit, lru1)" "lru_get (key_lru key) vlru = (vhit, vlru1)" by fastforce
  from lru_rel_get [OF v(2), of "key_lru key"] g have rel: "rel_option (holds_object st) hit vhit" "lru_rel (holds_object st) lru1 vlru1" by simp_all
  let ?st = "st\<lparr>hs_lru := Some lru1\<rparr>"
  have same: "keeps st ?st" "holds_object ?st = holds_object st" by (simp_all add: keeps_def unowned_def)
  with assms(1) rel(2) have R: "represents ?st (sh\<lparr>sh_lru := Some vlru1\<rparr>)" by (simp add: represents_def)
  have step: "call_step (Reading key) sh = Some (case vhit of Some u \<Rightarrow> Answered key (Some u) | None \<Rightarrow> Fetching key, sh\<lparr>sh_lru := Some vlru1\<rparr>)"
    using v(1) g(2) by simp
  have hc: "hc' = (case hit of Some a \<Rightarrow> HCopying key a | None \<Rightarrow> HFetching key)" "st' = ?st" using assms(2) Some g(1) by auto
  show ?thesis
    unfolding hc
  proof (rule simulatesI [OF step same(1) R])
    from rel(1) same(2) show "stands_for ?st (case hit of Some a \<Rightarrow> HCopying key a | None \<Rightarrow> HFetching key) (case vhit of Some u \<Rightarrow> Answered key (Some u) | None \<Rightarrow> Fetching key) \<and>
      answer_denotes ?st (case hit of Some a \<Rightarrow> HCopying key a | None \<Rightarrow> HFetching key) (case vhit of Some u \<Rightarrow> Answered key (Some u) | None \<Rightarrow> Fetching key)"
      by (cases rule: option.rel_cases) (simp_all add: answer_denotes_def fun_eq_iff)
  qed
qed

lemma simulates_Fetching:
  assumes "represents st sh" "heap_access copy (HFetching key) st = Some (hc', st')"
  shows "\<exists>c' sh'. simulates st sh (Fetching key) hc' st' c' sh'"
proof -
  let ?s = "cd_store (hs_cached st)"
  from assms(1) have same: "hs_cached st = sh_cached sh" "(hs_lru st = None) = (sh_lru sh = None)" by (auto simp: represents_def elim!: option.rel_cases)
  from assms(2) obtain r h where g: "Get_heap key ?s (hs_heap st) = Some (r, h)" "st' = st\<lparr>hs_heap := h\<rparr>"
    by (auto split: option.splits)
  from Get_heap_related [of "hs_heap st" key ?s] g(1) obtain v where
    v: "Get key ?s = Some v" "heap_grows (hs_heap st) h" "rel_option (\<lambda>a u. denotes h (new_cells (hs_heap st) h) (RMap a) (GMap u)) r v"
    by (auto simp: option_rel_Some1)
  note K = keeps_heap_grows [OF assms(1) v(2)]
  have "hs_owned st \<subseteq> {..<length h}" using assms(1) v(2) by (auto simp: represents_def heap_grows_def)
  then have R: "represents st' sh" using represents_keeps [OF assms(1) K(1)] g(2) by simp
  have held: "holds_object st' a u" if "denotes h (new_cells (hs_heap st) h) (RMap a) (GMap u)" for a u
    using denotes_heap_grows [OF that _ K(3)] g(2) by simp
  have step: "call_step (Fetching key) sh =
      Some (case v of None \<Rightarrow> Answered key None | Some u \<Rightarrow> if sh_lru sh = None then Answered key (Some u) else Filling key u, sh)"
    using v(1) same(1) by (simp split: option.split)
  have "stands_for st' hc' (case v of None \<Rightarrow> Answered key None | Some u \<Rightarrow> if sh_lru sh = None then Answered key (Some u) else Filling key u) \<and>
    answer_denotes st' hc' (case v of None \<Rightarrow> Answered key None | Some u \<Rightarrow> if sh_lru sh = None then Answered key (Some u) else Filling key u)"
    using v(3) by (cases rule: option.rel_cases) (use assms(2) g same(2) held in \<open>auto simp: answer_denotes_def split: if_splits\<close>)
  with K(1) g(2) R show ?thesis by (intro simulatesI [OF step]) simp_all
qed

lemma simulates_Filling:
  assumes "represents st sh" "holds_object st a u" "heap_access copy (HFilling key a) st = Some (hc', st')"
  shows "\<exists>c' sh'. simulates st sh (Filling key u) hc' st' c' sh'"
proof -
  have st': "hc' = HCopying key a" "st' = st\<lparr>hs_lru := map_option (lru_put (key_lru key) a) (hs_lru st)\<rparr>" using assms(3) by auto
  then have same: "keeps st st'" "holds_object st' = holds_object st" by (simp_all add: keeps_def unowned_def)
  let ?sh = "sh\<lparr>sh_lru := map_option (lru_put (key_lru key) u) (sh_lru sh)\<rparr>"
  from assms(1,2) st'(2) same(2) have "represents st' ?sh"
    by (auto simp: represents_def option.rel_map elim!: option.rel_mono_strong intro!: lru_rel_put)
  moreover have "holds_object st' a u" using assms(1,2) keeps_object [OF same(1)] by blast
  ultimately show ?thesis using same(1) st'(1) by (intro simulatesI) (auto simp: answer_denotes_def)
qed

text \<open>New cells that a caller is given.\<close>

lemma represents_given:
  assumes "represents st sh" "heap_grows (hs_heap st) h"
  defines "st' \<equiv> st\<lparr>hs_heap := h, hs_owned := hs_owned st \<union> new_cells (hs_heap st) h\<rparr>"
  shows "keeps st st'" "represents st' sh"
proof -
  show keep: "keeps st st'" using keeps_heap_grows(2) [OF assms(1,2)] by (simp add: st'_def)
  have "hs_owned st' \<subseteq> {..<length (hs_heap st')}" using assms(1,2) by (auto simp: represents_def heap_grows_def st'_def)
  then show "represents st' sh" using represents_keeps [OF assms(1) keep] by (simp add: st'_def)
qed

lemma simulates_Copying:
  assumes "deep_copies copy" "represents st sh" "holds_object st a u" "heap_access copy (HCopying key a) st = Some (hc', st')"
  shows "simulates st sh (Answered key (Some u)) hc' st' (Answered key (Some u)) sh"
proof -
  obtain b h where c: "copy a (hs_heap st) = (b, h)" by fastforce
  from assms(1,3) c have C: "heap_grows (hs_heap st) h" "denotes h (new_cells (hs_heap st) h) (RMap b) (GMap u)"
    unfolding deep_copies_def by (metis fst_conv snd_conv)+
  have st': "hc' = HAnswered key (Some b)" "st' = st\<lparr>hs_heap := h, hs_owned := hs_owned st \<union> new_cells (hs_heap st) h\<rparr>" using assms(4) c by auto
  note K = represents_given [OF assms(2) C(1), folded st'(2)]
  have "denotes (hs_heap st') (hs_owned st') (RMap b) (GMap u)" using denotes_heap_grows [OF C(2)] st'(2) by simp
  with K st'(1) show ?thesis by (simp add: simulates_def answer_denotes_def)
qed

lemma simulates_Listing:
  assumes "represents st sh" "heap_access copy (HListing q) st = Some (hc', st')"
  shows "\<exists>c' sh'. simulates st sh (Listing q) hc' st' c' sh'"
proof -
  have same: "hs_cached st = sh_cached sh" using assms(1) by (simp add: represents_def)
  from assms(2) obtain items h where g: "List_heap q (cd_store (hs_cached st)) (hs_heap st) = Some (items, h)" "hc' = HListed q items"
    "st' = st\<lparr>hs_heap := h, hs_owned := hs_owned st \<union> new_cells (hs_heap st) h\<rparr>" by auto
  from List_heap_related [of "hs_heap st" q "cd_store (hs_cached st)"] g(1) obtain us where us: "list_of q sh = Some us" "heap_grows (hs_heap st) h"
    "list_all2 (\<lambda>a u. denotes h (new_cells (hs_heap st) h) (RMap a) (GMap u)) items us"
    by (auto simp: option_rel_Some1 list_of_def same)
  have step: "call_step (Listing q) sh = Some (Listed q us, sh)" using us(1) by simp
  have "list_all2 (\<lambda>a u. denotes (hs_heap st') (hs_owned st') (RMap a) (GMap u)) items us"
    using us(3) by (rule list_all2_mono) (erule denotes_heap_grows, simp_all add: g(3))
  with represents_given [OF assms(1) us(2)] g(2,3) show ?thesis
    by (intro simulatesI [OF step]) (simp_all add: answer_denotes_def)
qed

text \<open>The accesses of writes touch no object that is in memory.\<close>

lemma simulates_store:
  assumes "represents st sh" "call_step c sh = Some (c', sh\<lparr>sh_cached := d\<rparr>)" "st' = st\<lparr>hs_cached := d\<rparr>" "stands_for st' hc' c'" "answer_denotes st' hc' c'"
  shows "\<exists>c' sh'. simulates st sh c hc' st' c' sh'"
proof (rule simulatesI [OF assms(2)])
  from assms(3) have "keeps st st'" "holds_object st' = holds_object st" by (simp_all add: keeps_def unowned_def)
  with assms(1,3) show "keeps st st'" "represents st' (sh\<lparr>sh_cached := d\<rparr>)" by (simp_all add: represents_def)
qed (use assms(4,5) in simp)

lemma simulates_Invalidating:
  assumes "represents st sh" "heap_access copy (HInvalidating w) st = Some (hc', st')"
  shows "\<exists>c' sh'. simulates st sh (Invalidating w) hc' st' c' sh'"
proof -
  have st': "hc' = HDone" "st' = st\<lparr>hs_lru := map_option (lru_delete (key_lru (change_key w))) (hs_lru st)\<rparr>" using assms(2) by auto
  then have same: "keeps st st'" "holds_object st' = holds_object st" by (simp_all add: keeps_def unowned_def)
  with assms(1) st'(2) have "represents st' (sh\<lparr>sh_lru := map_option (lru_delete (key_lru (change_key w))) (sh_lru sh)\<rparr>)"
    by (auto simp: represents_def option.rel_map elim!: option.rel_mono_strong intro: lru_rel_delete)
  with same(1) st'(1) show ?thesis by (intro simulatesI) (auto simp: answer_denotes_def)
qed

text \<open>The accesses that change the store or the indexer, and no object that a caller may have.\<close>

fun changes_cached :: "heap_call \<Rightarrow> bool" where
  "changes_cached (HWriting w) = True"
| "changes_cached (HInforming w) = True"
| "changes_cached (HIndexing w) = True"
| "changes_cached HCollecting = True"
| "changes_cached hc = False"

lemma simulates_changes:
  assumes "represents st sh" "stands_for st hc c" "heap_access copy hc st = Some (hc', st')" "changes_cached hc"
  shows "\<exists>c' sh'. simulates st sh c hc' st' c' sh'"
proof -
  have same: "hs_cached st = sh_cached sh" using assms(1) by (simp add: represents_def)
  note store = simulates_store [OF assms(1)]
  show ?thesis
  proof (cases hc)
    case (HWriting w)
    with assms(2,3) same obtain s where "store_change w (cd_store (sh_cached sh)) = Some s" "hc' = HInvalidating w"
      "st' = st\<lparr>hs_cached := (sh_cached sh)\<lparr>cd_store := s\<rparr>\<rparr>" by auto
    with assms(2) HWriting show ?thesis by (intro store [of _ "Invalidating w"]) (simp_all add: answer_denotes_def)
  next
    case (HInforming w)
    with assms(2,3) same obtain s where "store_change w (cd_store (sh_cached sh)) = Some s" "hc' = HIndexing w"
      "st' = st\<lparr>hs_cached := (sh_cached sh)\<lparr>cd_store := s\<rparr>\<rparr>" by auto
    with assms(2) HInforming show ?thesis by (intro store [of _ "Indexing w"]) (simp_all add: answer_denotes_def)
  next
    case (HIndexing w)
    with assms(2,3) same show ?thesis
      by (intro store [of _ Done "(sh_cached sh)\<lparr>cd_index := index_change w (cd_index (sh_cached sh))\<rparr>"]) (auto simp: answer_denotes_def)
  next
    case HCollecting
    with assms(2,3) same obtain s where "collect (cd_store (sh_cached sh)) = Some s" "hc' = HDone"
      "st' = st\<lparr>hs_cached := (sh_cached sh)\<lparr>cd_store := s\<rparr>\<rparr>" by auto
    with assms(2) HCollecting show ?thesis by (intro store [of _ Done]) (simp_all add: answer_denotes_def)
  qed (use assms(4) in auto)
qed

lemma access_simulates:
  assumes "deep_copies copy" "represents st sh" "stands_for st hc c" "heap_access copy hc st = Some (hc', st')"
  shows "\<exists>c' sh'. simulates st sh c hc' st' c' sh'"
proof (cases "changes_cached hc")
  case True
  with assms show ?thesis by (intro simulates_changes)
next
  case False
  show ?thesis
  proof (cases hc)
    case (HReading key)
    with assms simulates_Reading show ?thesis by auto
  next
    case (HFetching key)
    with assms simulates_Fetching [OF assms(2), of copy key hc' st'] show ?thesis by simp
  next
    case (HFilling key a)
    with assms simulates_Filling [OF assms(2), of a _ copy key hc' st'] show ?thesis by fastforce
  next
    case (HCopying key a)
    with assms simulates_Copying [OF assms(1,2), of a _ key hc' st'] show ?thesis by fastforce
  next
    case (HInvalidating w)
    with assms simulates_Invalidating [OF assms(2), of copy w hc' st'] show ?thesis by simp
  next
    case (HListing q)
    with assms simulates_Listing [OF assms(2), of copy q hc' st'] show ?thesis by simp
  qed (use assms(4) False in auto)
qed

section \<open>Runs\<close>

definition represents_all :: "'t heap_shared \<times> heap_call list \<Rightarrow> 't shared \<times> call list \<Rightarrow> bool" where
  "represents_all = (\<lambda>(st, hcs) (sh, cs). represents st sh \<and> list_all2 (stands_for st) hcs cs)"

lemma represents_all_keeps:
  assumes "represents_all (st, hcs) (sh, cs)" "keeps st st'" "represents st' sh'" "stands_for st' hc' c'"
  shows "represents_all (st', hcs[i := hc']) (sh', cs[i := c'])"
proof -
  from assms(1) have "list_all2 (stands_for st) hcs cs" by (simp add: represents_all_def)
  then have "list_all2 (stands_for st') hcs cs" by (rule list_all2_mono) (rule stands_for_keeps [OF _ assms(2)])
  with assms(3,4) show ?thesis by (simp add: represents_all_def list_all2_update_cong)
qed

text \<open>An access of the run, with the run of the calls with values so far.\<close>

lemma access_race:
  assumes "deep_copies copy" "race sched p = Some (sh, cs)" "represents_all (st, hcs) (sh, cs)" "i < length hcs"
    and "heap_access copy (hcs ! i) st = Some (hc', st')"
  shows "\<exists>sched' c' sh'. race sched' p = Some (sh', cs[i := c']) \<and> i < length cs \<and> represents_all (st', hcs[i := hc']) (sh', cs[i := c']) \<and> answer_denotes st' hc' c'"
proof -
  from assms(3) have R: "represents st sh" and L: "list_all2 (stands_for st) hcs cs" by (simp_all add: represents_all_def)
  from list_all2_lengthD [OF L] assms(4) have i: "i < length cs" by simp
  from list_all2_nthD [OF L assms(4)] have "stands_for st (hcs ! i) (cs ! i)" .
  from access_simulates [OF assms(1) R this assms(5)] obtain c' sh' where S: "simulates st sh (cs ! i) hc' st' c' sh'" by blast
  then have all: "represents_all (st', hcs[i := hc']) (sh', cs[i := c'])" "answer_denotes st' hc' c'"
    using represents_all_keeps [OF assms(3)] by (auto simp: simulates_def)
  from S consider "call_step (cs ! i) sh = Some (c', sh')" | "c' = cs ! i" "sh' = sh" by (auto simp: simulates_def)
  then show ?thesis
  proof cases
    case 1
    with assms(2) i have "race (sched @ [i]) p = Some (sh', cs[i := c'])" by (auto simp: race_snoc)
    with all i show ?thesis by blast
  next
    case 2
    with assms(2) have "race sched p = Some (sh', cs[i := c'])" by simp
    with all i show ?thesis by blast
  qed
qed

lemma step_race:
  assumes "heap_step copy (st, hcs) (st', hcs')" "deep_copies copy" "race sched p = Some (sh, cs)" "represents_all (st, hcs) (sh, cs)"
  shows "\<exists>sched' sh' cs'. race sched' p = Some (sh', cs') \<and> represents_all (st', hcs') (sh', cs')"
  using assms(1)
proof cases
  case (heap_moves i c)
  from access_race [OF assms(2-4) heap_moves(2,3)] heap_moves(1) show ?thesis by blast
next
  case (caller_writes a x)
  from assms(4) have R: "represents st sh" by (simp add: represents_all_def)
  have keep: "keeps st st'" using caller_writes by (auto simp: keeps_def unowned_def intro!: nth_list_update_neq)
  moreover have "hs_owned st' \<subseteq> {..<length (hs_heap st')}" using R caller_writes by (simp add: represents_def)
  ultimately have "represents st' sh" using represents_keeps [OF R] caller_writes by simp
  with keep assms(3,4) caller_writes show ?thesis by (fastforce simp: represents_all_def elim!: list_all2_mono intro: stands_for_keeps)
next
  case (caller_makes x)
  from assms(4) have R: "represents st sh" by (simp add: represents_all_def)
  have keep: "keeps st st'" using caller_makes by (auto simp: keeps_def unowned_def nth_append)
  moreover have "hs_owned st' \<subseteq> {..<length (hs_heap st')}" using R caller_makes by (auto simp: represents_def)
  ultimately have "represents st' sh" using represents_keeps [OF R] caller_makes by simp
  with keep assms(3,4) caller_makes show ?thesis by (fastforce simp: represents_all_def elim!: list_all2_mono intro: stands_for_keeps)
qed

lemma run_race:
  assumes "(heap_step copy)\<^sup>*\<^sup>* p q" "deep_copies copy" "represents_all p (sh0, cs0)"
  shows "\<exists>sched sh cs. race sched (sh0, cs0) = Some (sh, cs) \<and> represents_all q (sh, cs)"
  using assms(1)
proof (induction rule: rtranclp_induct)
  case base
  with assms(3) show ?case by (intro exI [of _ "[]"]) simp
next
  case (step q r)
  then obtain sched sh cs where "race sched (sh0, cs0) = Some (sh, cs)" "represents_all q (sh, cs)" by blast
  with step_race [OF _ assms(2), of "fst q" "snd q" "fst r" "snd r"] step.hyps(2) show ?case by simp
qed

end
