(* ===== verification/Heap_Samples.thy ===== *)
theory Heap_Samples
  imports Heap_Races Cache_Samples
begin

text \<open>
  A copy that meets the documentation of \<open>DeepCopyInto\<close>, so that the hypothesis \<open>deep_copies\<close> can hold: it copies the cells below a reference one by one. The fuel is the number of cells: a tree never passes through a cell
  twice on one path.
\<close>

primrec thread_list :: "('a \<Rightarrow> 's \<Rightarrow> 'b \<times> 's) \<Rightarrow> 'a list \<Rightarrow> 's \<Rightarrow> 'b list \<times> 's" where
  "thread_list f [] s = ([], s)"
| "thread_list f (x # xs) s = (let (y, s1) = f x s; (ys, s2) = thread_list f xs s1 in (y # ys, s2))"

primrec copy_value :: "nat \<Rightarrow> rval \<Rightarrow> heap \<Rightarrow> rval \<times> heap" where
  "copy_value 0 w h = (w, h)"
| "copy_value (Suc n) w h =
     (case w of
        RScalar v \<Rightarrow> (w, h)
      | RMap a \<Rightarrow>
          (case h ! a of
             MapCell m \<Rightarrow> (let (ws, h1) = thread_list (copy_value n) (map snd m) h in (RMap (length h1), h1 @ [MapCell (zip (map fst m) ws)]))
           | SliceCell ws \<Rightarrow> (w, h))
      | RSlice a \<Rightarrow>
          (case h ! a of
             SliceCell ws \<Rightarrow> (let (ws1, h1) = thread_list (copy_value n) ws h in (RSlice (length h1), h1 @ [SliceCell ws1]))
           | MapCell m \<Rightarrow> (w, h)))"

definition copy_object :: "nat \<Rightarrow> heap \<Rightarrow> nat \<times> heap" where
  "copy_object a h = (case copy_value (Suc (length h)) (RMap a) h of (RMap b, h1) \<Rightarrow> (b, h1) | (_, h1) \<Rightarrow> (a, h1))"

section \<open>The copy\<close>

definition copied :: "heap \<Rightarrow> rval \<times> heap \<Rightarrow> gval \<Rightarrow> bool" where
  "copied h r t \<longleftrightarrow> heap_grows h (snd r) \<and> denotes (snd r) (new_cells h (snd r)) (fst r) t"

lemma thread_copies:
  assumes "list_all2 (denotes h A) ws ts" "\<And>w t h1. denotes h A w t \<Longrightarrow> heap_grows h h1 \<Longrightarrow> copied h1 (f w h1) t" "heap_grows h h1"
  shows "heap_grows h1 (snd (thread_list f ws h1)) \<and> list_all2 (denotes (snd (thread_list f ws h1)) (new_cells h1 (snd (thread_list f ws h1)))) (fst (thread_list f ws h1)) ts"
  using assms(1,3)
proof (induction arbitrary: h1 rule: list_all2_induct)
  case (Cons w ws t ts)
  obtain v h2 where v: "f w h1 = (v, h2)" by fastforce
  with assms(2) [OF Cons.hyps(1) Cons.prems] have C: "heap_grows h1 h2" "denotes h2 (new_cells h1 h2) v t" by (simp_all add: copied_def)
  obtain vs h3 where vs: "thread_list f ws h2 = (vs, h3)" by fastforce
  from Cons.IH [OF heap_grows_trans [OF Cons.prems C(1)]] vs have D: "heap_grows h2 h3" "list_all2 (denotes h3 (new_cells h2 h3)) vs ts" by simp_all
  have "denotes h3 (new_cells h1 h3) v t" using denotes_heap_grows [OF C(2) D(1)] D(1) by (auto simp: heap_grows_def)
  moreover have "list_all2 (denotes h3 (new_cells h1 h3)) vs ts"
    using D(2) by (rule list_all2_mono) (erule denotes_heap_grows, use C(1) in \<open>auto simp: heap_grows_def\<close>)
  ultimately show ?case using v vs heap_grows_trans [OF C(1) D(1)] by simp
qed simp

lemma copied_map:
  assumes "heap_grows h h1" "map fst m = map fst kvs" "list_all2 (denotes h1 (new_cells h h1)) ws (map snd kvs)"
  shows "copied h (RMap (length h1), h1 @ [MapCell (zip (map fst m) ws)]) (GMap kvs)"
proof -
  let ?h2 = "h1 @ [MapCell (zip (map fst m) ws)]"
  have "list_all2 (denotes ?h2 (new_cells h ?h2)) ws (map snd kvs)"
    using assms(3) by (rule list_all2_mono) (erule denotes_heap_grows, auto)
  moreover from assms(2) have "length m = length kvs" by (metis length_map)
  moreover have "length ws = length kvs" using list_all2_lengthD [OF assms(3)] by simp
  ultimately have "list_all2 (\<lambda>x y. fst x = fst y \<and> denotes ?h2 (new_cells h ?h2) (snd x) (snd y)) (zip (map fst m) ws) kvs"
    unfolding list_all2_entries using assms(2) by simp
  then have "denotes ?h2 (new_cells h ?h2) (RMap (length h1)) (GMap kvs)"
    using assms(1) by (intro denotes_map [where m = "zip (map fst m) ws"]) (simp_all add: heap_grows_def)
  with assms(1) show ?thesis by (simp add: copied_def heap_grows_def nth_append)
qed

lemma copied_slice:
  assumes "heap_grows h h1" "list_all2 (denotes h1 (new_cells h h1)) ws ts"
  shows "copied h (RSlice (length h1), h1 @ [SliceCell ws]) (GSlice ts)"
proof -
  let ?h2 = "h1 @ [SliceCell ws]"
  have "list_all2 (denotes ?h2 (new_cells h ?h2)) ws ts"
    using assms(2) by (rule list_all2_mono) (erule denotes_heap_grows, auto)
  then have "denotes ?h2 (new_cells h ?h2) (RSlice (length h1)) (GSlice ts)"
    using assms(1) by (intro denotes_slice [where ws = ws]) (simp_all add: heap_grows_def)
  with assms(1) show ?thesis by (simp add: copied_def heap_grows_def nth_append)
qed

lemma copy_value_copies:
  "denotes h A w t \<Longrightarrow> finite A \<Longrightarrow> card A < n \<Longrightarrow> copied h (copy_value n w h) t"
proof (induction n arbitrary: h A w t)
  case (Suc n)
  have IH: "copied h1 (copy_value n v h1) s" if "denotes h (A - {a}) v s" "heap_grows h h1" "a \<in> A" for v s h1 a
  proof (rule Suc.IH)
    show "denotes h1 (A - {a}) v s" using that(1,2) by (rule denotes_heap_grows) simp
    show "card (A - {a}) < n" using that(3) Suc.prems(2,3) card_Diff1_less [of A a] by linarith
  qed (use Suc.prems(2) in simp)
  show ?case
    using Suc.prems(1)
  proof cases
    case (denotes_scalar v)
    then show ?thesis by (simp add: copied_def denotes.denotes_scalar)
  next
    case (denotes_map a m' kvs)
    with Suc.prems(1) denotes_children(1) obtain m where m: "a \<in> A" "h ! a = MapCell m" "map fst m = map fst kvs"
      "list_all2 (denotes h (A - {a})) (map snd m) (map snd kvs)" by blast
    have "copied h1 (copy_value n v h1) u" if "denotes h (A - {a}) v u" "heap_grows h h1" for v u h1 using IH [OF that m(1)] .
    note T = thread_copies [OF m(4) this heap_grows_refl]
    show ?thesis using copied_map [OF _ m(3), of h "snd (thread_list (copy_value n) (map snd m) h)" "fst (thread_list (copy_value n) (map snd m) h)"] T denotes_map(1,2) m(2)
      by (simp add: split_beta Let_def)
  next
    case (denotes_slice a ws' ts)
    with Suc.prems(1) denotes_children(2) obtain ws where ws: "a \<in> A" "h ! a = SliceCell ws" "list_all2 (denotes h (A - {a})) ws ts" by blast
    have "copied h1 (copy_value n v h1) u" if "denotes h (A - {a}) v u" "heap_grows h h1" for v u h1 using IH [OF that ws(1)] .
    note T = thread_copies [OF ws(3) this heap_grows_refl]
    show ?thesis using copied_slice [of h "snd (thread_list (copy_value n) ws h)" "fst (thread_list (copy_value n) ws h)" ts] T denotes_slice(1,2) ws(2)
      by (simp add: split_beta Let_def)
  qed
qed simp

lemma copy_object_deep: "deep_copies copy_object"
  unfolding deep_copies_def
proof (intro allI impI)
  fix h A a u assume d: "denotes h A (RMap a) (GMap u)"
  have "denotes h {..<length h} (RMap a) (GMap u)" using d by (rule denotes_frame) auto
  then have C: "copied h (copy_value (Suc (length h)) (RMap a) h) (GMap u)" by (rule copy_value_copies) simp_all
  then obtain b where "fst (copy_value (Suc (length h)) (RMap a) h) = RMap b" by (auto simp: copied_def denotes_simps)
  moreover define h1 where "h1 = snd (copy_value (Suc (length h)) (RMap a) h)"
  ultimately have eq: "copy_value (Suc (length h)) (RMap a) h = (RMap b, h1)" by (simp add: prod_eq_iff del: copy_value.simps)
  then have "copy_object a h = (b, h1)" by (simp add: copy_object_def del: copy_value.simps)
  with C eq show "heap_grows h (snd (copy_object a h)) \<and>
      denotes (snd (copy_object a h)) (new_cells h (snd (copy_object a h))) (RMap (fst (copy_object a h))) (GMap u)"
    by (simp add: copied_def)
qed

section \<open>A caller that spoils the object it was given\<close>

text \<open>A first Get misses, fills the LRU and returns; its caller empties the object; a second Get finds the LRU's object and is about to copy it.\<close>

lemma spoiling_run:
  assumes "hs_lru start = Some lru" "lru_inv lru" "lru_view lru (key_lru key) = None" "hs_owned start = {}"
    and "Get_heap key (cd_store (hs_cached start)) (hs_heap start) = Some (Some a, h1)"
    and "copy a h1 = (b, h2)" "b \<in> new_cells h1 h2"
  shows "\<exists>st. (heap_step copy)\<^sup>*\<^sup>* (start, [HReading key, HReading key]) (st, [HAnswered key (Some b), HCopying key a]) \<and>
    hs_heap st = h2[b := MapCell []]"
proof -
  obtain hit lru1 where g: "lru_get (key_lru key) lru = (hit, lru1)" by fastforce
  with lru.get_law [OF assms(2), of "key_lru key"] assms(3) have hit: "hit = None" "lru_inv lru1" by simp_all
  let ?lru2 = "lru_put (key_lru key) a lru1"
  from lru.put_law [OF hit(2)] have put: "lru_inv ?lru2" "lru_view ?lru2 (key_lru key) = Some a" by blast+
  obtain hit3 lru3 where g3: "lru_get (key_lru key) ?lru2 = (hit3, lru3)" by fastforce
  with lru.get_law [OF put(1), of "key_lru key"] put(2) have hit3: "hit3 = Some a" by simp
  let ?st1 = "start\<lparr>hs_lru := Some lru1\<rparr>"
  let ?st2 = "?st1\<lparr>hs_heap := h1\<rparr>"
  let ?st3 = "?st2\<lparr>hs_lru := Some ?lru2\<rparr>"
  let ?st4 = "?st3\<lparr>hs_heap := h2, hs_owned := new_cells h1 h2\<rparr>"
  let ?st5 = "?st4\<lparr>hs_heap := h2[b := MapCell []]\<rparr>"
  let ?st6 = "?st5\<lparr>hs_lru := Some lru3\<rparr>"
  have "heap_step copy (start, [HReading key, HReading key]) (?st1, [HFetching key, HReading key])"
    using heap_moves [of 0 "[HReading key, HReading key]" copy start "HFetching key" ?st1] by (simp add: assms(1) g hit(1))
  moreover have "heap_step copy (?st1, [HFetching key, HReading key]) (?st2, [HFilling key a, HReading key])"
    using heap_moves [of 0 "[HFetching key, HReading key]" copy ?st1 "HFilling key a" ?st2] by (simp add: assms(5))
  moreover have "heap_step copy (?st2, [HFilling key a, HReading key]) (?st3, [HCopying key a, HReading key])"
    using heap_moves [of 0 "[HFilling key a, HReading key]" copy ?st2 "HCopying key a" ?st3] by simp
  moreover have "heap_step copy (?st3, [HCopying key a, HReading key]) (?st4, [HAnswered key (Some b), HReading key])"
    using heap_moves [of 0 "[HCopying key a, HReading key]" copy ?st3 "HAnswered key (Some b)" ?st4] by (simp add: assms(4,6))
  moreover have "heap_step copy (?st4, [HAnswered key (Some b), HReading key]) (?st5, [HAnswered key (Some b), HReading key])"
    using caller_writes [of b ?st4 copy _ "MapCell []"] assms(7) by simp
  moreover have "heap_step copy (?st5, [HAnswered key (Some b), HReading key]) (?st6, [HAnswered key (Some b), HCopying key a])"
    using heap_moves [of 1 "[HAnswered key (Some b), HReading key]" copy ?st5 "HCopying key a" ?st6] by (simp add: g3 hit3)
  ultimately have "(heap_step copy)\<^sup>*\<^sup>* (start, [HReading key, HReading key]) (?st6, [HAnswered key (Some b), HCopying key a])"
    by (meson converse_rtranclp_into_rtranclp rtranclp.rtrancl_refl)
  then show ?thesis by (intro exI [of _ ?st6]) simp
qed

end
