(* ===== verification/Heap_Properties.thy ===== *)
theory Heap_Properties
  imports Heap_Samples Race_Properties
begin

text \<open>
  The property of reads in memory.
\<close>

section \<open>Reads in memory\<close>

text \<open>
  C14 (refinement): a read gives its caller objects of his own. However Gets, Lists, writes and collections interleave, and whatever callers write into the objects they were given, each answer is one of a run of the same calls on values. A Get answers
  not found or a reference to an object in cells that the callers own, whose content is what the store held under the key at some moment; a List answers references to such objects, which are what List says of the store of one moment.
\<close>

theorem reads_isolated:
  assumes "deep_copies copy" "cache_inv c" "list_all starting cs0" "list_all call_ok cs0" "represents_all (st0, hcs0) (shared_of c, cs0)"
    and "(heap_step copy)\<^sup>*\<^sup>* (st0, hcs0) (st, hcs)" "i < length hcs" "heap_access copy (hcs ! i) st = Some (answer, st')"
  shows "\<exists>sched sh cs. race sched (shared_of c, cs0) = Some (sh, cs) \<and> sh_cached sh = hs_cached st' \<and>
    (\<forall>key r. answer = HAnswered key r \<longrightarrow>
      (\<exists>v. cs ! i = Answered key v \<and> rel_option (\<lambda>a u. denotes (hs_heap st') (hs_owned st') (RMap a) (GMap u)) r v \<and>
        (\<exists>n sh1 cs1. race (take n sched) (shared_of c, cs0) = Some (sh1, cs1) \<and> race_view sh1 key = map_option (\<lambda>u. sem (GMap u)) v))) \<and>
    (\<forall>q items. answer = HListed q items \<longrightarrow>
      (\<exists>us. cs ! i = Listed q us \<and> list_all2 (\<lambda>a u. denotes (hs_heap st') (hs_owned st') (RMap a) (GMap u)) items us \<and>
        (\<exists>n sh1 cs1. race (take n sched) (shared_of c, cs0) = Some (sh1, cs1) \<and> list_of q sh1 = Some us)))"
proof -
  from run_race [OF assms(6,1,5)] obtain sched1 sh1 cs1 where
    "race sched1 (shared_of c, cs0) = Some (sh1, cs1)" "represents_all (st, hcs) (sh1, cs1)" by blast
  from access_race [OF assms(1) this assms(7,8)] obtain sched sh c' where
    R: "race sched (shared_of c, cs0) = Some (sh, cs1[i := c'])" "i < length cs1" "represents_all (st', hcs[i := answer]) (sh, cs1[i := c'])"
      "answer_denotes st' answer c'" by blast
  have at: "cs1[i := c'] ! i = c'" "c' \<in> set (cs1[i := c'])" using R(2) by (simp_all add: set_update_memI)
  note S = started_reads [OF assms(2-4) R(1), unfolded reads_stored_def prod.case]
  then have stored: "c' = Answered key v \<Longrightarrow> sometime sched (shared_of c, cs0) (\<lambda>sh. race_view sh key = map_option (\<lambda>u. sem (GMap u)) v)" for key v
    using at(2) by blast
  have "\<exists>v. c' = Answered key v \<and> rel_option (\<lambda>a u. denotes (hs_heap st') (hs_owned st') (RMap a) (GMap u)) r v \<and>
      sometime sched (shared_of c, cs0) (\<lambda>sh. race_view sh key = map_option (\<lambda>u. sem (GMap u)) v)" if "answer = HAnswered key r" for key r
  proof -
    from R(4) that obtain v where "c' = Answered key v" "rel_option (\<lambda>a u. denotes (hs_heap st') (hs_owned st') (RMap a) (GMap u)) r v"
      by (cases r) (auto simp: answer_denotes_def)
    with stored show ?thesis by blast
  qed
  moreover have "\<exists>us. c' = Listed q us \<and> list_all2 (\<lambda>a u. denotes (hs_heap st') (hs_owned st') (RMap a) (GMap u)) items us \<and>
      sometime sched (shared_of c, cs0) (\<lambda>sh. list_of q sh = Some us)" if "answer = HListed q items" for q items
    using R(4) that S at(2) by (auto simp: answer_denotes_def)
  moreover have "sh_cached sh = hs_cached st'" using R(3) by (simp add: represents_all_def represents_def)
  ultimately show ?thesis using R(1) at(1) unfolding sometime_def by metis
qed

theorem reads_isolated_witness:
  "\<exists>(st :: unit heap_shared) a b (h :: unit cache). hs_heap st ! b = MapCell [] \<and>
     (\<exists>st0. (heap_step copy_object)\<^sup>*\<^sup>* (st0, [HReading (pod_key ''a''), HReading (pod_key ''a'')]) (st, [HAnswered (pod_key ''a'') (Some b), HCopying (pod_key ''a'') a])) \<and>
     (\<exists>st' b' u. heap_access copy_object (HCopying (pod_key ''a'') a) st = Some (HAnswered (pod_key ''a'') (Some b'), st') \<and>
        denotes (hs_heap st') (hs_owned st') (RMap b') (GMap u) \<and>
        (\<exists>sched sh cs. race sched (shared_of h, [Reading (pod_key ''a''), Reading (pod_key ''a'')]) = Some (sh, cs) \<and> race_view sh (pod_key ''a'') = Some (sem (GMap u))))"
proof -
  let ?k = "pod_key ''a''"
  from holds_upsert [OF mirrors_empty pod_ok(1), of ?k "''n1''"] obtain d :: "unit cached" where
    d: "mirrors d [?k \<mapsto> pod ''n1'']" by (auto simp: returns_iff)
  let ?c = "(NewCache [] 8)\<lparr>ca_cached := d\<rparr> :: unit cache"
  let ?st0 = "\<lparr>hs_cached = d, hs_lru = Some (newLRUCache 8), hs_heap = [], hs_owned = {}\<rparr>"
  have lru: "lru_inv (newLRUCache 8)" "lru_view (newLRUCache 8) (key_lru ?k) = None" by (simp_all add: lru_inv_new lru_view_new)
  have c: "cache_inv ?c" using d by (simp add: cache_inv_def NewCache_def option_coherent_def lru_coherent_new holds_def)
  have start: "represents_all (?st0, [HReading ?k, HReading ?k]) (shared_of ?c, [Reading ?k, Reading ?k])"
    by (simp add: represents_all_def represents_def shared_of_def NewCache_def lru_rel_new)
  from holds_get [OF d, of ?k] obtain u where u: "Get ?k (cd_store d) = Some (Some u)" by (auto simp: returns_iff simp del: sem.simps)
  with Get_heap_related [of "[]" ?k "cd_store d"] obtain a h1 where
    a: "Get_heap ?k (cd_store d) [] = Some (Some a, h1)" "denotes h1 (new_cells [] h1) (RMap a) (GMap u)"
    by (auto simp: option_rel_Some2)
  obtain b h2 where b: "copy_object a h1 = (b, h2)" by fastforce
  with copy_object_deep a(2) have "denotes h2 (new_cells h1 h2) (RMap b) (GMap u)" unfolding deep_copies_def by (metis fst_conv snd_conv)
  then have fresh: "b \<in> new_cells h1 h2" by (auto simp: denotes_simps)
  from spoiling_run [where start = ?st0 and copy = copy_object and key = ?k, OF _ lru _ _ b fresh] a(1) obtain st where
    st: "(heap_step copy_object)\<^sup>*\<^sup>* (?st0, [HReading ?k, HReading ?k]) (st, [HAnswered ?k (Some b), HCopying ?k a])" "hs_heap st = h2[b := MapCell []]" by auto
  obtain b' h3 where last: "heap_access copy_object (HCopying ?k a) st = Some (HAnswered ?k (Some b'), st\<lparr>hs_heap := h3, hs_owned := hs_owned st \<union> new_cells (hs_heap st) h3\<rparr>)"
    by (cases "copy_object a (hs_heap st)") simp
  from reads_isolated [OF copy_object_deep c _ _ start st(1), of 1] last obtain sched sh1 cs1 u' n where
    "denotes h3 (hs_owned st \<union> new_cells (hs_heap st) h3) (RMap b') (GMap u')"
    "race (take n sched) (shared_of ?c, [Reading ?k, Reading ?k]) = Some (sh1, cs1)" "race_view sh1 ?k = Some (sem (GMap u'))"
    by (auto simp: sample_key_ok option_rel_Some1 simp del: sem.simps heap_access.simps)
  moreover have "hs_heap st ! b = MapCell []" using st(2) fresh by simp
  ultimately show ?thesis using st(1) last
    by - (rule exI [of _ st], rule exI [of _ a], rule exI [of _ b], rule exI [of _ ?c], auto simp del: sem.simps heap_access.simps)
qed

end
