(* ===== verification/Start_Race.thy ===== *)
theory Start_Race
  imports Cache_Samples
begin

text \<open>
  \<open>EnsureInformer\<close> and \<open>Start\<close> at the same time (\<open>cache/cache.go\<close>, \<open>cache/informer_map.go\<close>). \<open>EnsureInformer\<close> makes the informer, then reads whether the cache has started, then
  whether the informer has synced, and starts a run if not; \<open>Start\<close> sets the flag and then starts the informers that it finds in the map. Each access is under a lock of its own, and the runs already started
  may sync at any moment.
\<close>

section \<open>Calls and their accesses\<close>

datatype start_call =
    Ensuring gvk
  | Checking gvk
  | Probing gvk
  | Ensured gvk
  | Starting
  | Launching
  | Started

fun start_access :: "start_call \<Rightarrow> 't cache \<Rightarrow> (start_call \<times> 't cache) option" where
  "start_access (Ensuring g) c = Some (Checking g, c\<lparr>ca_map := snd (GetOrCreate g (ca_map c))\<rparr>)"
| "start_access (Checking g) c = Some (if ca_started c then Probing g else Ensured g, c)"
| "start_access (Probing g) c =
     (case go_get (im_informers (ca_map c)) g of
        None \<Rightarrow> None
      | Some nf \<Rightarrow>
          Some (Ensured g, if \<not> HasSynced nf then c\<lparr>ca_map := (ca_map c)\<lparr>im_running := im_running (ca_map c) @ [g]\<rparr>\<rparr> else c))"
| "start_access Starting c = Some (Launching, c\<lparr>ca_started := True\<rparr>)"
| "start_access Launching c = Some (Started, c\<lparr>ca_map := InformerMap_Start (ca_map c)\<rparr>)"
| "start_access (Ensured g) c = None"
| "start_access Started c = None"

text \<open>A run of \<open>g\<close> lists for the first time: \<open>Run\<close> then sets \<open>hasSynced\<close>.\<close>

definition sync :: "gvk \<Rightarrow> 't cache \<Rightarrow> 't cache" where
  "sync g c = c\<lparr>ca_map := (ca_map c)\<lparr>im_informers :=
     map (\<lambda>(h, nf). (h, if h = g then nf\<lparr>inf_hasSynced := True\<rparr> else nf)) (im_informers (ca_map c))\<rparr>\<rparr>"

inductive start_step :: "'t cache \<times> start_call list \<Rightarrow> 't cache \<times> start_call list \<Rightarrow> bool" where
  start_moves: "i < length cs \<Longrightarrow> start_access (cs ! i) c = Some (call, c') \<Longrightarrow> start_step (c, cs) (c', cs[i := call])"
| start_syncs: "g \<in> set (im_running (ca_map c)) \<Longrightarrow> start_step (c, cs) (sync g c, cs)"

fun start_begins :: "start_call \<Rightarrow> bool" where
  "start_begins (Ensuring g) = True"
| "start_begins Starting = True"
| "start_begins _ = False"

fun start_returned :: "start_call \<Rightarrow> bool" where
  "start_returned (Ensured g) = True"
| "start_returned Started = True"
| "start_returned _ = False"

section \<open>Without interruption\<close>

text \<open>The accesses of a call alone are the operation of \<open>Object_Cache\<close>.\<close>

lemma start_alone:
  "\<exists>c1. start_access Starting c = Some (Launching, c1) \<and> start_access Launching c1 = Some (Started, Cache_Start c)"
  by (simp add: Cache_Start_def)

lemma ensure_alone:
  assumes "GVKForObject am obj = Inr g"
  shows "start_step\<^sup>*\<^sup>* (c, [Ensuring g]) (snd (EnsureInformer am obj c), [Ensured g])"
proof -
  let ?c1 = "c\<lparr>ca_map := snd (GetOrCreate g (ca_map c))\<rparr>"
  have found: "go_get (im_informers (ca_map ?c1)) g = Some (fst (GetOrCreate g (ca_map c)))"
    using GetOrCreate_stable [of g "ca_map c"] by simp
  have 1: "start_step (c, [Ensuring g]) (?c1, [Checking g])" using start_moves [of 0 "[Ensuring g]" c] by simp
  have 2: "start_step (?c1, [Checking g]) (?c1, [if ca_started c then Probing g else Ensured g])"
    using start_moves [of 0 "[Checking g]" ?c1] by simp
  have 3: "start_step\<^sup>*\<^sup>* (?c1, [if ca_started c then Probing g else Ensured g]) (snd (EnsureInformer am obj c), [Ensured g])"
    using start_moves [of 0 "[Probing g]" ?c1] assms found
    by (auto simp: EnsureInformer_def Let_def split_beta simp del: start_step.simps)
  from 1 2 3 show ?thesis by (meson converse_rtranclp_into_rtranclp)
qed

section \<open>No informer is lost\<close>

definition synced_runs :: "'t cache \<Rightarrow> bool" where
  "synced_runs c \<longleftrightarrow> (\<forall>(g, nf)\<in>set (im_informers (ca_map c)). inf_hasSynced nf \<longrightarrow> g \<in> set (im_running (ca_map c)))"

definition registered :: "'t cache \<Rightarrow> gvk set" where
  "registered c = set (go_keys (im_informers (ca_map c)))"

text \<open>
  Once a Start has launched the informers it found, an informer without a run is one whose \<open>EnsureInformer\<close> is still on its way to start it.
\<close>

definition start_inv :: "'t cache \<times> start_call list \<Rightarrow> bool" where
  "start_inv = (\<lambda>(c, cs). synced_runs c \<and> distinct (go_keys (im_informers (ca_map c))) \<and>
     (Launching \<in> set cs \<or> Started \<in> set cs \<longrightarrow> ca_started c) \<and>
     (\<forall>g. Checking g \<in> set cs \<or> Probing g \<in> set cs \<or> Ensured g \<in> set cs \<longrightarrow> g \<in> registered c) \<and>
     (Started \<in> set cs \<longrightarrow> (\<forall>g\<in>registered c.
        g \<in> set (im_running (ca_map c)) \<or> Checking g \<in> set cs \<or> Probing g \<in> set cs)))"

lemma GetOrCreate_cases:
  obtains (found) "g \<in> set (go_keys (im_informers m))" "snd (GetOrCreate g m) = m"
  | (created) nf where "g \<notin> set (go_keys (im_informers m))" "\<not> inf_hasSynced nf"
      "snd (GetOrCreate g m) = m\<lparr>im_informers := im_informers m @ [(g, nf)]\<rparr>"
proof (cases "go_get (im_informers m) g")
  case None
  then have fresh: "g \<notin> set (go_keys (im_informers m))" by (simp add: map_of_eq_None_iff)
  show thesis
    using fresh by (rule created [of "fst (GetOrCreate g m)"]) (auto simp: GetOrCreate_eq None Let_def NewGVKInformer_def go_put_fresh [OF fresh])
next
  case (Some nf)
  then have "g \<in> set (go_keys (im_informers m))" by (auto dest!: map_of_SomeD intro: rev_image_eqI)
  then show thesis by (rule found) (simp add: GetOrCreate_eq Some)
qed

lemma updated_calls:
  "i < length cs \<Longrightarrow> x \<noteq> cs ! i \<Longrightarrow> x \<in> set (cs[i := call]) \<longleftrightarrow> x = call \<or> x \<in> set cs"
  using in_update [of x cs i call] set_update_memI [of i cs call] by auto

lemma start_inv_ensure:
  assumes "start_inv (c, cs)" "i < length cs" "cs ! i = Ensuring g"
  shows "start_inv (c\<lparr>ca_map := snd (GetOrCreate g (ca_map c))\<rparr>, cs[i := Checking g])"
proof (cases rule: GetOrCreate_cases [of g "ca_map c"])
  case found
  then show ?thesis using assms by (auto simp: start_inv_def registered_def updated_calls simp del: set_map)
next
  case (created nf)
  then have "registered (c\<lparr>ca_map := snd (GetOrCreate g (ca_map c))\<rparr>) = insert g (registered c)"
    by (simp add: registered_def)
  moreover have "g \<notin> registered c" "g \<notin> set (go_keys (im_informers (ca_map c)))" using created(1) by (simp_all add: registered_def del: set_map)
  moreover have "synced_runs (c\<lparr>ca_map := snd (GetOrCreate g (ca_map c))\<rparr>)"
    using assms(1) created(2,3) by (auto simp: start_inv_def synced_runs_def)
  ultimately show ?thesis using assms created(3) by (auto simp: start_inv_def updated_calls simp del: set_map)
qed

text \<open>Every other access leaves the informers in the map: what it must respect.\<close>

lemma start_inv_move:
  assumes "start_inv (c, cs)" "i < length cs"
    and same: "im_informers (ca_map c') = im_informers (ca_map c)" "ca_started c \<Longrightarrow> ca_started c'"
      "set (im_running (ca_map c)) \<subseteq> set (im_running (ca_map c'))"
    and call: "call = Launching \<or> call = Started \<Longrightarrow> ca_started c'"
      "\<And>g. call = Checking g \<or> call = Probing g \<or> call = Ensured g \<Longrightarrow> g \<in> registered c"
      "call = Started \<Longrightarrow> registered c \<subseteq> set (im_running (ca_map c'))"
    and left: "\<And>g. cs ! i = Checking g \<or> cs ! i = Probing g \<Longrightarrow> ca_started c \<Longrightarrow> call = Probing g \<or> g \<in> set (im_running (ca_map c'))"
  shows "start_inv (c', cs[i := call])"
proof -
  have new: "x = call \<or> x \<in> set cs" if "x \<in> set (cs[i := call])" for x using that by (rule set_update_subset_insert [THEN subsetD, THEN insertE]) auto
  have kept: "x \<in> set (cs[i := call]) \<or> x = cs ! i" if "x \<in> set cs" for x using that updated_calls [OF assms(2)] by metis
  have probing: "Probing g \<in> set (cs[i := call])" if "call = Probing g" for g using assms(2) that set_update_memI by fast
  have "g \<in> set (im_running (ca_map c')) \<or> Checking g \<in> set (cs[i := call]) \<or> Probing g \<in> set (cs[i := call])"
    if "Started \<in> set (cs[i := call])" "g \<in> registered c" for g
  proof (cases "call = Started")
    case False
    then have "Started \<in> set cs" using new that(1) by metis
    with assms(1) that(2) consider "g \<in> set (im_running (ca_map c))" | "Checking g \<in> set cs" | "Probing g \<in> set cs"
      by (auto simp: start_inv_def)
    moreover have "ca_started c" using \<open>Started \<in> set cs\<close> assms(1) by (simp add: start_inv_def)
    ultimately show ?thesis
      by cases (use same(3) kept [of "Checking g"] kept [of "Probing g"] probing [of g] left [of g] in auto)
  qed (use call(3) that in blast)
  moreover have "registered c' = registered c" using same(1) by (simp add: registered_def)
  moreover have "synced_runs c'" using assms(1) same by (auto simp: start_inv_def synced_runs_def)
  moreover have "Launching \<in> set (cs[i := call]) \<or> Started \<in> set (cs[i := call]) \<Longrightarrow> ca_started c'"
    using assms(1) new same(2) call(1) unfolding start_inv_def prod.case by metis
  moreover have "Checking g \<in> set (cs[i := call]) \<or> Probing g \<in> set (cs[i := call]) \<or> Ensured g \<in> set (cs[i := call]) \<Longrightarrow> g \<in> registered c" for g
    using assms(1) new call(2) unfolding start_inv_def prod.case by metis
  ultimately show ?thesis using assms(1) same(1) by (simp add: start_inv_def)
qed

lemma sync_keys: "go_keys (im_informers (ca_map (sync g c))) = go_keys (im_informers (ca_map c))"
  by (simp add: sync_def split_beta comp_def)

lemma start_inv_sync:
  assumes "start_inv (c, cs)" "g \<in> set (im_running (ca_map c))"
  shows "start_inv (sync g c, cs)"
proof -
  have "im_running (ca_map (sync g c)) = im_running (ca_map c)" "ca_started (sync g c) = ca_started c"
    by (simp_all add: sync_def)
  moreover have "synced_runs (sync g c)" using assms by (auto simp: start_inv_def synced_runs_def sync_def split: if_splits)
  ultimately show ?thesis using assms(1) unfolding start_inv_def prod.case registered_def sync_keys by simp
qed

lemma start_inv_step:
  assumes "start_step p q" "start_inv p"
  shows "start_inv q"
  using assms
proof (induction rule: start_step.induct)
  case (start_moves i cs c call c')
  have at: "cs ! i \<in> set cs" using start_moves.hyps(1) by simp
  note move = start_inv_move [OF start_moves.prems start_moves.hyps(1)]
  have keys: "g \<in> registered c" if "cs ! i = Checking g \<or> cs ! i = Probing g" for g
    using start_moves.prems at that by (auto simp: start_inv_def)
  have launched: "cs ! i = Launching \<Longrightarrow> ca_started c" using start_moves.prems at by (auto simp: start_inv_def)
  show ?case
  proof (cases "cs ! i")
    case (Ensuring g)
    with start_moves start_inv_ensure show ?thesis by auto
  next
    case (Checking g)
    with start_moves.hyps(2) keys show ?thesis by (intro move) (auto split: if_splits)
  next
    case (Probing g)
    have "inf_hasSynced nf \<Longrightarrow> g \<in> set (im_running (ca_map c))" if "go_get (im_informers (ca_map c)) g = Some nf" for nf
      using start_moves.prems map_of_SomeD [OF that] by (auto simp: start_inv_def synced_runs_def)
    with Probing start_moves.hyps(2) keys show ?thesis by (intro move) (auto split: option.splits if_splits)
  next
    case Starting
    with start_moves.hyps(2) show ?thesis by (intro move) auto
  next
    case Launching
    with start_moves.hyps(2) launched show ?thesis by (intro move) (auto simp: InformerMap_Start_def registered_def simp del: set_map)
  qed (use start_moves.hyps(2) in auto)
next
  case (start_syncs g c cs)
  then show ?case by (simp add: start_inv_sync)
qed

lemma start_inv_moves:
  assumes "start_inv (c, cs)" "i < length cs"
  shows "start_access (cs ! i) c = None \<longleftrightarrow> start_returned (cs ! i)"
proof (cases "cs ! i")
  case (Probing g)
  with assms have "g \<in> registered c" by (auto simp: start_inv_def dest: nth_mem)
  then have "go_get (im_informers (ca_map c)) g \<noteq> None" by (simp add: registered_def map_of_eq_None_iff del: not_None_eq)
  with Probing show ?thesis by auto
qed simp_all

section \<open>The property\<close>

text \<open>
  C29 (safety): no informer is lost between \<open>EnsureInformer\<close> and \<open>Start\<close>. However the accesses of any number of these calls interleave, on a cache that had not been started, no call is ever stuck, every kind whose call has returned has its informer,
  and once all calls have returned and one of them was a \<open>Start\<close>, every informer of the map has been run.
\<close>

theorem no_informer_lost:
  assumes "\<not> ca_started c" "synced_runs c" "distinct (go_keys (im_informers (ca_map c)))" "list_all start_begins cs"
    and "start_step\<^sup>*\<^sup>* (c, cs) (c', cs')"
  shows "(\<forall>i < length cs'. start_access (cs' ! i) c' = None \<longleftrightarrow> start_returned (cs' ! i)) \<and> {g. Ensured g \<in> set cs'} \<subseteq> registered c' \<and>
    (list_all start_returned cs' \<and> Started \<in> set cs' \<longrightarrow> registered c' \<subseteq> set (im_running (ca_map c')))"
proof -
  have "Launching \<notin> set cs" "Started \<notin> set cs" "Checking g \<notin> set cs" "Probing g \<notin> set cs" "Ensured g \<notin> set cs" for g
    using assms(4) by (auto simp: list_all_iff)
  with assms(2,3) have "start_inv (c, cs)" by (simp add: start_inv_def)
  with assms(5) have I: "start_inv (c', cs')" by (induction rule: rtranclp_induct) (auto intro: start_inv_step)
  have "registered c' \<subseteq> set (im_running (ca_map c'))" if "list_all start_returned cs'" "Started \<in> set cs'"
  proof -
    have "Checking g \<notin> set cs'" "Probing g \<notin> set cs'" for g using that(1) by (auto simp: list_all_iff)
    with I that(2) show ?thesis by (auto simp: start_inv_def)
  qed
  moreover have "{g. Ensured g \<in> set cs'} \<subseteq> registered c'" using I by (auto simp: start_inv_def)
  ultimately show ?thesis using start_inv_moves [OF I] by blast
qed

lemma start_schedule:
  "i < length cs \<Longrightarrow> start_access (cs ! i) c = Some (call, c') \<Longrightarrow> start_step\<^sup>*\<^sup>* (c', cs[i := call]) q \<Longrightarrow> start_step\<^sup>*\<^sup>* (c, cs) q"
  by (meson converse_rtranclp_into_rtranclp start_moves)

text \<open>The informer is made before Start and probed after it: both start a run.\<close>

theorem no_informer_lost_witness:
  "\<exists>c' :: unit cache. start_step\<^sup>*\<^sup>* (NewCache [] 0, [Ensuring (core_gvk ''Pod''), Starting]) (c', [Ensured (core_gvk ''Pod''), Started]) \<and>
     im_running (ca_map c') = [core_gvk ''Pod'', core_gvk ''Pod''] \<and> registered c' \<subseteq> {core_gvk ''Pod''} \<and> core_gvk ''Pod'' \<in> registered c'"
proof -
  let ?g = "core_gvk ''Pod''" and ?c = "NewCache [] 0 :: unit cache"
  let ?c1 = "?c\<lparr>ca_map := snd (GetOrCreate ?g (ca_map ?c))\<rparr>"
  let ?c2 = "?c1\<lparr>ca_started := True\<rparr>"
  let ?c3 = "?c2\<lparr>ca_map := InformerMap_Start (ca_map ?c2)\<rparr>"
  let ?c4 = "?c3\<lparr>ca_map := (ca_map ?c3)\<lparr>im_running := im_running (ca_map ?c3) @ [?g]\<rparr>\<rparr>"
  note new = NewCache_def NewInformerMap_def GetOrCreate_eq NewGVKInformer_def InformerMap_Start_def Let_def
  have "start_step\<^sup>*\<^sup>* (?c, [Ensuring ?g, Starting]) (?c4, [Ensured ?g, Started])"
    by (rule start_schedule [of 0 _ _ "Checking ?g" ?c1], simp_all)
      (rule start_schedule [of 1 _ _ Launching ?c2], simp_all,
       rule start_schedule [of 0 _ _ "Probing ?g" ?c2], simp_all,
       rule start_schedule [of 1 _ _ Started ?c3], simp_all,
       rule start_schedule [of 0 _ _ "Ensured ?g" ?c4], simp_all add: new)
  moreover have running: "im_running (ca_map ?c4) = [?g, ?g]" by (simp add: new)
  moreover have "list_all start_returned [Ensured ?g, Started]" "Started \<in> set [Ensured ?g, Started]" by simp_all
  ultimately have "{g. Ensured g \<in> set [Ensured ?g, Started]} \<subseteq> registered ?c4 \<and> registered ?c4 \<subseteq> set (im_running (ca_map ?c4))"
    using no_informer_lost [of ?c "[Ensuring ?g, Starting]" ?c4 "[Ensured ?g, Started]"] by (simp add: new synced_runs_def)
  with running \<open>start_step\<^sup>*\<^sup>* (?c, _) _\<close> show ?thesis by (intro exI [of _ ?c4]) auto
qed

end
