(* ===== verification/Handler_Races.thy ===== *)
theory Handler_Races
  imports Race_Properties Cache_Samples "HOL-Library.Sublist"
begin

text \<open>
  \<open>handleEvent\<close> (\<open>cache/informer.go\<close>) one access at a time. A modification reads the old object with \<open>store.Get\<close>, writes the new one with \<open>store.Upsert\<close>, updates the indexer, reads the list of handlers under the
  lock of the informer and calls them one by one; each of these takes its own lock. In between, clients write to the store, other runs of informers write to the store and to the indexer, the store is collected and
  handlers are registered: the moves of the others.
\<close>

section \<open>The accesses of an event\<close>

datatype handling =
    Reading_old gobj
  | Upserting event_type gobj "gobj option"
  | Updating_index event_type gobj "gobj option"
  | Deleting gobj
  | Removing_index gobj
  | Reading_handlers event_type gobj "gobj option"
  | Calling event_type gobj "gobj option" "nat list"
  | Handled "informer_error option"

record 't watched =
  wa_cached :: "'t cached"
  wa_informer :: informer
  wa_calls :: "handler_call list"

text \<open>The call of a handler, from the type of the event, its object and the old object.\<close>

definition handler_call_of :: "event_type \<Rightarrow> gobj \<Rightarrow> gobj option \<Rightarrow> nat \<Rightarrow> handler_call" where
  "handler_call_of ty u old h =
     (if ty = Deleted then OnDelete h u
      else if ty = Added then OnAdd h u
      else (case old of Some x \<Rightarrow> OnUpdate h x u | None \<Rightarrow> OnAdd h u))"

definition handling_start :: "watch_event \<Rightarrow> handling" where
  "handling_start ev =
     (if ev_type ev = ErrorEvent then Handled (Some ErrorEventReceived)
      else if ev_type ev \<in> {Bookmark, OtherEvent} then Handled None
      else (case ev_object ev of
              None \<Rightarrow> Handled (Some UnexpectedObject)
            | Some u \<Rightarrow>
                (if ev_type ev = Deleted then Deleting u
                 else if ev_type ev = Modified then Reading_old u
                 else Upserting (ev_type ev) u None)))"

text \<open>The next access. \<open>None\<close>: the call has returned, or the store does not return.\<close>

fun handling_step :: "'t api_machinery \<Rightarrow> handling \<Rightarrow> 't watched \<Rightarrow> (handling \<times> 't watched) option" where
  "handling_step am (Reading_old u) w =
     map_option (\<lambda>old. (Upserting Modified u old, w)) (Get (inf_key am (wa_informer w) u) (cd_store (wa_cached w)))"
| "handling_step am (Upserting ty u old) w =
     map_option (\<lambda>s. (Updating_index ty u old, w\<lparr>wa_cached := (wa_cached w)\<lparr>cd_store := s\<rparr>\<rparr>))
       (Upsert (inf_key am (wa_informer w) u) u (cd_store (wa_cached w)))"
| "handling_step am (Updating_index ty u old) w =
     Some (Reading_handlers ty u old,
       w\<lparr>wa_cached := (wa_cached w)\<lparr>cd_index := UpdateIndex (inf_key am (wa_informer w) u) (Unstr u) (cd_index (wa_cached w))\<rparr>\<rparr>)"
| "handling_step am (Deleting u) w =
     map_option (\<lambda>s. (Removing_index u, w\<lparr>wa_cached := (wa_cached w)\<lparr>cd_store := s\<rparr>\<rparr>))
       (Delete (inf_key am (wa_informer w) u) (cd_store (wa_cached w)))"
| "handling_step am (Removing_index u) w =
     Some (Reading_handlers Deleted u None,
       w\<lparr>wa_cached := (wa_cached w)\<lparr>cd_index := RemoveIndex (inf_key am (wa_informer w) u) (cd_index (wa_cached w))\<rparr>\<rparr>)"
| "handling_step am (Reading_handlers ty u old) w = Some (Calling ty u old (inf_handlers (wa_informer w)), w)"
| "handling_step am (Calling ty u old (h # hs)) w =
     Some (Calling ty u old hs, w\<lparr>wa_calls := wa_calls w @ [handler_call_of ty u old h]\<rparr>)"
| "handling_step am (Calling ty u old []) w = Some (Handled None, w)"
| "handling_step am (Handled err) w = None"

text \<open>A move: the next access of the event, or one of somebody else.\<close>

datatype move = Proceed | Store_move change | Index_move change | Collect_move | Register_move nat

fun move_step :: "'t api_machinery \<Rightarrow> move \<Rightarrow> handling \<times> 't watched \<Rightarrow> (handling \<times> 't watched) option" where
  "move_step am Proceed (c, w) = handling_step am c w"
| "move_step am (Store_move x) (c, w) = map_option (\<lambda>s. (c, w\<lparr>wa_cached := (wa_cached w)\<lparr>cd_store := s\<rparr>\<rparr>)) (store_change x (cd_store (wa_cached w)))"
| "move_step am (Index_move x) (c, w) = Some (c, w\<lparr>wa_cached := (wa_cached w)\<lparr>cd_index := index_change x (cd_index (wa_cached w))\<rparr>\<rparr>)"
| "move_step am Collect_move (c, w) = map_option (\<lambda>s. (c, w\<lparr>wa_cached := (wa_cached w)\<lparr>cd_store := s\<rparr>\<rparr>)) (collect (cd_store (wa_cached w)))"
| "move_step am (Register_move h) (c, w) = Some (c, w\<lparr>wa_informer := AddEventHandler h (wa_informer w)\<rparr>)"

definition handling_run :: "'t api_machinery \<Rightarrow> move list \<Rightarrow> handling \<times> 't watched \<Rightarrow> (handling \<times> 't watched) option" where
  "handling_run am = foldM (move_step am)"

primrec move_ok :: "move \<Rightarrow> bool" where
  "move_ok Proceed = True"
| "move_ok (Store_move x) = change_ok x"
| "move_ok (Index_move x) = True"
| "move_ok Collect_move = True"
| "move_ok (Register_move h) = True"

text \<open>A move that leaves the object of a key alone.\<close>

primrec spares :: "object_key \<Rightarrow> move \<Rightarrow> bool" where
  "spares key Proceed = True"
| "spares key (Store_move x) = (change_key x \<noteq> key)"
| "spares key (Index_move x) = True"
| "spares key Collect_move = True"
| "spares key (Register_move h) = True"

section \<open>Without other moves it is \<open>handleEvent\<close>\<close>

text \<open>The accesses of an event when nobody registers a handler meanwhile.\<close>

fun accesses_left :: "nat list \<Rightarrow> handling \<Rightarrow> nat" where
  "accesses_left hs (Reading_old u) = 5 + length hs"
| "accesses_left hs (Upserting ty u old) = 4 + length hs"
| "accesses_left hs (Updating_index ty u old) = 3 + length hs"
| "accesses_left hs (Deleting u) = 4 + length hs"
| "accesses_left hs (Removing_index u) = 3 + length hs"
| "accesses_left hs (Reading_handlers ty u old) = 2 + length hs"
| "accesses_left hs (Calling ty u old rest) = 1 + length rest"
| "accesses_left hs (Handled err) = 0"

lemma handling_run_Nil [simp]: "handling_run am [] p = Some p"
  by (simp add: handling_run_def)

lemma handling_run_Cons [simp]:
  "handling_run am (m # ms) p = (case move_step am m p of None \<Rightarrow> None | Some q \<Rightarrow> handling_run am ms q)"
  by (simp add: handling_run_def split: option.split)

lemma handling_run_append:
  "handling_run am (ms @ ms') p = (case handling_run am ms p of None \<Rightarrow> None | Some q \<Rightarrow> handling_run am ms' q)"
  by (simp add: handling_run_def foldM_append split: option.split)

lemma run_calls:
  "handling_run am (replicate (Suc (length hs)) Proceed) (Calling ty u old hs, w) =
     Some (Handled None, w\<lparr>wa_calls := wa_calls w @ map (handler_call_of ty u old) hs\<rparr>)"
  by (induction hs arbitrary: w) simp_all

lemma run_handlers:
  "handling_run am (replicate (Suc (Suc (length (inf_handlers (wa_informer w))))) Proceed) (Reading_handlers ty u old, w) =
     Some (Handled None, w\<lparr>wa_calls := wa_calls w @ map (handler_call_of ty u old) (inf_handlers (wa_informer w))\<rparr>)"
  using run_calls [of am "inf_handlers (wa_informer w)" ty u old w] by simp

lemma handling_uninterrupted:
  assumes "w = \<lparr>wa_cached = d, wa_informer = nf, wa_calls = calls\<rparr>"
  shows "handling_run am (replicate (accesses_left (inf_handlers nf) (handling_start ev)) Proceed) (handling_start ev, w) =
    map_option (\<lambda>(err, d', more). (Handled err, \<lparr>wa_cached = d', wa_informer = nf, wa_calls = calls @ more\<rparr>)) (handleEvent am nf ev d)"
proof (cases "ev_object ev")
  case None
  with assms show ?thesis
    by (cases "ev_type ev") (simp_all add: handling_start_def handleEvent_def)
next
  case (Some u)
  note run = run_handlers [of am "\<lparr>wa_cached = d', wa_informer = nf, wa_calls = calls\<rparr>" for d', simplified]
  have eqs: "handler_call_of Deleted u None = (\<lambda>h. OnDelete h u)" "handler_call_of Added u old = (\<lambda>h. OnAdd h u)"
    "handler_call_of Modified u old = (\<lambda>h. case old of Some x \<Rightarrow> OnUpdate h x u | None \<Rightarrow> OnAdd h u)" for old
    by (simp_all add: handler_call_of_def fun_eq_iff)
  from Some assms show ?thesis
    by (cases "ev_type ev")
      (auto simp: handling_start_def handleEvent_def cached_upsert_def cached_delete_def eval_nat_numeral run eqs Let_def split: option.splits)
qed

section \<open>What the handlers are told\<close>

abbreviation watched_view :: "'t watched \<Rightarrow> object_key \<Rightarrow> aval option" where
  "watched_view w \<equiv> store_view (cd_store (wa_cached w))"

text \<open>What the store held under a key after the first \<open>i\<close> moves.\<close>

definition held_at :: "'t api_machinery \<Rightarrow> handling \<times> 't watched \<Rightarrow> move list \<Rightarrow> nat \<Rightarrow> object_key \<Rightarrow> aval option \<Rightarrow> bool" where
  "held_at am p ms i key v \<longleftrightarrow> i \<le> length ms \<and> (\<exists>c w. handling_run am (take i ms) p = Some (c, w) \<and> watched_view w key = v)"

text \<open>What the event leaves under its key.\<close>

definition event_leaves :: "event_type \<Rightarrow> gobj \<Rightarrow> aval option" where
  "event_leaves ty u = (if ty = Deleted then None else Some (sem (GMap u)))"

definition same_keys :: "'t watched \<Rightarrow> 't watched \<Rightarrow> bool" where
  "same_keys w w' \<longleftrightarrow> inf_gvk (wa_informer w') = inf_gvk (wa_informer w) \<and> prefix (inf_handlers (wa_informer w)) (inf_handlers (wa_informer w'))"

lemma same_keys_key: "same_keys w w' \<Longrightarrow> inf_key am (wa_informer w') u = inf_key am (wa_informer w) u"
  by (simp add: same_keys_def inf_key_def)

lemma same_keys_refl [simp]: "wa_informer w' = wa_informer w \<Longrightarrow> same_keys w w'"
  by (simp add: same_keys_def)

lemma same_keys_trans: "same_keys w w' \<Longrightarrow> same_keys w' w'' \<Longrightarrow> same_keys w w''"
  by (auto simp: same_keys_def)

fun handling_ok :: "handling \<Rightarrow> bool" where
  "handling_ok (Reading_old u) = tree_ok (GMap u)"
| "handling_ok (Upserting ty u old) = tree_ok (GMap u)"
| "handling_ok c = True"

lemma others_step:
  assumes "store_inv (cd_store (wa_cached w))" "move_ok m" "m \<noteq> Proceed" "move_step am m (c, w) = Some (c', w')"
  shows "c' = c" "wa_calls w' = wa_calls w" "store_inv (cd_store (wa_cached w'))" "same_keys w w'"
    "spares key m \<Longrightarrow> watched_view w' key = watched_view w key"
proof -
  from assms(1) have gc: "returns (collect (cd_store (wa_cached w))) (\<lambda>t. store_inv t \<and> store_view t = watched_view w)"
    by (rule ds.gc_law)
  have change: "store_inv t \<and> store_view t = change_view x (watched_view w)" if "change_ok x" "store_change x (cd_store (wa_cached w)) = Some t" for x t
    using returnsD [OF store_change_correct [OF assms(1) that(1)] that(2)] .
  have "c' = c \<and> wa_calls w' = wa_calls w \<and> store_inv (cd_store (wa_cached w')) \<and> same_keys w w' \<and>
      (spares key m \<longrightarrow> watched_view w' key = watched_view w key)"
    using assms gc by (cases m) (auto simp: returns_iff change_view_def same_keys_def AddEventHandler_def dest: change)
  then show "c' = c" "wa_calls w' = wa_calls w" "store_inv (cd_store (wa_cached w'))" "same_keys w w'"
    "spares key m \<Longrightarrow> watched_view w' key = watched_view w key" by blast+
qed

text \<open>An access of the event itself, by what it does.\<close>

lemma handling_stepE:
  assumes "store_inv (cd_store (wa_cached w))" "handling_ok c" "handling_step am c w = Some (c', w')"
  obtains
    (read) u old where "c = Reading_old u" "c' = Upserting Modified u old" "w' = w"
      "watched_view w (inf_key am (wa_informer w) u) = map_option (\<lambda>u. sem (GMap u)) old"
  | (upsert) ty u old where "c = Upserting ty u old" "c' = Updating_index ty u old" "wa_calls w' = wa_calls w" "wa_informer w' = wa_informer w"
      "store_inv (cd_store (wa_cached w'))" "watched_view w' = (watched_view w)(inf_key am (wa_informer w) u \<mapsto> sem (GMap u))"
  | (remove) u where "c = Deleting u" "c' = Removing_index u" "wa_calls w' = wa_calls w" "wa_informer w' = wa_informer w"
      "store_inv (cd_store (wa_cached w'))" "watched_view w' = (watched_view w)(inf_key am (wa_informer w) u := None)"
  | (index) ty u old where "c = Updating_index ty u old \<or> c = Removing_index u \<and> ty = Deleted \<and> old = None" "c' = Reading_handlers ty u old"
      "wa_calls w' = wa_calls w" "wa_informer w' = wa_informer w" "cd_store (wa_cached w') = cd_store (wa_cached w)"
  | (handlers) ty u old where "c = Reading_handlers ty u old" "c' = Calling ty u old (inf_handlers (wa_informer w))" "w' = w"
  | (call) ty u old h hs where "c = Calling ty u old (h # hs)" "c' = Calling ty u old hs" "w' = w\<lparr>wa_calls := wa_calls w @ [handler_call_of ty u old h]\<rparr>"
  | (return) ty u old where "c = Calling ty u old []" "c' = Handled None" "w' = w"
proof -
  let ?s = "cd_store (wa_cached w)"
  show thesis
  proof (cases c)
    case (Reading_old u)
    from ds.get_law [OF assms(1), of "inf_key am (wa_informer w) u"] obtain old where "Get (inf_key am (wa_informer w) u) ?s = Some old"
      "watched_view w (inf_key am (wa_informer w) u) = map_option (\<lambda>u. sem (GMap u)) old" by (auto simp: returns_iff simp del: sem.simps)
    with Reading_old assms(3) show thesis by (intro read [of u old]) auto
  next
    case (Upserting ty u old)
    with ds.ups_law [OF assms(1), of u "inf_key am (wa_informer w) u"] assms(2,3) show thesis
      by (intro upsert [of ty u old]) (auto simp: returns_iff simp del: sem.simps tree_ok.simps)
  next
    case (Deleting u)
    with ds.del_law [OF assms(1), of "inf_key am (wa_informer w) u"] assms(3) show thesis
      by (intro remove [of u]) (auto simp: returns_iff)
  next
    case (Updating_index ty u old)
    with assms(3) show thesis by (intro index [of ty u old]) auto
  next
    case (Removing_index u)
    with assms(3) show thesis by (intro index [of Deleted u None]) auto
  next
    case (Reading_handlers ty u old)
    with assms(3) show thesis by (intro handlers [of ty u old]) auto
  next
    case (Calling ty u old hs)
    with assms(3) call [of ty u old] return [of ty u old] show thesis by (cases hs) auto
  next
    case (Handled err)
    with assms(3) show thesis by simp
  qed
qed

lemma handling_step_returns:
  assumes "store_inv (cd_store (wa_cached w))" "handling_ok c"
  shows "handling_step am c w = None \<longleftrightarrow> (\<exists>err. c = Handled err)"
proof (cases c)
  case (Reading_old u)
  with ds.get_law [OF assms(1), of "inf_key am (wa_informer w) u"] show ?thesis by (auto simp: returns_iff)
next
  case (Upserting ty u old)
  with ds.ups_law [OF assms(1), of u "inf_key am (wa_informer w) u"] assms(2) show ?thesis by (auto simp: returns_iff simp del: tree_ok.simps)
next
  case (Deleting u)
  with ds.del_law [OF assms(1), of "inf_key am (wa_informer w) u"] show ?thesis by (auto simp: returns_iff)
next
  case (Calling ty u old hs)
  then show ?thesis by (cases hs) auto
qed auto

section \<open>Runs\<close>

text \<open>
  The facts about a run of an event of type \<open>ty\<close> with the object \<open>u\<close>: the old object was read at some moment, and the event was stored at some later one. If the other moves spare the key, the object
  read is the one that was there at the start.
\<close>

definition old_read :: "'t api_machinery \<Rightarrow> handling \<times> 't watched \<Rightarrow> event_type \<Rightarrow> object_key \<Rightarrow> move list \<Rightarrow> gobj option \<Rightarrow> nat \<Rightarrow> bool" where
  "old_read am p ty key ms old i \<longleftrightarrow> i \<le> length ms \<and>
     (if ty = Modified
      then held_at am p ms i key (map_option (\<lambda>u. sem (GMap u)) old) \<and>
        (list_all (spares key) ms \<longrightarrow> map_option (\<lambda>u. sem (GMap u)) old = watched_view (snd p) key)
      else old = None)"

definition event_stored :: "'t api_machinery \<Rightarrow> handling \<times> 't watched \<Rightarrow> event_type \<Rightarrow> gobj \<Rightarrow> object_key \<Rightarrow> move list \<Rightarrow> gobj option \<Rightarrow> bool" where
  "event_stored am p ty u key ms old \<longleftrightarrow> (\<exists>i j. i < j \<and> old_read am p ty key ms old i \<and> held_at am p ms j key (event_leaves ty u))"

definition told :: "event_type \<Rightarrow> gobj \<Rightarrow> gobj option \<Rightarrow> 't watched \<Rightarrow> 't watched \<Rightarrow> nat list \<Rightarrow> nat list \<Rightarrow> bool" where
  "told ty u old w0 w called rest \<longleftrightarrow>
     prefix (inf_handlers (wa_informer w0)) (called @ rest) \<and> prefix (called @ rest) (inf_handlers (wa_informer w)) \<and>
     wa_calls w = wa_calls w0 @ map (handler_call_of ty u old) called"

fun handling_inv :: "event_type \<Rightarrow> gobj \<Rightarrow> (gobj option \<Rightarrow> nat \<Rightarrow> bool) \<Rightarrow> (gobj option \<Rightarrow> bool) \<Rightarrow> 't watched \<Rightarrow> handling \<times> 't watched \<Rightarrow> bool" where
  "handling_inv ty u read stored w0 (Reading_old v, w) = (ty = Modified \<and> v = u \<and> wa_calls w = wa_calls w0)"
| "handling_inv ty u read stored w0 (Upserting t v old, w) = (ty \<noteq> Deleted \<and> t = ty \<and> v = u \<and> wa_calls w = wa_calls w0 \<and> (\<exists>i. read old i))"
| "handling_inv ty u read stored w0 (Updating_index t v old, w) = (ty \<noteq> Deleted \<and> t = ty \<and> v = u \<and> wa_calls w = wa_calls w0 \<and> stored old)"
| "handling_inv ty u read stored w0 (Deleting v, w) = (ty = Deleted \<and> v = u \<and> wa_calls w = wa_calls w0)"
| "handling_inv ty u read stored w0 (Removing_index v, w) = (ty = Deleted \<and> v = u \<and> wa_calls w = wa_calls w0 \<and> stored None)"
| "handling_inv ty u read stored w0 (Reading_handlers t v old, w) = (t = ty \<and> v = u \<and> wa_calls w = wa_calls w0 \<and> stored old)"
| "handling_inv ty u read stored w0 (Calling t v old hs, w) = (t = ty \<and> v = u \<and> stored old \<and> (\<exists>called. told ty u old w0 w called hs))"
| "handling_inv ty u read stored w0 (Handled err, w) = (err = None \<and> (\<exists>old called. stored old \<and> told ty u old w0 w called []))"

fun before_store :: "handling \<Rightarrow> bool" where
  "before_store (Reading_old u) = True"
| "before_store (Upserting ty u old) = True"
| "before_store (Deleting u) = True"
| "before_store c = False"

text \<open>The invariant of a run.\<close>

definition watched_inv :: "'t api_machinery \<Rightarrow> handling \<times> 't watched \<Rightarrow> event_type \<Rightarrow> gobj \<Rightarrow> object_key \<Rightarrow> move list \<Rightarrow> handling \<times> 't watched \<Rightarrow> bool" where
  "watched_inv am p ty u key ms q \<longleftrightarrow>
     store_inv (cd_store (wa_cached (snd q))) \<and> handling_ok (fst q) \<and> same_keys (snd p) (snd q) \<and>
     (list_all (spares key) ms \<longrightarrow> watched_view (snd q) key = (if before_store (fst q) then watched_view (snd p) key else event_leaves ty u)) \<and>
     handling_inv ty u (old_read am p ty key ms) (event_stored am p ty u key ms) (snd p) q"

lemma held_at_later: "held_at am p ms i key v \<Longrightarrow> held_at am p (ms @ [m]) i key v"
  by (auto simp: held_at_def)

lemma held_now: "handling_run am ms p = Some (c, w) \<Longrightarrow> held_at am p ms (length ms) key (watched_view w key)"
  by (simp add: held_at_def)

lemma old_read_later:
  assumes "old_read am p ty key ms old i"
  shows "old_read am p ty key (ms @ [m]) old i"
proof (cases "ty = Modified")
  case True
  note old = assms [unfolded old_read_def if_P [OF True]]
  from old held_at_later have "held_at am p (ms @ [m]) i key (map_option (\<lambda>u. sem (GMap u)) old)" by fast
  with old show ?thesis by (simp add: old_read_def True del: sem.simps)
next
  case False
  with assms show ?thesis by (simp add: old_read_def)
qed

lemma event_stored_later:
  assumes "event_stored am p ty u key ms old"
  shows "event_stored am p ty u key (ms @ [m]) old"
proof -
  from assms obtain i j where "i < j" "old_read am p ty key ms old i" "held_at am p ms j key (event_leaves ty u)"
    unfolding event_stored_def by fast
  with old_read_later [OF this(2)] held_at_later [OF this(3)] show ?thesis unfolding event_stored_def by fast
qed

lemma handling_inv_mono:
  assumes "handling_inv ty u read stored w0 (c, w)" "wa_calls w' = wa_calls w" "same_keys w w'"
    and "\<And>old i. read old i \<Longrightarrow> read' old i" "\<And>old. stored old \<Longrightarrow> stored' old"
  shows "handling_inv ty u read' stored' w0 (c, w')"
proof -
  have "told ty u old w0 w called rest \<Longrightarrow> told ty u old w0 w' called rest" for old called rest
    using assms(2,3) by (auto simp: told_def same_keys_def)
  with assms(1,2,4,5) show ?thesis by (cases c) (auto, blast+)
qed

lemma handling_run_snoc:
  "handling_run am (ms @ [m]) p = Some q \<longleftrightarrow> (\<exists>c w. handling_run am ms p = Some (c, w) \<and> move_step am m (c, w) = Some q)"
  by (auto simp: handling_run_append split: option.splits)

lemma watched_invD:
  assumes "watched_inv am p ty u key ms (c, w)"
  shows "store_inv (cd_store (wa_cached w))" "handling_ok c" "same_keys (snd p) w"
    "list_all (spares key) ms \<Longrightarrow> watched_view w key = (if before_store c then watched_view (snd p) key else event_leaves ty u)"
    "handling_inv ty u (old_read am p ty key ms) (event_stored am p ty u key ms) (snd p) (c, w)"
  using assms by (auto simp: watched_inv_def)

lemma watched_inv_others:
  assumes "watched_inv am p ty u key ms (c, w)" "m \<noteq> Proceed" "move_ok m" "move_step am m (c, w) = Some (c', w')"
  shows "watched_inv am p ty u key (ms @ [m]) (c', w')"
proof -
  note inv = watched_invD [OF assms(1)] and step = others_step [OF watched_invD(1) [OF assms(1)] assms(3,2,4)]
  have "handling_inv ty u (old_read am p ty key (ms @ [m])) (event_stored am p ty u key (ms @ [m])) (snd p) (c, w')"
    by (rule handling_inv_mono [OF inv(5) step(2,4) old_read_later event_stored_later])
  with assms(1) step same_keys_trans [OF inv(3) step(4)] show ?thesis
    by (auto simp: watched_inv_def)
qed

text \<open>A stored event: the moment after the access.\<close>

lemma event_storedI:
  assumes "handling_run am (ms @ [m]) p = Some (c', w')" "watched_view w' key = event_leaves ty u" "old_read am p ty key ms old i"
  shows "event_stored am p ty u key (ms @ [m]) old"
proof -
  from held_now [OF assms(1), of key] assms(2) have "held_at am p (ms @ [m]) (Suc (length ms)) key (event_leaves ty u)" by simp
  moreover from assms(3) have "i < Suc (length ms)" by (auto simp: old_read_def)
  ultimately show ?thesis using old_read_later [OF assms(3)] by (auto simp: event_stored_def)
qed

lemma watched_inv_before:
  assumes "watched_inv am p ty u key ms (c, w)" "handling_run am ms p = Some (c, w)" "handling_step am c w = Some (c', w')"
    and "key = inf_key am (wa_informer (snd p)) u" "before_store c"
  shows "watched_inv am p ty u key (ms @ [Proceed]) (c', w')"
proof -
  note inv = watched_invD [OF assms(1)]
  from assms(2,3) have run: "handling_run am (ms @ [Proceed]) p = Some (c', w')" by (simp add: handling_run_snoc)
  have key: "inf_key am (wa_informer w) u = key" using same_keys_key [OF inv(3)] assms(4) by simp
  show ?thesis
  proof (rule handling_stepE [OF inv(1,2) assms(3)])
    fix v old assume c: "c = Reading_old v" "c' = Upserting Modified v old" "w' = w"
      "watched_view w (inf_key am (wa_informer w) v) = map_option (\<lambda>u. sem (GMap u)) old"
    with inv(5) have v: "ty = Modified" "v = u" by simp_all
    with c(1,4) held_now [OF assms(2), of key] inv(4) key have "old_read am p ty key ms old (length ms)"
      by (simp add: old_read_def del: sem.simps)
    from old_read_later [OF this, of Proceed] c inv v show ?thesis by (auto simp: watched_inv_def simp del: sem.simps tree_ok.simps)
  next
    fix t v old assume c: "c = Upserting t v old" "c' = Updating_index t v old" "wa_calls w' = wa_calls w" "wa_informer w' = wa_informer w"
      "store_inv (cd_store (wa_cached w'))" "watched_view w' = (watched_view w)(inf_key am (wa_informer w) v \<mapsto> sem (GMap v))"
    with inv(5) obtain i where v: "ty \<noteq> Deleted" "t = ty" "v = u" "wa_calls w = wa_calls (snd p)" "old_read am p ty key ms old i" by auto
    with c(6) key have leaves: "watched_view w' key = event_leaves ty u" by (simp add: event_leaves_def del: sem.simps)
    from event_storedI [OF run this v(5)] c v inv(3) leaves show ?thesis
      by (auto simp: watched_inv_def same_keys_def simp del: sem.simps)
  next
    fix v assume c: "c = Deleting v" "c' = Removing_index v" "wa_calls w' = wa_calls w" "wa_informer w' = wa_informer w"
      "store_inv (cd_store (wa_cached w'))" "watched_view w' = (watched_view w)(inf_key am (wa_informer w) v := None)"
    with inv(5) have v: "ty = Deleted" "v = u" "wa_calls w = wa_calls (snd p)" by simp_all
    with c(6) key have leaves: "watched_view w' key = event_leaves ty u" by (simp add: event_leaves_def)
    have "old_read am p ty key ms None (length ms)" using v(1) by (simp add: old_read_def)
    from event_storedI [OF run leaves this] c v inv(3) leaves show ?thesis
      by (auto simp: watched_inv_def same_keys_def)
  qed (use assms(5) in auto)
qed

lemma watched_inv_after:
  assumes "watched_inv am p ty u key ms (c, w)" "handling_step am c w = Some (c', w')" "\<not> before_store c"
  shows "watched_inv am p ty u key (ms @ [Proceed]) (c', w')"
proof -
  note inv = watched_invD [OF assms(1)] and later = event_stored_later [of am p ty u key ms _ Proceed]
  show ?thesis
  proof (rule handling_stepE [OF inv(1,2) assms(2)])
    fix t v old assume c: "c = Updating_index t v old \<or> c = Removing_index v \<and> t = Deleted \<and> old = None" "c' = Reading_handlers t v old"
      "wa_calls w' = wa_calls w" "wa_informer w' = wa_informer w" "cd_store (wa_cached w') = cd_store (wa_cached w)"
    with inv later show ?thesis by (auto simp: watched_inv_def same_keys_def)
  next
    fix t v old assume c: "c = Reading_handlers t v old" "c' = Calling t v old (inf_handlers (wa_informer w))" "w' = w"
    then have "told ty u old (snd p) w [] (inf_handlers (wa_informer w))" using inv(3,5) by (simp add: told_def same_keys_def)
    with c inv later show ?thesis by (auto simp: watched_inv_def)
  next
    fix t v old h hs assume c: "c = Calling t v old (h # hs)" "c' = Calling t v old hs" "w' = w\<lparr>wa_calls := wa_calls w @ [handler_call_of t v old h]\<rparr>"
    with inv(5) obtain called where t: "t = ty" "v = u" "told ty u old (snd p) w called (h # hs)" by auto
    with c(3) have "told ty u old (snd p) w' (called @ [h]) hs" by (simp add: told_def)
    with c t inv later show ?thesis by (auto simp: watched_inv_def same_keys_def)
  next
    fix t v old assume "c = Calling t v old []" "c' = Handled None" "w' = w"
    with inv later show ?thesis by (auto simp: watched_inv_def)
  qed (use assms(3) in auto)
qed

lemma watched_inv_run:
  assumes "handling_run am ms p = Some q" "watched_inv am p ty u (inf_key am (wa_informer (snd p)) u) [] p" "list_all move_ok ms"
  shows "watched_inv am p ty u (inf_key am (wa_informer (snd p)) u) ms q"
  using assms(1,3)
proof (induction ms arbitrary: q rule: rev_induct)
  case Nil
  with assms(2) show ?case by simp
next
  case (snoc m ms)
  then obtain c w where run: "handling_run am ms p = Some (c, w)" "move_step am m (c, w) = Some q" by (auto simp: handling_run_snoc)
  from snoc have inv: "watched_inv am p ty u (inf_key am (wa_informer (snd p)) u) ms (c, w)" using run(1) by simp
  show ?case
  proof (cases "m = Proceed")
    case True
    with run watched_inv_before [OF inv run(1) _ refl] watched_inv_after [OF inv] show ?thesis by (cases q; cases "before_store c") auto
  next
    case False
    with run(2) watched_inv_others [OF inv False] snoc.prems(2) show ?thesis by (cases q) auto
  qed
qed

section \<open>Every run ends\<close>

lemma accesses_left_step:
  assumes "handling_step am c w = Some (c', w')"
  shows "wa_informer w' = wa_informer w \<and> accesses_left (inf_handlers (wa_informer w)) c = Suc (accesses_left (inf_handlers (wa_informer w)) c')"
  using assms by (induction am c w rule: handling_step.induct) auto

lemma handling_step_ok:
  assumes "store_inv (cd_store (wa_cached w))" "handling_ok c" "handling_step am c w = Some (c', w')"
  shows "store_inv (cd_store (wa_cached w')) \<and> handling_ok c'"
  by (rule handling_stepE [OF assms]) (use assms in auto)

lemma handling_ends:
  assumes "store_inv (cd_store (wa_cached w))" "handling_ok c"
  shows "returns (handling_run am (replicate (accesses_left (inf_handlers (wa_informer w)) c) Proceed) (c, w)) (\<lambda>(c', w'). \<exists>err. c' = Handled err)"
  using assms
proof (induction "accesses_left (inf_handlers (wa_informer w)) c" arbitrary: c w)
  case 0
  then show ?case by (cases c) auto
next
  case (Suc n)
  then have "\<nexists>err. c = Handled err" by auto
  with handling_step_returns [OF Suc.prems] obtain c' w' where step: "handling_step am c w = Some (c', w')" by fastforce
  with accesses_left_step [OF step] Suc.hyps have n: "n = accesses_left (inf_handlers (wa_informer w')) c'" by simp
  from Suc.hyps(2) step have "handling_run am (replicate (accesses_left (inf_handlers (wa_informer w)) c) Proceed) (c, w) = handling_run am (replicate n Proceed) (c', w')"
    by (simp flip: Suc.hyps(2))
  with Suc.hyps(1) [OF n] handling_step_ok [OF Suc.prems step] show ?case by (simp add: n)
qed

lemma replicate_Proceed_ok [simp]: "list_all move_ok (replicate n Proceed)" "list_all (spares key) (replicate n Proceed)"
  by (simp_all add: list_all_iff)

lemma watched_inv_start:
  assumes "store_inv (cd_store (wa_cached w0))" "ev_object ev = Some u" "tree_ok (GMap u)" "ev_type ev \<in> {Added, Modified, Deleted}"
  shows "watched_inv am (handling_start ev, w0) (ev_type ev) u key [] (handling_start ev, w0)"
proof -
  have "ev_type ev = Added \<Longrightarrow> old_read am (handling_start ev, w0) (ev_type ev) key [] None 0" by (simp add: old_read_def)
  with assms show ?thesis by (auto simp: watched_inv_def handling_start_def simp del: tree_ok.simps)
qed

text \<open>
  C30 (safety): what handlers are told under races. While an event is handled, clients and other informers may write to the store and the indexer, the store may be collected and handlers may be registered, between
  any two accesses. Whatever has happened up to some moment, the rest of the accesses end without an error, and then the handlers registered at one moment, at least those of the start, have been called once each, in order;
  the event had been stored before; the old object of an \<open>OnUpdate\<close> is what the store held under the key at an earlier moment, not always the one that was overwritten. If nobody else writes the key, it is the one that was
  overwritten, and the store ends up with the event.
\<close>

theorem handlers_told:
  assumes "store_inv (cd_store (wa_cached w0))" "ev_object ev = Some u" "tree_ok (GMap u)" "ev_type ev \<in> {Added, Modified, Deleted}"
    and "list_all move_ok ms" "handling_run am ms (handling_start ev, w0) = Some (c, w)"
  defines "key \<equiv> inf_key am (wa_informer w0) u" and "all \<equiv> ms @ replicate (accesses_left (inf_handlers (wa_informer w)) c) Proceed"
  shows "returns (handling_run am all (handling_start ev, w0)) (\<lambda>(c', w'). c' = Handled None \<and>
    (\<exists>old hs. prefix (inf_handlers (wa_informer w0)) hs \<and> prefix hs (inf_handlers (wa_informer w')) \<and>
       wa_calls w' = wa_calls w0 @ map (handler_call_of (ev_type ev) u old) hs \<and>
       event_stored am (handling_start ev, w0) (ev_type ev) u key all old) \<and>
    (list_all (spares key) ms \<longrightarrow> watched_view w' key = event_leaves (ev_type ev) u))"
proof -
  let ?p = "(handling_start ev, w0)"
  note inv = watched_inv_run [of am _ ?p _ "ev_type ev" u, simplified snd_conv, folded key_def, OF _ watched_inv_start [OF assms(1-4)]]
  from inv [OF assms(6,5)] have "store_inv (cd_store (wa_cached w))" "handling_ok c" by (simp_all add: watched_inv_def)
  from handling_ends [OF this, of am] obtain err w' where run: "handling_run am all ?p = Some (Handled err, w')"
    by (auto simp: returns_iff all_def handling_run_append assms(6))
  moreover have "list_all move_ok all" using assms(5) by (simp add: all_def)
  ultimately have "watched_inv am ?p (ev_type ev) u key all (Handled err, w')" by (rule inv)
  then have "err = None" "\<exists>old hs. event_stored am ?p (ev_type ev) u key all old \<and> told (ev_type ev) u old w0 w' hs []"
    "list_all (spares key) ms \<Longrightarrow> watched_view w' key = event_leaves (ev_type ev) u" by (simp_all add: watched_inv_def all_def)
  with run show ?thesis by (auto simp: told_def)
qed

definition sample_watched :: "unit watched" where
  "sample_watched = \<lparr>wa_cached = \<lparr>cd_store = sample_store, cd_index = NewIndexer\<rparr>, wa_informer = sample_informer, wa_calls = []\<rparr>"

definition sample_event :: watch_event where
  "sample_event = \<lparr>ev_type = Modified, ev_object = Some (pod ''n2'')\<rparr>"

text \<open>A second handler is registered after the old object has been read.\<close>

theorem handlers_told_witness:
  "\<exists>w old hs. handling_run sample_am ([Proceed, Register_move 2] @ replicate 6 Proceed) (handling_start sample_event, sample_watched) = Some (Handled None, w) \<and>
     prefix [1] hs \<and> wa_calls w = map (handler_call_of Modified (pod ''n2'') old) hs \<and>
     watched_view w (pod_key ''a'') = Some (sem (GMap (pod ''n2'')))"
proof -
  from ds.get_law [OF sample_inv, of "pod_key ''a''"] obtain old where "Get (pod_key ''a'') sample_store = Some old" by (auto simp: returns_iff)
  then have run: "handling_run sample_am [Proceed, Register_move 2] (handling_start sample_event, sample_watched) =
      Some (Upserting Modified (pod ''n2'') old, sample_watched\<lparr>wa_informer := AddEventHandler 2 sample_informer\<rparr>)"
    by (simp add: handling_start_def sample_event_def sample_watched_def sample_inf_key)
  have start: "store_inv (cd_store (wa_cached sample_watched))" "ev_object sample_event = Some (pod ''n2'')" "ev_type sample_event \<in> {Added, Modified, Deleted}"
    by (simp_all add: sample_watched_def sample_event_def sample_inv)
  have n: "accesses_left (inf_handlers (wa_informer (sample_watched\<lparr>wa_informer := AddEventHandler 2 sample_informer\<rparr>))) (Upserting Modified (pod ''n2'') old) = 6"
    by (simp add: AddEventHandler_def sample_handlers)
  from handlers_told [OF start(1,2) pod_ok(1) start(3) _ run, unfolded n] show ?thesis
    by (auto simp: returns_iff sample_watched_def sample_event_def sample_inf_key sample_handlers event_leaves_def simp del: handling_run_Cons sem.simps)
qed

section \<open>Events as informer writes\<close>

text \<open>
  What is left of an event as a call of \<open>Races\<close>: an informer write, then its update of the indexer. An access of an event is one of that call, or it touches neither the store nor the indexer; so the results of \<open>Races\<close> on
  informer writes are about \<open>handleEvent\<close>.
\<close>

fun as_call :: "'t api_machinery \<Rightarrow> informer \<Rightarrow> handling \<Rightarrow> call" where
  "as_call am nf (Reading_old u) = Informing (Put (inf_key am nf u) u)"
| "as_call am nf (Upserting ty u old) = Informing (Put (inf_key am nf u) u)"
| "as_call am nf (Updating_index ty u old) = Indexing (Put (inf_key am nf u) u)"
| "as_call am nf (Deleting u) = Informing (Remove (inf_key am nf u))"
| "as_call am nf (Removing_index u) = Indexing (Remove (inf_key am nf u))"
| "as_call am nf c = Done"

lemma handling_simulates:
  assumes "handling_step am c w = Some (c', w')" "sh = \<lparr>sh_cached = wa_cached w, sh_lru = lru\<rparr>"
  shows "call_step (as_call am (wa_informer w) c) sh = Some (as_call am (wa_informer w) c', sh\<lparr>sh_cached := wa_cached w'\<rparr>) \<or>
    as_call am (wa_informer w) c' = as_call am (wa_informer w) c \<and> wa_cached w' = wa_cached w"
  using assms(1) unfolding assms(2) by (induction am c w rule: handling_step.induct) auto

text \<open>The event itself starts as such a call, unless it changes nothing.\<close>

lemma handling_start_simulates:
  assumes "ev_object ev = Some u"
  shows "as_call am nf (handling_start ev) =
    (if ev_type ev \<in> {Added, Modified} then Informing (Put (inf_key am nf u) u)
     else if ev_type ev = Deleted then Informing (Remove (inf_key am nf u)) else Done)"
  using assms by (cases "ev_type ev") (simp_all add: handling_start_def)

section \<open>Two overlaps\<close>

text \<open>
  A client removes the object after the old one has been read: the handlers are told of an update of an object that was not there, and the object is in the store again.
\<close>

lemma update_of_removed:
  assumes "store_inv s" "tree_ok (GMap u)" "Get (inf_key am nf u) s = Some (Some old)"
  shows "\<exists>w. handling_run am ([Proceed, Store_move (Remove (inf_key am nf u))] @ replicate (4 + length (inf_handlers nf)) Proceed)
      (Reading_old u, \<lparr>wa_cached = \<lparr>cd_store = s, cd_index = idx\<rparr>, wa_informer = nf, wa_calls = []\<rparr>) = Some (Handled None, w) \<and>
    wa_calls w = map (\<lambda>h. OnUpdate h old u) (inf_handlers nf) \<and> watched_view w (inf_key am nf u) = Some (sem (GMap u))"
proof -
  let ?key = "inf_key am nf u"
  from ds.del_law [OF assms(1), of ?key] obtain s1 where s1: "Delete ?key s = Some s1" "store_inv s1" by (auto simp: returns_iff)
  from ds.ups_law [OF s1(2) assms(2), of ?key] obtain s2 where s2: "Upsert ?key u s1 = Some s2" "store_view s2 ?key = Some (sem (GMap u))"
    by (auto simp: returns_iff simp del: sem.simps)
  have calls: "handler_call_of Modified u (Some old) = (\<lambda>h. OnUpdate h old u)" by (simp add: handler_call_of_def fun_eq_iff)
  let ?w = "\<lparr>wa_cached = \<lparr>cd_store = s2, cd_index = UpdateIndex ?key (Unstr u) idx\<rparr>, wa_informer = nf, wa_calls = []\<rparr>"
  from run_handlers [of am ?w Modified u "Some old"] show ?thesis
    by (simp add: eval_nat_numeral assms(3) s1(1) s2 calls del: sem.simps)
qed

text \<open>
  A client writes an object while an older event of it is on its way: the event is stored over the reply of the server, since versions are not compared.
\<close>

lemma older_event_overwrites:
  assumes "store_inv s" "tree_ok (GMap u)" "tree_ok (GMap v)"
  shows "\<exists>w. handling_run am ([Store_move (Put (inf_key am nf u) v)] @ replicate (4 + length (inf_handlers nf)) Proceed)
      (Upserting Added u None, \<lparr>wa_cached = \<lparr>cd_store = s, cd_index = idx\<rparr>, wa_informer = nf, wa_calls = []\<rparr>) = Some (Handled None, w) \<and>
    watched_view w (inf_key am nf u) = Some (sem (GMap u))"
proof -
  let ?key = "inf_key am nf u"
  from ds.ups_law [OF assms(1,3), of ?key] obtain s1 where s1: "Upsert ?key v s = Some s1" "store_inv s1" by (auto simp: returns_iff)
  from ds.ups_law [OF s1(2) assms(2), of ?key] obtain s2 where s2: "Upsert ?key u s1 = Some s2" "store_view s2 ?key = Some (sem (GMap u))"
    by (auto simp: returns_iff simp del: sem.simps)
  let ?w = "\<lparr>wa_cached = \<lparr>cd_store = s2, cd_index = UpdateIndex ?key (Unstr u) idx\<rparr>, wa_informer = nf, wa_calls = []\<rparr>"
  from run_handlers [of am ?w Added u None] show ?thesis
    by (simp add: eval_nat_numeral s1(1) s2 del: sem.simps)
qed

end
