(* ===== verification/Abandoned.thy ===== *)
theory Abandoned
  imports Fleet_Samples
begin

text \<open>
  A kind that nobody informs any more. A run that \<open>Cache.Get\<close> or \<open>Cache.List\<close> has started has the context of that call (\<open>cache/cache.go\<close>, \<open>EnsureInformer\<close>), so it ends with it: an ordinary end of \<open>Run\<close>. If
  its list had succeeded, the informer counts as synced, and \<open>EnsureInformer\<close> starts synced informers no more.
\<close>

section \<open>Calls start informers that have not synced\<close>

definition map_called :: "informer_map \<Rightarrow> informer_map \<Rightarrow> bool" where
  "map_called m m' \<longleftrightarrow> (\<forall>g nf. go_get (im_informers m) g = Some nf \<longrightarrow> go_get (im_informers m') g = Some nf) \<and>
     (\<exists>gs. im_running m' = im_running m @ gs \<and> (\<forall>g\<in>set gs. \<exists>nf. go_get (im_informers m') g = Some nf \<and> \<not> HasSynced nf))"

lemma map_called_refl: "map_called m m"
  by (simp add: map_called_def)

lemma EnsureInformer_called: "map_called (ca_map c) (ca_map (snd (EnsureInformer am obj c)))"
  by (auto simp: EnsureInformer_def map_called_def GetOrCreate_eq Let_def NewGVKInformer_def gomap_simps split: sum.split option.split)

lemma EnsureInformer_calledD: "EnsureInformer am obj c = (err, c1) \<Longrightarrow> map_called (ca_map c) (ca_map c1)"
  using EnsureInformer_called [of c am obj] by simp

lemma Client_Get_called:
  assumes "Client_Get am i ns name obj fl = Some (r, fl')"
  shows "map_called (ca_map (fl_cache fl)) (ca_map (fl_cache fl'))"
proof -
  have get: "map_called (ca_map c) (ca_map c')" if "Cache_Get am ns name obj c = Some (r, c')" for c r c'
    using that by (auto simp: Cache_Get_def Let_def map_called_refl split: sum.splits option.splits prod.splits dest: EnsureInformer_calledD)
  from assms show ?thesis
    by (auto simp: Client_Get_def Let_def map_called_refl split: sum.splits option.splits prod.splits if_splits dest: get)
qed

lemma Client_List_called:
  "Client_List ff get_labels am scheme_New target opts fl = Some (out, fl') \<Longrightarrow> map_called (ca_map (fl_cache fl)) (ca_map (fl_cache fl'))"
  by (auto simp: Client_List_def Cache_List_def Let_def map_called_refl split: sum.splits option.splits prod.splits dest: EnsureInformer_calledD)

section \<open>Abandoned kinds\<close>

definition abandoned :: "gvk \<Rightarrow> 't system \<Rightarrow> bool" where
  "abandoned g s \<longleftrightarrow> (\<exists>nf. go_get (sy_informers s) g = Some nf \<and> HasSynced nf) \<and>
     (\<forall>r\<in>set (sy_runs s). rn_gvk r = g \<longrightarrow> (\<exists>res. rn_phase r = Finished res))"

text \<open>Runs of a system on which Start, which is meant to be called once, is not called again.\<close>

inductive later :: "'t api_machinery \<Rightarrow> 't system \<Rightarrow> history \<Rightarrow> 't system \<Rightarrow> bool" for am where
  later_nil: "later am s [] s"
| later_snoc: "later am s h t \<Longrightarrow> sys_step am t h' u \<Longrightarrow> u \<noteq> launch t (Client_Start (sy_fleet t)) \<Longrightarrow> later am s (h @ h') u"

lemma later_trace: "later am t h' u \<Longrightarrow> sys_trace am s h t \<Longrightarrow> sys_trace am s (h @ h') u"
  by (induction rule: later.induct) (auto intro: sys_snoc simp flip: append_assoc)

lemma abandoned_launch:
  assumes "abandoned g s" "sys_inv am h s" "map_called (ca_map (sy_cache s)) (ca_map (fl_cache fl))"
  shows "abandoned g (launch s fl)"
proof -
  from assms(3) obtain gs where gs: "im_running (ca_map (fl_cache fl)) = im_running (ca_map (sy_cache s)) @ gs"
    "\<forall>g\<in>set gs. \<exists>nf. go_get (im_informers (ca_map (fl_cache fl))) g = Some nf \<and> \<not> HasSynced nf" by (auto simp: map_called_def)
  from assms(2) have "length (sy_runs s) = length (im_running (ca_map (sy_cache s)))" by (auto simp: sys_inv_def dest!: arg_cong [of _ _ length])
  with gs(1) have runs: "sy_runs (launch s fl) = sy_runs s @ map new_run gs" by (simp add: launch_def)
  from assms(1,3) obtain nf where nf: "go_get (im_informers (ca_map (fl_cache fl))) g = Some nf" "HasSynced nf"
    by (auto simp: abandoned_def map_called_def)
  with gs(2) have "g \<notin> set gs" by auto
  with assms(1) nf show ?thesis by (auto simp: abandoned_def runs) (auto simp: launch_def new_run_def)
qed

text \<open>A finished run does nothing, and the runs of other kinds leave the informer alone.\<close>

lemma abandoned_informer:
  assumes "abandoned g s" "i < length (sy_runs s)" "run_step am (run_of s i nf) l t"
  shows "abandoned g (settle s i t) \<and> rn_gvk (sy_runs s ! i) \<noteq> g"
proof -
  from assms(3) have "rn_phase (sy_runs s ! i) \<noteq> Finished res" for res
    by (auto simp: run_of_def elim: run_stepE)
  moreover have "sy_runs s ! i \<in> set (sy_runs s)" using assms(2) by simp
  ultimately have g: "rn_gvk (sy_runs s ! i) \<noteq> g" using assms(1) unfolding abandoned_def by metis
  with assms(1) show ?thesis
    by (auto simp: abandoned_def settle_def Let_def gomap_simps dest!: in_update(1))
qed

lemma abandoned_step:
  assumes "sys_step am s h' t" "abandoned g s" "sys_inv am h s" "t \<noteq> launch s (Client_Start (sy_fleet s))"
  shows "abandoned g t \<and> (\<forall>l. Informed g l \<notin> set h')"
  using assms
proof (induction rule: sys_step.induct)
  case (sys_informer i s g' nf l t)
  with abandoned_informer [OF sys_informer.prems(1) sys_informer.hyps(1,4)] show ?case by auto
next
  case (sys_get i ns name obj s r fl)
  with abandoned_launch [OF sys_get.prems(1,2) Client_Get_called [OF sys_get.hyps]] show ?case
    by (simp add: looked_def split: sum.split)
next
  case (sys_list ff get_labels scheme_New target opts s out fl)
  with abandoned_launch [OF sys_list.prems(1,2) Client_List_called [OF sys_list.hyps]] show ?case by simp
next
  case (sys_ensure obj s err c)
  with abandoned_launch [OF sys_ensure.prems(1,2), of "(sy_fleet s)\<lparr>fl_cache := c\<rparr>"] EnsureInformer_calledD [OF sys_ensure.hyps] show ?case by simp
next
  case (sys_new_client s cc optFns)
  with abandoned_launch [OF sys_new_client.prems(1,2), of "snd (NewClient cc optFns (sy_fleet s))"] show ?case
    by (simp add: NewClient_def Let_def map_called_refl)
next
  case (sys_write s h' fl)
  from sys_write.prems(2) have "holds (ca_cached (sy_cache s)) (history_view am h) (index_view am h)" by (simp add: sys_inv_def)
  from client_writes_holds [OF sys_write.hyps this] abandoned_launch [OF sys_write.prems(1,2), of fl] show ?case
    by (auto simp: map_called_refl list_all_iff)
qed simp

lemma abandoned_later:
  assumes "later am s h' t" "abandoned g s" "sys_inv am h s"
  shows "abandoned g t \<and> (\<forall>l. Informed g l \<notin> set h') \<and> sys_inv am (h @ h') t"
  using assms
proof (induction rule: later.induct)
  case (later_snoc s h1 t h' u)
  then have IH: "abandoned g t" "\<forall>l. Informed g l \<notin> set h1" "sys_inv am (h @ h1) t" by simp_all
  from abandoned_step [OF later_snoc.hyps(2) IH(1,3) later_snoc.hyps(3)] sys_step_inv [OF later_snoc.hyps(2) IH(3)] IH(2) show ?case by auto
qed simp

text \<open>What the events of other kinds, and the writes of other keys, leave alone.\<close>

lemma leaves_other:
  assumes "\<forall>l. e \<noteq> Informed (key_gvk key) l" "\<forall>u. e \<noteq> Stored key u" "e \<noteq> Removed key"
  shows "leaves am key e"
proof (cases e)
  case (Informed g l)
  with assms(1) have "event_gvk e \<noteq> key_gvk key" by (auto simp: event_gvk_def)
  then show ?thesis using event_effect_point [of am e _ key] by (simp add: leaves_def)
qed (use assms in \<open>auto simp: leaves_def\<close>)

text \<open>
  C23 (liveness): a kind can be abandoned for good. Once the runs of the informer of a GVK have ended, which a run does with the context of the Get or List that started it, and one of them had received its first list, no
  later call other than a new Start runs the informer again: no list or event of the GVK comes in, whatever the server does, and what the cache holds under a key of the GVK stays as it is until a client writes that key.
\<close>

theorem kind_abandoned:
  assumes "fl_cache fl0 = with_indexes am specs (NewCache namespaces n)" "sys_trace am (system_of fl0) h s"
    and "abandoned g s" "later am s h' t"
  shows "abandoned g t \<and> (\<forall>l. Informed g l \<notin> set h') \<and>
    (\<forall>key. key_gvk key = g \<and> (\<forall>u. Stored key u \<notin> set h') \<and> Removed key \<notin> set h' \<longrightarrow>
      cache_view (sy_cache t) key = cache_view (sy_cache s) key)"
proof -
  from sys_trace_inv [OF assms(2) sys_inv_new [OF assms(1)]] have I: "sys_inv am h s" .
  note L = abandoned_later [OF assms(4,3) I]
  have "cache_view (sy_cache t) key = cache_view (sy_cache s) key"
    if "key_gvk key = g" "\<forall>u. Stored key u \<notin> set h'" "Removed key \<notin> set h'" for key
  proof -
    from that L have "\<forall>e\<in>set h'. leaves am key e" by (auto intro!: leaves_other)
    from history_view_leaves [OF this, of h] L I show ?thesis by (simp add: sys_inv_def holds_def del: sem.simps)
  qed
  with L show ?thesis by blast
qed

text \<open>A synced informer is not started by a read: the system stays as it is, where Start would run the informer again.\<close>

lemma synced_read:
  assumes "sys_inv am h s" "go_get (sy_informers s) g = Some nf" "HasSynced nf" "GVKForObject am obj = Inr g"
  shows "sys_step am s [] s" "s \<noteq> launch s (Client_Start (sy_fleet s))"
proof -
  from assms(1) have len: "length (sy_runs s) = length (im_running (ca_map (sy_cache s)))" by (auto simp: sys_inv_def dest!: arg_cong [of _ _ length])
  from assms(2-4) have "EnsureInformer am obj (sy_cache s) = (None, sy_cache s)" by (simp add: EnsureInformer_def GetOrCreate_eq)
  from sys_ensure [OF this] len show "sys_step am s [] s" by (simp add: launch_def)
  from assms(2) have "im_informers (ca_map (sy_cache s)) \<noteq> []" by auto
  then have "sy_runs (launch s (Client_Start (sy_fleet s))) \<noteq> sy_runs s"
    by (simp add: launch_def Client_Start_def Cache_Start_def InformerMap_Start_def len)
  then show "s \<noteq> launch s (Client_Start (sy_fleet s))" by auto
qed

text \<open>The context of the only run ends after its first list; then a client asks for the informer.\<close>

theorem kind_abandoned_witness:
  "\<exists>s t. sys_trace sample_am (system_of sample_fleet0) (listed_history @ [Informed (core_gvk ''Pod'') CtxDone]) s \<and>
     later sample_am s [] t \<and> sys_step sample_am s [] t \<and> abandoned (core_gvk ''Pod'') t \<and>
     cache_view (sy_cache t) (pod_key ''a'') = cache_view (sy_cache s) (pod_key ''a'')"
proof -
  let ?g = "core_gvk ''Pod''"
  have fl0: "fl_cache sample_fleet0 = with_indexes sample_am sample_index (NewCache [] 0)" by (simp add: sample_fleet0_def)
  from system_listed_run [OF fl0] sample_index_started obtain s nf where s: "sys_trace sample_am (system_of sample_fleet0) listed_history s"
    "sy_informers s = [(?g, nf)]" "inf_hasSynced nf" "sy_runs s = [\<lparr>rn_gvk = ?g, rn_phase = LoopTop ''5'', rn_backoff = second\<rparr>]"
    by (auto simp: sample_fleet0_def)
  let ?r = "run_of s 0 nf"
  let ?s = "settle s 0 (?r\<lparr>rs_phase := Finished CtxErr\<rparr>)"
  have "run_step sample_am ?r CtxDone (?r\<lparr>rs_phase := Finished CtxErr\<rparr>)" by (rule loop_done) (simp add: run_of_def s(4))
  then have "sys_step sample_am s [Informed ?g CtxDone] ?s" by (intro sys_informer) (simp_all add: s(2,4))
  from sys_snoc [OF s(1) this] have trace: "sys_trace sample_am (system_of sample_fleet0) (listed_history @ [Informed ?g CtxDone]) ?s" .
  have ended: "go_get (sy_informers ?s) ?g = Some nf" "abandoned ?g ?s"
    using s(2-4) by (simp_all add: abandoned_def settle_def Let_def run_of_def)
  note read = synced_read [OF sys_trace_inv [OF trace sys_inv_new [OF fl0]] ended(1) _ sample_gvk(1)]
  from later_snoc [OF later_nil read] s(3) have "later sample_am ?s [] ?s" by simp
  from kind_abandoned [OF fl0 trace ended(2) this] trace this read(1) s(3) show ?thesis by (auto simp: pod_key_def)
qed

end
