(* ===== verification/Locks.thy ===== *)
theory Locks
  imports Prelude
begin

text \<open>
  Reader/writer locks as Go's \<open>sync.RWMutex\<close> has them, and threads that use several of them. A \<open>sync.Mutex\<close> is one that nobody locks for reading. A writer first announces itself, which keeps new readers and other
  writers out, and enters when the readers are gone. A program is what a goroutine does to locks and to the data they guard; a discipline on programs, checked thread by thread, excludes conflicting accesses and deadlocks of any number of
  threads.
\<close>

section \<open>Threads and their steps\<close>

datatype 'm action = RLock 'm | RUnlock 'm | Lock 'm | Enter 'm | Unlock 'm | Reads 'm | Writes 'm

datatype mode = Shared | Announced | Exclusive

text \<open>The locks that a thread holds, with how, and what it has still to do. \<open>Enter\<close> is the second half of a \<open>Lock\<close>.\<close>

type_synonym 'm holds = "('m \<times> mode) list"
type_synonym 'm thread = "'m holds \<times> 'm action list"

definition someone :: "'m thread list \<Rightarrow> 'm \<Rightarrow> mode \<Rightarrow> bool" where
  "someone ts m md \<longleftrightarrow> list_ex (\<lambda>t. (m, md) \<in> set (fst t)) ts"

fun may :: "'m thread list \<Rightarrow> 'm holds \<Rightarrow> 'm action \<Rightarrow> bool" where
  "may ts hs (RLock m) = (\<not> someone ts m Announced \<and> \<not> someone ts m Exclusive)"
| "may ts hs (Lock m) = (\<not> someone ts m Announced \<and> \<not> someone ts m Exclusive)"
| "may ts hs (Enter m) = ((m, Announced) \<in> set hs \<and> \<not> someone ts m Shared)"
| "may ts hs (RUnlock m) = ((m, Shared) \<in> set hs)"
| "may ts hs (Unlock m) = ((m, Exclusive) \<in> set hs)"
| "may ts hs _ = True"

fun act :: "'m holds \<Rightarrow> 'm action \<Rightarrow> 'm action list \<Rightarrow> 'm thread" where
  "act hs (RLock m) p = ((m, Shared) # hs, p)"
| "act hs (Lock m) p = ((m, Announced) # hs, Enter m # p)"
| "act hs (Enter m) p = ((m, Exclusive) # remove1 (m, Announced) hs, p)"
| "act hs (RUnlock m) p = (remove1 (m, Shared) hs, p)"
| "act hs (Unlock m) p = (remove1 (m, Exclusive) hs, p)"
| "act hs _ p = (hs, p)"

definition lock_next :: "nat \<Rightarrow> 'm thread list \<Rightarrow> 'm thread list option" where
  "lock_next i ts =
     (if i < length ts then
        (case ts ! i of
           (hs, a # p) \<Rightarrow> (if may ts hs a then Some (ts[i := act hs a p]) else None)
         | (_, []) \<Rightarrow> None)
      else None)"

text \<open>A schedule says which thread takes each step.\<close>

fun run_locks :: "nat list \<Rightarrow> 'm thread list \<Rightarrow> 'm thread list option" where
  "run_locks [] ts = Some ts"
| "run_locks (i # sched) ts = (case lock_next i ts of None \<Rightarrow> None | Some ts' \<Rightarrow> run_locks sched ts')"

lemma lock_nextE:
  assumes "lock_next i ts = Some ts'"
  obtains hs a p where "i < length ts" "ts ! i = (hs, a # p)" "may ts hs a" "ts' = ts[i := act hs a p]"
  using assms by (auto simp: lock_next_def split: if_splits prod.splits list.splits)

section \<open>The discipline\<close>

text \<open>
  With a rank for every lock: a lock is taken only while all that are held have a smaller rank, data is accessed under its lock (written under the lock for writing), only what is held is released, and nothing is held in the end.
\<close>

fun disciplined :: "('m \<Rightarrow> nat) \<Rightarrow> 'm holds \<Rightarrow> 'm action list \<Rightarrow> bool" where
  "disciplined rk hs [] = (hs = [])"
| "disciplined rk hs (RLock m # p) = (list_all (\<lambda>h. rk (fst h) < rk m) hs \<and> disciplined rk ((m, Shared) # hs) p)"
| "disciplined rk hs (Lock m # p) = (list_all (\<lambda>h. rk (fst h) < rk m) hs \<and> disciplined rk ((m, Exclusive) # hs) p)"
| "disciplined rk hs (Enter m # p) =
     (case hs of [] \<Rightarrow> False
      | h # hs' \<Rightarrow> h = (m, Announced) \<and> list_all (\<lambda>h. rk (fst h) < rk m) hs' \<and> disciplined rk ((m, Exclusive) # hs') p)"
| "disciplined rk hs (RUnlock m # p) = ((m, Shared) \<in> set hs \<and> disciplined rk (remove1 (m, Shared) hs) p)"
| "disciplined rk hs (Unlock m # p) = ((m, Exclusive) \<in> set hs \<and> disciplined rk (remove1 (m, Exclusive) hs) p)"
| "disciplined rk hs (Reads m # p) = (((m, Shared) \<in> set hs \<or> (m, Exclusive) \<in> set hs) \<and> disciplined rk hs p)"
| "disciplined rk hs (Writes m # p) = ((m, Exclusive) \<in> set hs \<and> disciplined rk hs p)"

abbreviation all_disciplined :: "('m \<Rightarrow> nat) \<Rightarrow> 'm thread list \<Rightarrow> bool" where
  "all_disciplined rk \<equiv> list_all (\<lambda>t. disciplined rk (fst t) (snd t))"

lemma disciplined_act: "disciplined rk hs (a # p) \<Longrightarrow> disciplined rk (fst (act hs a p)) (snd (act hs a p))"
  by (cases a) (auto split: list.splits)

lemma all_disciplined_next: "lock_next i ts = Some ts' \<Longrightarrow> all_disciplined rk ts \<Longrightarrow> all_disciplined rk ts'"
  by (erule lock_nextE) (auto simp: list_all_length nth_list_update disciplined_act dest: disciplined_act)

section \<open>Mutual exclusion\<close>

fun clash :: "mode \<Rightarrow> mode \<Rightarrow> bool" where
  "clash Shared md = (md = Exclusive)"
| "clash Announced md = (md \<noteq> Shared)"
| "clash Exclusive md = True"

lemma clash_sym: "clash a b = clash b a"
  by (cases a; cases b) simp_all

definition exclusive :: "'m thread list \<Rightarrow> bool" where
  "exclusive ts \<longleftrightarrow> (\<forall>i < length ts. \<forall>j < length ts. i \<noteq> j \<longrightarrow>
     (\<forall>m a b. (m, a) \<in> set (fst (ts ! i)) \<longrightarrow> (m, b) \<in> set (fst (ts ! j)) \<longrightarrow> \<not> clash a b))"

lemma someone_iff: "someone ts m md \<longleftrightarrow> (\<exists>j < length ts. (m, md) \<in> set (fst (ts ! j)))"
  by (auto simp: someone_def list_ex_length)

text \<open>What a step newly holds clashes with nothing that another thread holds.\<close>

lemma act_holds:
  assumes "(m, a) \<in> set (fst (act hs b p))" "may ts hs b"
  shows "(m, a) \<in> set hs \<or> \<not> someone ts m Announced \<and> \<not> someone ts m Exclusive \<and> a \<noteq> Exclusive \<or>
    a = Exclusive \<and> (m, Announced) \<in> set hs \<and> \<not> someone ts m Shared"
  using assms by (cases b) (auto dest: set_remove1_subset [THEN subsetD])

lemma exclusive_next:
  assumes "lock_next i ts = Some ts'" "exclusive ts"
  shows "exclusive ts'"
proof -
  from assms(1) obtain hs b p where s: "i < length ts" "ts ! i = (hs, b # p)" "may ts hs b" "ts' = ts[i := act hs b p]" by (rule lock_nextE)
  have new: "\<not> clash a c" if "(m, a) \<in> set (fst (act hs b p))" "j < length ts" "j \<noteq> i" "(m, c) \<in> set (fst (ts ! j))" for m a c j
  proof -
    have old: "\<not> clash a' c" if "(m, a') \<in> set hs" for a'
      using assms(2) s(1,2) that \<open>j < length ts\<close> \<open>j \<noteq> i\<close> \<open>(m, c) \<in> _\<close> unfolding exclusive_def by (metis fst_conv)
    have other: "someone ts m c" using that(2,4) by (auto simp: someone_iff)
    from act_holds [OF that(1) s(3)] old [of a] old [of Announced] other show ?thesis by (cases a; cases c) auto
  qed
  show ?thesis unfolding exclusive_def s(4)
  proof (intro allI impI)
    fix k l m a c
    assume *: "k < length (ts[i := act hs b p])" "l < length (ts[i := act hs b p])" "k \<noteq> l"
      "(m, a) \<in> set (fst (ts[i := act hs b p] ! k))" "(m, c) \<in> set (fst (ts[i := act hs b p] ! l))"
    consider "k = i" | "l = i" | "k \<noteq> i" "l \<noteq> i" by blast
    then show "\<not> clash a c"
    proof cases
      case 1
      with * s(1) new [of m a l c] show ?thesis by simp
    next
      case 2
      with * s(1) new [of m c k a] show ?thesis by (simp add: clash_sym)
    next
      case 3
      with * assms(2) show ?thesis unfolding exclusive_def by simp
    qed
  qed
qed

text \<open>Two threads are never about to access the same data, one of them to write it.\<close>

definition race_free :: "'m thread list \<Rightarrow> bool" where
  "race_free ts \<longleftrightarrow> (\<forall>i < length ts. \<forall>j < length ts. \<forall>m p q. i \<noteq> j \<longrightarrow> snd (ts ! i) = Writes m # p \<longrightarrow>
     snd (ts ! j) \<noteq> Reads m # q \<and> snd (ts ! j) \<noteq> Writes m # q)"

lemma disciplined_race_free:
  assumes "all_disciplined rk ts" "exclusive ts"
  shows "race_free ts"
  unfolding race_free_def
proof (intro allI impI)
  fix i j m p q
  assume *: "i < length ts" "j < length ts" "i \<noteq> j" "snd (ts ! i) = Writes m # p"
  from assms(1) * have w: "(m, Exclusive) \<in> set (fst (ts ! i))" by (force simp: list_all_length)
  have "\<not> ((m, Shared) \<in> set (fst (ts ! j)) \<or> (m, Exclusive) \<in> set (fst (ts ! j)))"
    using assms(2) * w unfolding exclusive_def by (metis clash.simps(3))
  moreover have "disciplined rk (fst (ts ! j)) (snd (ts ! j))" using assms(1) *(2) by (simp add: list_all_length)
  ultimately show "snd (ts ! j) \<noteq> Reads m # q \<and> snd (ts ! j) \<noteq> Writes m # q" by auto
qed

section \<open>No deadlock\<close>

text \<open>
  A thread that has to wait waits for a lock that another one holds, which has to wait too, for a lock of a larger rank; a writer that waits to enter counts half a rank more.
\<close>

fun level :: "('m \<Rightarrow> nat) \<Rightarrow> 'm thread \<Rightarrow> nat" where
  "level rk (hs, RLock m # p) = 2 * rk m"
| "level rk (hs, Lock m # p) = 2 * rk m"
| "level rk (hs, Enter m # p) = 2 * rk m + 1"
| "level rk _ = 0"

lemma waiting_level:
  assumes "disciplined rk hs (a # p)" "\<not> may ts hs a" "(m, md) \<in> set hs"
  shows "2 * rk m < level rk (hs, a # p)" "md = Shared \<Longrightarrow> 2 * rk m + 1 < level rk (hs, a # p)"
  using assms by (cases a; force simp: list_all_iff split: list.splits)+

lemma waits_for:
  assumes "disciplined rk hs (a # p)" "\<not> may ts hs a"
  shows "\<exists>t\<in>set ts. \<exists>m md. (m, md) \<in> set (fst t) \<and> (level rk (hs, a # p) = 2 * rk m \<or> level rk (hs, a # p) = 2 * rk m + 1 \<and> md = Shared)"
  using assms by (cases a) (auto simp: someone_def list_ex_iff split: list.splits)

lemma no_deadlock:
  assumes "all_disciplined rk ts"
  shows "(\<exists>i ts'. lock_next i ts = Some ts') \<or> list_all (\<lambda>t. t = ([], [])) ts"
proof (rule ccontr)
  assume stuck: "\<not> ?thesis"
  have blocked: "\<not> may ts hs a" if "(hs, a # p) \<in> set ts" for hs a p
  proof
    assume "may ts hs a"
    moreover from that obtain i where "i < length ts" "ts ! i = (hs, a # p)" by (auto simp: in_set_conv_nth)
    ultimately have "lock_next i ts = Some (ts[i := act hs a p])" by (simp add: lock_next_def)
    with stuck show False by blast
  qed
  have disc: "disciplined rk (fst t) (snd t)" if "t \<in> set ts" for t using assms that by (simp add: list_all_iff)
  let ?W = "{t \<in> set ts. snd t \<noteq> []}"
  have "?W \<noteq> {}"
  proof -
    from stuck obtain t where "t \<in> set ts" "t \<noteq> ([], [])" by (auto simp: list_all_iff)
    with disc [of t] have "snd t \<noteq> []" by (cases t) auto
    with \<open>t \<in> set ts\<close> show ?thesis by blast
  qed
  then have "Max (level rk ` ?W) \<in> level rk ` ?W" by (intro Max_in) simp_all
  then obtain t where t: "t \<in> ?W" "level rk t = Max (level rk ` ?W)" by (metis (no_types, lifting) imageE)
  have top: "level rk t' \<le> level rk t" if "t' \<in> ?W" for t' unfolding t(2) using that by (intro Max_ge) simp_all
  from t(1) obtain hs a p where tp: "t = (hs, a # p)" "(hs, a # p) \<in> set ts" by (cases t; cases "snd t") auto
  from waits_for [OF _ blocked [OF tp(2)]] disc [OF tp(2)] obtain u m md where
    u: "u \<in> set ts" "(m, md) \<in> set (fst u)" "level rk t = 2 * rk m \<or> level rk t = 2 * rk m + 1 \<and> md = Shared"
    unfolding tp(1) by (metis fst_conv snd_conv)
  from disc [OF u(1)] u(2) obtain hs' b q where uq: "u = (hs', b # q)" by (cases u; cases "snd u") auto
  with disc [OF u(1)] u waiting_level [of rk hs' b q ts m md] blocked [of hs' b q] have "level rk t < level rk u" by auto
  with top [of u] u(1) uq show False by simp
qed

section \<open>No endless run\<close>

fun steps_of :: "'m action \<Rightarrow> nat" where
  "steps_of (Lock m) = 2"
| "steps_of _ = 1"

definition work :: "'m thread list \<Rightarrow> nat" where
  "work ts = sum_list (map (\<lambda>t. sum_list (map steps_of (snd t))) ts)"

lemma work_next: "lock_next i ts = Some ts' \<Longrightarrow> work ts = Suc (work ts')"
proof (erule lock_nextE)
  fix hs a p assume s: "i < length ts" "ts ! i = (hs, a # p)" "ts' = ts[i := act hs a p]"
  let ?w = "\<lambda>t :: 'a thread. sum_list (map steps_of (snd t))"
  have step: "?w (ts ! i) = Suc (?w (act hs a p))" using s(2) by (cases a) simp_all
  have "ts = take i ts @ ts ! i # drop (Suc i) ts" "ts' = take i ts @ act hs a p # drop (Suc i) ts"
    using s(1,3) by (simp_all add: id_take_nth_drop upd_conv_take_nth_drop)
  then have "work ts = work (take i ts) + ?w (ts ! i) + work (drop (Suc i) ts)" "work ts' = work (take i ts) + ?w (act hs a p) + work (drop (Suc i) ts)"
    unfolding work_def by (metis (no_types, lifting) append_assoc map_append sum_list.append sum_list.Cons list.map(2) add.assoc)+
  with step show ?thesis by simp
qed

text \<open>Any schedule, from threads that have done nothing.\<close>

lemma run_locks_sound:
  assumes "run_locks sched ts = Some ts'" "all_disciplined rk ts" "exclusive ts"
  shows "all_disciplined rk ts' \<and> exclusive ts' \<and> length sched + work ts' = work ts"
  using assms
proof (induction sched arbitrary: ts)
  case (Cons i sched)
  from Cons.prems(1) obtain ts1 where "lock_next i ts = Some ts1" "run_locks sched ts1 = Some ts'" by (auto split: option.splits)
  with Cons.IH [of ts1] Cons.prems(2,3) show ?case using all_disciplined_next exclusive_next work_next by fastforce
qed simp

section \<open>Putting programs together\<close>

text \<open>A part of a program that can stand wherever the locks \<open>hs\<close> are held, and leaves them held.\<close>

definition balanced :: "('m \<Rightarrow> nat) \<Rightarrow> 'm holds \<Rightarrow> 'm action list \<Rightarrow> bool" where
  "balanced rk hs p \<longleftrightarrow> (\<forall>q. disciplined rk hs q \<longrightarrow> disciplined rk hs (p @ q))"

lemma balanced_disciplined: "balanced rk [] p \<Longrightarrow> disciplined rk [] p"
  unfolding balanced_def by (metis append_Nil2 disciplined.simps(1))

lemma balanced_Nil [simp]: "balanced rk hs []"
  by (simp add: balanced_def)

lemma balanced_append: "balanced rk hs p \<Longrightarrow> balanced rk hs q \<Longrightarrow> balanced rk hs (p @ q)"
  by (simp add: balanced_def)

lemma balanced_concat: "(\<And>p. p \<in> set ps \<Longrightarrow> balanced rk hs p) \<Longrightarrow> balanced rk hs (concat ps)"
  by (induction ps) (simp_all add: balanced_append)

lemma balanced_Reads: "balanced rk hs p \<Longrightarrow> (m, Shared) \<in> set hs \<or> (m, Exclusive) \<in> set hs \<Longrightarrow> balanced rk hs (Reads m # p)"
  by (simp add: balanced_def)

lemma balanced_Writes: "balanced rk hs p \<Longrightarrow> (m, Exclusive) \<in> set hs \<Longrightarrow> balanced rk hs (Writes m # p)"
  by (simp add: balanced_def)

text \<open>A part under a lock, which it takes and releases.\<close>

definition locked :: "'m \<Rightarrow> 'm action list \<Rightarrow> 'm action list" where
  "locked m p = Lock m # p @ [Unlock m]"

definition rlocked :: "'m \<Rightarrow> 'm action list \<Rightarrow> 'm action list" where
  "rlocked m p = RLock m # p @ [RUnlock m]"

lemma balanced_locked:
  "list_all (\<lambda>h. rk (fst h) < rk m) hs \<Longrightarrow> balanced rk ((m, Exclusive) # hs) p \<Longrightarrow> balanced rk hs (locked m p)"
  by (simp add: balanced_def locked_def)

lemma balanced_rlocked:
  "list_all (\<lambda>h. rk (fst h) < rk m) hs \<Longrightarrow> balanced rk ((m, Shared) # hs) p \<Longrightarrow> balanced rk hs (rlocked m p)"
  by (simp add: balanced_def rlocked_def)

lemmas balanced_rules = balanced_append balanced_concat balanced_Reads balanced_Writes balanced_locked balanced_rlocked

end
