(* ===== verification/Lock_Programs.thy ===== *)
theory Lock_Programs
  imports Locks Keys Store_Interface
begin

text \<open>
  What every operation of the repository does to its locks, branch by branch, and which guarded data it reads and writes meanwhile. The data of a structure stands for all fields its lock guards: the objects and counters of the store, the
  slices and maps of the pools, the maps of the indexer, the flag of the cache, the map of informers, the handlers and the flag of an informer, the entries of an LRU, the clients of a manager. No goroutine does both at once, so a
  goroutine is the list of operations that it performs; handlers of events run without any lock, so their calls are further operations of the goroutine of the informer. Index functions run under the lock of the indexer and
  are taken to use no lock. An access is to the whole of what a lock guards, so a program may access more than the code does, never less. Interning nil takes no lock and is no operation here; the lengths of the pools are read as
  \<open>Resolve\<close> reads; one turn of the loop of \<open>WaitForCacheSync\<close> is one operation.
\<close>

section \<open>The locks\<close>

text \<open>The LRU 0 is that of the cache, the LRU \<open>Suc i\<close> that of the client \<open>i\<close> of a manager.\<close>

datatype mutex = StoreMu | ValuesMu | SubtreesMu | IndexerMu | CacheMu | MapMu | InformerMu gvk | LruMu nat | ManagerMu

fun rank :: "mutex \<Rightarrow> nat" where
  "rank StoreMu = 0"
| "rank MapMu = 0"
| "rank ManagerMu = 0"
| "rank _ = 1"

type_synonym program = "mutex action list"

definition reading :: "mutex \<Rightarrow> program" where
  "reading m = [RLock m, Reads m, RUnlock m]"

definition changing :: "mutex \<Rightarrow> program" where
  "changing m = [Lock m, Reads m, Writes m, Unlock m]"

section \<open>The pools and the store\<close>

text \<open>An operation that looks twice: found under the read lock, found under the write lock, or inserted.\<close>

datatype look = FoundFast | FoundLate | Inserted

fun double_check_locks :: "mutex \<Rightarrow> look \<Rightarrow> program" where
  "double_check_locks m FoundFast = [RLock m, Reads m, RUnlock m]"
| "double_check_locks m FoundLate = [RLock m, Reads m, RUnlock m, Lock m, Reads m, Unlock m]"
| "double_check_locks m Inserted = [RLock m, Reads m, RUnlock m, Lock m, Reads m, Writes m, Unlock m]"

datatype pool = ValuePool | SubtreePool

fun pool_mu :: "pool \<Rightarrow> mutex" where
  "pool_mu ValuePool = ValuesMu"
| "pool_mu SubtreePool = SubtreesMu"

definition Intern_locks :: "pool \<Rightarrow> look \<Rightarrow> program" where
  "Intern_locks pl look = double_check_locks (pool_mu pl) look"

definition Resolve_locks :: "pool \<Rightarrow> program" where
  "Resolve_locks pl = reading (pool_mu pl)"

definition DeleteUnreachable_locks :: "pool \<Rightarrow> program" where
  "DeleteUnreachable_locks pl = changing (pool_mu pl)"

text \<open>The interning of a tree, the reconstruction of one, and a walk that changes counters.\<close>

definition decompose_locks :: "(pool \<times> look) list \<Rightarrow> program" where
  "decompose_locks uses = concat (map (\<lambda>(pl, look). Intern_locks pl look) uses)"

definition reconstruct_locks :: "pool list \<Rightarrow> program" where
  "reconstruct_locks uses = concat (map Resolve_locks uses)"

definition refs_locks :: "nat \<Rightarrow> program" where
  "refs_locks n = concat (replicate n ([Reads StoreMu, Writes StoreMu] @ Resolve_locks SubtreePool))"

text \<open>The old object, if there is one, has so many nodes to visit, the new one so many.\<close>

definition Upsert_locks :: "(pool \<times> look) list \<Rightarrow> nat option \<Rightarrow> nat \<Rightarrow> program" where
  "Upsert_locks uses old new =
     locked StoreMu (decompose_locks uses @ Reads StoreMu # (case old of None \<Rightarrow> [] | Some n \<Rightarrow> refs_locks n) @ Writes StoreMu # refs_locks new)"

definition Delete_locks :: "nat option \<Rightarrow> program" where
  "Delete_locks found =
     locked StoreMu (Reads StoreMu # (case found of None \<Rightarrow> [] | Some n \<Rightarrow> refs_locks n @ Writes StoreMu # []))"

definition Get_locks :: "pool list option \<Rightarrow> program" where
  "Get_locks found = rlocked StoreMu (Reads StoreMu # (case found of None \<Rightarrow> [] | Some uses \<Rightarrow> reconstruct_locks uses))"

definition List_locks :: "pool list \<Rightarrow> program" where
  "List_locks uses = rlocked StoreMu (Reads StoreMu # reconstruct_locks uses)"

definition GC_locks :: "nat \<Rightarrow> program" where
  "GC_locks n =
     locked StoreMu (Reads StoreMu # Writes StoreMu # reconstruct_locks (replicate n SubtreePool) @
       DeleteUnreachable_locks SubtreePool @ DeleteUnreachable_locks ValuePool)"

section \<open>The LRUs, the indexer, the informers\<close>

definition lru_get_locks :: "nat \<Rightarrow> bool \<Rightarrow> program" where
  "lru_get_locks i hit = locked (LruMu i) (Reads (LruMu i) # (if hit then Writes (LruMu i) # [] else []))"

definition lru_put_locks :: "nat \<Rightarrow> program" where
  "lru_put_locks i = changing (LruMu i)"

definition lru_delete_locks :: "nat \<Rightarrow> bool \<Rightarrow> program" where
  "lru_delete_locks i found = locked (LruMu i) (Reads (LruMu i) # (if found then Writes (LruMu i) # [] else []))"

definition AddIndex_locks :: program where
  "AddIndex_locks = changing IndexerMu"

definition Lookup_locks :: program where
  "Lookup_locks = reading IndexerMu"

definition UpdateIndex_locks :: program where
  "UpdateIndex_locks = changing IndexerMu"

definition RemoveIndex_locks :: program where
  "RemoveIndex_locks = changing IndexerMu"

definition AddEventHandler_locks :: "gvk \<Rightarrow> program" where
  "AddEventHandler_locks g = changing (InformerMu g)"

definition HasSynced_locks :: "gvk \<Rightarrow> program" where
  "HasSynced_locks g = reading (InformerMu g)"

text \<open>The parts of a run: the items of a list, the flag, an event. The handlers are read under the lock and called after it.\<close>

definition list_locks :: "((pool \<times> look) list \<times> nat option \<times> nat) list \<Rightarrow> program" where
  "list_locks items = concat (map (\<lambda>(uses, old, new). Upsert_locks uses old new @ UpdateIndex_locks) items)"

definition synced_locks :: "gvk \<Rightarrow> program" where
  "synced_locks g = [Lock (InformerMu g), Writes (InformerMu g), Unlock (InformerMu g)]"

text \<open>A modification looks for the old object first (\<open>existing\<close>), an addition does not.\<close>

definition stored_event_locks :: "gvk \<Rightarrow> pool list option option \<Rightarrow> (pool \<times> look) list \<Rightarrow> nat option \<Rightarrow> nat \<Rightarrow> program" where
  "stored_event_locks g existing uses old new =
     (case existing of None \<Rightarrow> [] | Some found \<Rightarrow> Get_locks found) @ Upsert_locks uses old new @ UpdateIndex_locks @ reading (InformerMu g)"

definition deleted_event_locks :: "gvk \<Rightarrow> nat option \<Rightarrow> program" where
  "deleted_event_locks g found = Delete_locks found @ RemoveIndex_locks @ reading (InformerMu g)"

section \<open>The cache and the map of informers\<close>

definition GetOrCreate_locks :: "look \<Rightarrow> program" where
  "GetOrCreate_locks look = double_check_locks MapMu look"

definition EnsureInformer_locks :: "gvk \<Rightarrow> look \<Rightarrow> bool \<Rightarrow> program" where
  "EnsureInformer_locks g look started = GetOrCreate_locks look @ reading CacheMu @ (if started then HasSynced_locks g else [])"

text \<open>\<open>lru\<close> is whether there is an LRU, and whether it has the key.\<close>

definition Cache_Get_locks :: "gvk \<Rightarrow> look \<Rightarrow> bool \<Rightarrow> bool option \<Rightarrow> pool list option \<Rightarrow> program" where
  "Cache_Get_locks g look started lru found =
     EnsureInformer_locks g look started @
     (case lru of
        None \<Rightarrow> Get_locks found
      | Some hit \<Rightarrow>
          lru_get_locks 0 hit @ (if hit then [] else Get_locks found @ (if found \<noteq> None then lru_put_locks 0 else [])))"

definition Cache_List_locks :: "gvk \<Rightarrow> look \<Rightarrow> bool \<Rightarrow> pool list \<Rightarrow> program" where
  "Cache_List_locks g look started uses = EnsureInformer_locks g look started @ List_locks uses"

definition Start_locks :: program where
  "Start_locks = [Lock CacheMu, Writes CacheMu, Unlock CacheMu] @ [RLock MapMu, Reads MapMu, RUnlock MapMu]"

text \<open>One turn of \<open>WaitForCacheSync\<close> asks so many informers, under the lock of the map.\<close>

definition WaitForCacheSync_locks :: "gvk list \<Rightarrow> program" where
  "WaitForCacheSync_locks gs = rlocked MapMu (Reads MapMu # concat (map HasSynced_locks gs))"

section \<open>The clients\<close>

definition Client_Get_locks :: "nat \<Rightarrow> bool option \<Rightarrow> program \<Rightarrow> program" where
  "Client_Get_locks i lru from_cache =
     (case lru of None \<Rightarrow> from_cache | Some hit \<Rightarrow> lru_get_locks (Suc i) hit @ (if hit then [] else from_cache))"

text \<open>The LRU of the cache, if it has one, and those of the clients of the manager, if there is one.\<close>

definition invalidate_locks :: "bool option \<Rightarrow> (nat \<times> bool) list option \<Rightarrow> program" where
  "invalidate_locks cache clients =
     (case cache of None \<Rightarrow> [] | Some found \<Rightarrow> lru_delete_locks 0 found) @
     (case clients of
        None \<Rightarrow> []
      | Some cs \<Rightarrow> rlocked ManagerMu (Reads ManagerMu # concat (map (\<lambda>(i, found). lru_delete_locks (Suc i) found) cs)))"

definition NewClient_locks :: program where
  "NewClient_locks = changing ManagerMu"

section \<open>All operations\<close>

text \<open>Those of the store, the pools and the indexer, which other packages may call too, those of the runs of the informers, and those of the cache and the clients.\<close>

datatype operation =
    DoIntern pool look | DoResolve pool
  | DoUpsert "(pool \<times> look) list" "nat option" nat | DoDelete "nat option" | DoGet "pool list option" | DoList "pool list" | DoGC nat
  | DoAddIndex | DoLookup | DoAddEventHandler gvk | DoHasSynced gvk
  | DoRunList "((pool \<times> look) list \<times> nat option \<times> nat) list" | DoRunSynced gvk
  | DoStoredEvent gvk "pool list option option" "(pool \<times> look) list" "nat option" nat | DoDeletedEvent gvk "nat option"
  | DoCacheGet gvk look bool "bool option" "pool list option" | DoCacheList gvk look bool "pool list" | DoStart | DoPoll "gvk list"
  | DoClientGet nat "bool option" gvk look bool "bool option" "pool list option"
  | DoClientWrite "(pool \<times> look) list" "nat option" nat "bool option" "(nat \<times> bool) list option"
  | DoClientDelete "nat option" "bool option" "(nat \<times> bool) list option"
  | DoClientDeleteAllOf "pool list" "(nat option \<times> bool option \<times> (nat \<times> bool) list option) list"
  | DoNewClient

fun op_locks :: "operation \<Rightarrow> program" where
  "op_locks (DoIntern pl look) = Intern_locks pl look"
| "op_locks (DoResolve pl) = Resolve_locks pl"
| "op_locks (DoUpsert uses old new) = Upsert_locks uses old new"
| "op_locks (DoDelete found) = Delete_locks found"
| "op_locks (DoGet found) = Get_locks found"
| "op_locks (DoList uses) = List_locks uses"
| "op_locks (DoGC n) = GC_locks n"
| "op_locks DoAddIndex = AddIndex_locks"
| "op_locks DoLookup = Lookup_locks"
| "op_locks (DoAddEventHandler g) = AddEventHandler_locks g"
| "op_locks (DoHasSynced g) = HasSynced_locks g"
| "op_locks (DoRunList items) = list_locks items"
| "op_locks (DoRunSynced g) = synced_locks g"
| "op_locks (DoStoredEvent g existing uses old new) = stored_event_locks g existing uses old new"
| "op_locks (DoDeletedEvent g found) = deleted_event_locks g found"
| "op_locks (DoCacheGet g look started lru found) = Cache_Get_locks g look started lru found"
| "op_locks (DoCacheList g look started uses) = Cache_List_locks g look started uses"
| "op_locks DoStart = Start_locks"
| "op_locks (DoPoll gs) = WaitForCacheSync_locks gs"
| "op_locks (DoClientGet i own g look started lru found) = Client_Get_locks i own (Cache_Get_locks g look started lru found)"
| "op_locks (DoClientWrite uses old new cache clients) = Upsert_locks uses old new @ invalidate_locks cache clients"
| "op_locks (DoClientDelete found cache clients) = Delete_locks found @ invalidate_locks cache clients"
| "op_locks (DoClientDeleteAllOf uses items) =
     List_locks uses @ concat (map (\<lambda>(found, cache, clients). Delete_locks found @ invalidate_locks cache clients) items)"
| "op_locks DoNewClient = NewClient_locks"

definition goroutines :: "operation list list \<Rightarrow> mutex thread list" where
  "goroutines os = map (\<lambda>ops. ([], concat (map op_locks ops))) os"

section \<open>Every program follows the discipline\<close>

abbreviation below :: "mutex holds \<Rightarrow> mutex \<Rightarrow> bool" where
  "below hs m \<equiv> list_all (\<lambda>h. rank (fst h) < rank m) hs"

lemma leaf_balanced:
  assumes "below hs m"
  shows "balanced rank hs (reading m)" "balanced rank hs (changing m)" "balanced rank hs (double_check_locks m look)"
  using assms by (simp add: balanced_def reading_def) (use assms in \<open>cases look; simp add: balanced_def changing_def\<close>)+

lemma lru_balanced:
  assumes "below hs (LruMu i)"
  shows "balanced rank hs (lru_get_locks i hit)" "balanced rank hs (lru_delete_locks i found)"
  unfolding lru_get_locks_def lru_delete_locks_def using assms by (auto intro!: balanced_rules)

text \<open>Under the lock of the store, only the pools are used.\<close>

lemma pool_below: "fst h = StoreMu \<Longrightarrow> below [h] (pool_mu pl)"
  by (cases pl) simp_all

lemma tree_balanced:
  assumes "fst h = StoreMu"
  shows "balanced rank [h] (decompose_locks uses)" "balanced rank [h] (reconstruct_locks ps)" "balanced rank [h] (DeleteUnreachable_locks pl)"
  unfolding decompose_locks_def reconstruct_locks_def Intern_locks_def Resolve_locks_def DeleteUnreachable_locks_def
  using leaf_balanced [OF pool_below [OF assms]] by (auto intro!: balanced_rules)

lemma refs_balanced: "balanced rank [(StoreMu, Exclusive)] (refs_locks n)"
proof -
  have "balanced rank [(StoreMu, Exclusive)] (Resolve_locks SubtreePool)" using leaf_balanced(1) by (simp add: Resolve_locks_def)
  then show ?thesis unfolding refs_locks_def by (auto intro!: balanced_rules split: if_splits)
qed

lemma store_balanced:
  "balanced rank [] (Upsert_locks uses old new)" "balanced rank [] (Delete_locks found)" "balanced rank [] (Get_locks got)"
  "balanced rank [] (List_locks ps)" "balanced rank [] (GC_locks n)"
  unfolding Upsert_locks_def Delete_locks_def Get_locks_def List_locks_def GC_locks_def
  by (auto intro!: balanced_rules tree_balanced refs_balanced split: option.split)

lemma cache_balanced:
  "balanced rank [] (EnsureInformer_locks g look started)" "balanced rank [] (WaitForCacheSync_locks gs)"
  "balanced rank [] (Cache_Get_locks g look started lru found)" "balanced rank [] (Cache_List_locks g look started ps)"
proof -
  have leaf: "balanced rank [] (double_check_locks MapMu look)" "balanced rank [] (reading m)" "balanced rank [] (changing m)" for m
    by (simp_all add: leaf_balanced)
  show ensure: "balanced rank [] (EnsureInformer_locks g look started)"
    unfolding EnsureInformer_locks_def GetOrCreate_locks_def HasSynced_locks_def using leaf by (auto intro!: balanced_rules)
  show "balanced rank [] (WaitForCacheSync_locks gs)"
    unfolding WaitForCacheSync_locks_def HasSynced_locks_def by (auto intro!: balanced_rules leaf_balanced)
  show "balanced rank [] (Cache_Get_locks g look started lru found)" "balanced rank [] (Cache_List_locks g look started ps)"
    unfolding Cache_Get_locks_def Cache_List_locks_def lru_put_locks_def
    using ensure leaf store_balanced lru_balanced by (auto intro!: balanced_append split: option.split)
qed

lemma invalidate_balanced: "balanced rank [] (invalidate_locks cache clients)"
  unfolding invalidate_locks_def by (auto intro!: balanced_rules lru_balanced split: option.split)

lemma op_balanced: "balanced rank [] (op_locks c)"
proof (cases c)
  case (DoIntern pl look)
  then show ?thesis by (simp add: Intern_locks_def leaf_balanced)
next
  case (DoRunList items)
  then show ?thesis using store_balanced(1) leaf_balanced(2) by (auto simp: list_locks_def UpdateIndex_locks_def intro!: balanced_rules)
next
  case (DoStoredEvent g existing uses old new)
  then show ?thesis using store_balanced leaf_balanced by (auto simp: stored_event_locks_def UpdateIndex_locks_def intro!: balanced_append split: option.split)
next
  case (DoDeletedEvent g found)
  then show ?thesis using store_balanced leaf_balanced by (auto simp: deleted_event_locks_def RemoveIndex_locks_def intro!: balanced_append)
next
  case (DoClientGet i own g look started lru found)
  then show ?thesis using cache_balanced(3) lru_balanced by (auto simp: Client_Get_locks_def intro!: balanced_append split: option.split)
next
  case (DoClientDeleteAllOf uses items)
  then show ?thesis using store_balanced invalidate_balanced by (auto intro!: balanced_rules)
qed (use store_balanced cache_balanced invalidate_balanced in \<open>auto intro: balanced_append simp: leaf_balanced Resolve_locks_def AddIndex_locks_def Lookup_locks_def
    AddEventHandler_locks_def HasSynced_locks_def NewClient_locks_def\<close>, simp_all add: balanced_def synced_locks_def Start_locks_def)

lemma goroutines_start: "all_disciplined rank (goroutines os)" "exclusive (goroutines os)"
proof -
  have "disciplined rank [] (concat (map op_locks ops))" for ops
    by (intro balanced_disciplined balanced_concat) (auto simp: op_balanced)
  then show "all_disciplined rank (goroutines os)" by (simp add: goroutines_def list_all_iff)
  show "exclusive (goroutines os)" by (simp add: exclusive_def goroutines_def)
qed

section \<open>No data race and no deadlock\<close>

text \<open>
  C32 (liveness): the locks are used soundly. Let any number of goroutines perform any operations of the store, the pools, the indexer, the informers, the cache and the clients, on any of their branches, and take any schedule of their steps,
  with Go's locks, on which a waiting writer keeps readers out. At every moment no two goroutines are about to access the data of one structure with one of them writing it; either all have finished and no lock is held, or some
  goroutine can take a step; and the steps that are left are those of the programs that have not been taken, so every run ends, whatever the schedule.
\<close>

theorem locks_sound:
  assumes "run_locks sched (goroutines os) = Some ts"
  shows "race_free ts \<and> ((\<exists>i ts'. lock_next i ts = Some ts') \<or> list_all (\<lambda>t. t = ([], [])) ts) \<and>
    length sched + work ts = work (goroutines os)"
  using run_locks_sound [OF assms goroutines_start] disciplined_race_free no_deadlock by blast

text \<open>A write of a client of a manager against a Get that misses, stopped while the writer waits for the store that the reader has locked.\<close>

theorem locks_sound_witness:
  "let os = [[DoClientWrite [(ValuePool, Inserted), (SubtreePool, Inserted)] None 1 None (Some [(0, True)])],
             [DoClientGet 0 (Some False) \<lparr>gvk_group = '''', gvk_version = ''v1'', gvk_kind = ''Pod''\<rparr> FoundFast True None (Some [SubtreePool, ValuePool])]];
       sched = replicate 14 1 @ [0] @ replicate 6 1
   in \<exists>ts. run_locks sched (goroutines os) = Some ts \<and> someone ts StoreMu Announced \<and> someone ts StoreMu Shared \<and> lock_next 0 ts = None \<and>
        race_free ts \<and> (\<exists>i ts'. lock_next i ts = Some ts') \<and> work ts = work (goroutines os) - 21"
proof -
  let ?os = "[[DoClientWrite [(ValuePool, Inserted), (SubtreePool, Inserted)] None 1 None (Some [(0, True)])],
             [DoClientGet 0 (Some False) \<lparr>gvk_group = '''', gvk_version = ''v1'', gvk_kind = ''Pod''\<rparr> FoundFast True None (Some [SubtreePool, ValuePool])]]"
  let ?sched = "replicate 14 1 @ [0] @ replicate 6 1 :: nat list"
  let ?ts = "the (run_locks ?sched (goroutines ?os))"
  have run: "run_locks ?sched (goroutines ?os) = Some ?ts" by code_simp
  have at: "someone ?ts StoreMu Announced" "someone ?ts StoreMu Shared" "lock_next 0 ?ts = None" by code_simp+
  have "\<not> list_all (\<lambda>t. t = ([], [])) ?ts" by code_simp
  with locks_sound [OF run] run at show ?thesis unfolding Let_def by (intro exI [of _ ?ts]) auto
qed

end
