(* ===== verification/Spec2Isabelle.thy ===== *)
theory Spec2Isabelle
  imports Store_Properties Cache_Properties Informer_Properties Read_Properties Client_Properties Race_Properties Linearizable Heap_Properties Start_Race Handler_Races Abandoned Lock_Programs
begin

text \<open>
  \<^bold>\<open>A verification library for KubeClient\<close>

  KubeClient is a Kubernetes client in Go whose reads are served from a deduplicated in-memory store. Informers list and watch
  the API server and feed the store; writes go to the API server first and then to the store. An object is a tree of maps, slices
  and scalars. The store keeps every distinct scalar once (the value pool) and every distinct subtree once (the subtree pool), so
  an object is the identifier of a root node; reference counts and a mark-and-sweep collection reclaim what no object uses.

  \<^bold>\<open>Theories and sources.\<close> Each theory has the operations of one file of the repository, under the names of the code.

    \<^item> \<open>Prelude\<close>: Go maps as association lists (any order of the entries that the invariants allow is covered, as for a \<open>range\<close>
      loop), loops in the option monad, and \<open>returns m Q\<close>, total correctness: \<open>m\<close> returns, and its result satisfies \<open>Q\<close>.
    \<^item> \<open>Go_Values\<close>: the dynamic values of an unstructured object (\<open>gval\<close>), Go's equality of interface values with NaN and the two
      zeros, and \<open>sem\<close>, the meaning of a tree: what is kept by the normalisation of numbers and by any order of map entries.
    \<^item> \<open>Intern_Pool\<close>, \<open>Value_Pool\<close>, \<open>Subtree_Pool\<close>: \<open>store/intern.go\<close>, \<open>store/node.go\<close> and \<open>store/subtree.go\<close>, with the FNV-1a hash on 64-bit words.
    \<^item> \<open>Keys\<close>, \<open>Codec\<close>: \<open>internal/gvk.go\<close>, \<open>internal/key.go\<close>, \<open>codec/codec.go\<close> and the key of the LRUs.
    \<^item> \<open>Dedup_Core\<close>, \<open>Dedup_Tree\<close>, \<open>Dedup_Refs\<close>, \<open>Dedup_Mark\<close>, \<open>Dedup_Store\<close>, \<open>Dedup_GC\<close>, \<open>Dedup_Counts\<close>, \<open>Store_List\<close>: \<open>store/dedup_store.go\<close> and \<open>store/store.go\<close>:
      decompose and reconstruct; incRef and decRef; the mark phase; Upsert, Delete and Get; GC; the exactness of the counters; List.
    \<^item> \<open>LRU_Cache\<close>, \<open>Indexer\<close>: \<open>cache/lru.go\<close> over a model of \<open>container/list\<close>, with entries at addresses, and \<open>cache/index.go\<close> on nested maps.
    \<^item> \<open>Informer\<close>, \<open>Informer_Run\<close>, \<open>Informer_Exec\<close>: \<open>cache/informer.go\<close>. \<open>handleEvent\<close> and \<open>list\<close> are functions; Run with watchLoop is the step relation \<open>run_step\<close>, and the
      function \<open>run_next\<close> of which it is the graph.
    \<^item> \<open>Object_Cache\<close>, \<open>Cache_Coherence\<close>, \<open>Cache_Lists\<close>: \<open>cache/cache.go\<close> and \<open>cache/informer_map.go\<close>.
    \<^item> \<open>Client\<close>, \<open>Client_Proofs\<close>, \<open>Fleet\<close>: \<open>client_options.go\<close>, \<open>client.go\<close>, \<open>shared_manager.go\<close>. A \<open>fleet\<close> is one cache with the LRU of every client of a manager
      and the requests that the clients have sent to the API server, in their order.
    \<^item> \<open>System\<close>: the whole program, a fleet with the informer runs that its calls have started. Each run steps by \<open>run_step\<close> on the shared store and
      indexer; reads, writes, new clients and Start are the other steps. A history lists what the informers received, what the clients stored and removed, and which Gets were
      answered. \<open>Histories\<close> has what a history says of a single key, and the objects that it names; \<open>Abandoned\<close> the kinds whose runs have all ended.
    \<^item> \<open>Double_Check\<close>, \<open>Races\<close>: concurrency below the grain of a call. \<open>Double_Check\<close> has the operations that look under a read lock and again under a write lock, the two \<open>Intern\<close>s and
      \<open>GetOrCreate\<close>, as two steps between which any other caller may run. \<open>Races\<close> interleaves Get (LRU, store, LRU), List, GC, client writes (store, LRU) and informer writes (store, indexer) access by access;
      \<open>Start_Race\<close> does so with EnsureInformer (map, flag, informer) and Start (flag, map), and \<open>Handler_Races\<close> with handleEvent (store, store, indexer, handlers, and each call of a handler) against anything that others do.
    \<^item> \<open>Locks\<close>, \<open>Lock_Programs\<close>: the mutexes. \<open>Locks\<close> has \<open>sync.Mutex\<close> and \<open>sync.RWMutex\<close> with writers that wait, goroutines as sequences of lock operations and accesses, and what makes such
      programs disciplined; \<open>Lock_Programs\<close> has the lock operations of the functions of the packages store and cache and of the clients, on every path through them, and the goroutines of a program.
    \<^item> \<open>Object_Heap\<close>, \<open>Heap_Races\<close>: objects in memory. The other theories have objects as values; here maps and slices are cells of a heap, \<open>reconstruct\<close> allocates them, the LRU holds references, \<open>FromUnstructured\<close> copies,
      and callers overwrite what they can reach. Every such run is one of \<open>Races\<close>, which is why the other theories may use values.
    \<^item> \<open>Store_Samples\<close>, \<open>Cache_Samples\<close>, \<open>Fleet_Samples\<close>, \<open>Heap_Samples\<close>: the concrete inputs of the witnesses.
    \<^item> \<open>Store_Properties\<close>, \<open>Cache_Properties\<close>, \<open>Informer_Properties\<close>, \<open>Read_Properties\<close>, \<open>Client_Properties\<close>, \<open>Race_Properties\<close>, \<open>Linearizable\<close>, \<open>Start_Race\<close>, \<open>Handler_Races\<close>, \<open>Heap_Properties\<close>, \<open>Abandoned\<close>, \<open>Lock_Programs\<close> and this theory: the properties, each under its identifier.

  \<^bold>\<open>Interfaces.\<close> \<open>Store_Interface\<close> states the contract of an object store (\<open>object_store\<close>): upserts, deletions, reads and collections return, keep the invariant and act on
  an abstract map of keys to meanings as updates, removals, lookups and nothing. \<open>Dedup_GC\<close> interprets it on the deduplicated store as \<open>ds\<close>, and the informer, the cache and
  the clients use only the facts of \<open>ds\<close>. \<open>Cache_Interface\<close> states the contract of a key/value cache that may forget (\<open>kv_cache\<close>); \<open>LRU_Cache\<close> interprets it as \<open>lru\<close>, and
  the coherence proofs use only the facts of \<open>lru\<close>. \<open>Intern_Pool\<close> states the contract of an intern pool (\<open>intern_pool\<close>), interpreted as \<open>vp\<close> and \<open>sp\<close> on the two pools. \<open>Double_Check\<close> states what
  makes a double check safe (\<open>double_checked\<close>): the slow path returns what is there, and what a lookup has found it goes on finding, if the key is
  stable; a NaN is a key that is not, as no lookup ever finds it. The two pools and the map of informers interpret it as \<open>vd\<close>, \<open>sd\<close> and \<open>nd\<close>.
  \<open>Locked_Pool\<close> joins the two contracts (\<open>locked_pool\<close>) and has the result on concurrent interning once for both pools, as \<open>vl\<close> and \<open>sl\<close>.

  \<^bold>\<open>Groups of lemmas.\<close> Store: the pools intern and resolve, decompose and reconstruct are inverse up to the meaning and share equal subtrees,
  collections keep exactly what is reachable, the counters count paths from the roots. LRU: refinement of a list in order of use. Indexer: the entries are those of the last objects.
  Informer: the store and the indexer mirror the replies and events of a whole run; no run is stuck or has a choice; the waits in closed form. Cache and clients: \<open>cache_inv\<close> and \<open>fleet_inv\<close>, the
  coherence of every LRU with the store, hold as long as only clients write, and every read then returns what the store holds; a write sends one request with what it was given, and drops the entries
  of its key, and no others, from every LRU (\<open>write_through\<close>, \<open>delete_all_of\<close>). An informer writes past the LRUs: \<open>stale_read\<close> shows what follows, and \<open>reads_fresh\<close> how stale a read can be.
  Systems: \<open>sys_inv\<close>, the store is the history and the indexer its informer part; a kind whose runs have ended after a first list is never informed again (\<open>kind_abandoned\<close>). Concurrency: racing calls are linearizable; reads never return what was not stored; two overlaps do harm
  (\<open>stale_fill\<close>, \<open>index_race\<close>), and without them (\<open>careful\<close>) the LRU and the indexer agree with the store once all calls have returned; without an LRU the cache is linearizable;
  no informer is lost between EnsureInformer and Start; the accesses of handleEvent are \<open>handleEvent\<close> when nothing comes between, and otherwise the handlers are told what was stored at some moment (\<open>handlers_told\<close>). Locks: every access
  is made under its mutex, no two accesses race, and some goroutine can always go on (\<open>locks_sound\<close>), which is why a critical section may be one step elsewhere. Memory: \<open>reconstruct\<close> builds its tree in new cells, a tree outside the reach of the callers stays what it is, and the accesses on references simulate those on values.

  \<^bold>\<open>Fuel.\<close> The recursive walks over nodes (reconstruct, incRef, decRef, the walk of GC) take fuel. The children of a node have smaller identifiers, so fuel above the identifier of the
  node is enough; the callers give the length of the pool, which is above every identifier, and \<open>walks_terminate\<close> proves that this returns. Run may go on for ever, so it is a relation of single steps.

  \<^bold>\<open>Parameters.\<close> Code outside the repository is an argument: the scheme, the converter and the accessors of objects (\<open>api_machinery\<close>), the answers of the API server (\<open>api_server\<close>,
  labels of \<open>run_step\<close>), the RESTMapper, the data of patches, \<open>DeepCopyInto\<close> on references (\<open>deep_copies\<close>, which \<open>copy_object_deep\<close> shows can hold), \<open>Unstructured.GetLabels\<close>, and the rendering of a float64 by \<open>fmt\<close>. Objects that come in are assumed to be trees whose maps
  have no key twice (\<open>tree_ok\<close>), which Go maps guarantee. Where a property needs the names under which the store files an object, the accessors are assumed to read the same namespace and name
  from what comes back from the store as from what went in (\<open>names_stable\<close>), and the objects of the history to hold what a JSON document can hold (\<open>json_event\<close>), as what the API server sends does. The functions of an index
  take no lock.

  \<^bold>\<open>Grain of concurrency.\<close> A critical section is one step, as its mutex makes it (\<open>Lock_Programs\<close>). In \<open>System\<close> a call of a client and the work of an informer between two blocking points are one step each; \<open>Races\<close>,
  \<open>Double_Check\<close>, \<open>Start_Race\<close> and \<open>Handler_Races\<close> split the calls that leave a lock and take another. A run of \<open>Races\<close> has a fixed list of calls and any schedule of them, and all of them return. In \<open>Handler_Races\<close> the others may move as often as they like; the rest of an event is always a bounded number of its own accesses.

  \<^bold>\<open>Not modelled.\<close> What the handlers do when they are called, Go's memory model beyond the absence of data races, and the fairness of the scheduler. Wall-clock time (\<open>GCStats.Duration\<close>, timers as
  instants), the texts of errors, the options of writes that the code never reads, and trivial accessors have no counterpart. Deep copies are identities but in \<open>Heap_Races\<close>; the converter for
  typed objects and the objects that handlers see, which come from the server, have no counterpart there. DeleteAllOf lists the keys and removes them one by one; its removals are writes of \<open>Races\<close>.
\<close>

section \<open>The whole program\<close>

text \<open>
  The properties of whole systems: a manager with any number of clients and informers.
\<close>

text \<open>
  C2 (refinement): the program is a map of objects. On a manager, after any interleaving of informer runs (lists, events, errors, reconnects, several runs of one informer), reads, lists, new clients and writes, a Get
  by any client returns what the history of the events of its GVK alone says: the object that the server reported or returned last, or not found when that was a deletion or nothing was reported.
\<close>

theorem system_reads:
  assumes "NewSharedStoreManager newScheme defaultMapper cfg dyn optFns = Inr (cc, fl0)" "sys_trace am (system_of fl0) h s"
    and "GVKForObject am obj = Inr g" "gvk_slash_free g" "slash_free ns"
  shows "returns (Client_Get am i ns name obj (sy_fleet s)) (\<lambda>(r, fl').
    case history_view am (filter (\<lambda>e. event_gvk e = g) h) \<lparr>key_gvk = g, key_namespace = ns, key_name = name\<rparr> of
      None \<Rightarrow> r = Inl (CCache (ObjectNotFound ns name))
    | Some u \<Rightarrow> (\<exists>w. sem (GMap w) = sem (GMap u) \<and>
        r = (case FromUnstructured am w obj of Inl e \<Rightarrow> Inl (CCache (CacheConversion e)) | Inr x \<Rightarrow> Inr x)))"
proof -
  from manager_new [OF assms(1)] have "quiet s" "sys_inv am h s"
    using sys_trace_tidy [OF assms(2)] sys_trace_inv [OF assms(2)] by (auto simp: quiet_def)
  from quiet_read [OF this assms(3-5) refl, of i name] show ?thesis
    using history_view_own [of am h "\<lparr>key_gvk = g, key_namespace = ns, key_name = name\<rparr>"] by simp
qed

theorem system_reads_witness:
  "\<exists>(fl0 :: unit fleet) s w. NewSharedStoreManager () () True None [] = Inr (with_defaults () () (run_options []), fl0) \<and>
     sys_trace sample_am (system_of fl0) listed_history s \<and>
     map_option fst (Client_Get sample_am 0 ''ns'' ''a'' (Unstr []) (sy_fleet s)) = Some (Inr (Unstr w)) \<and> sem (GMap w) = sem (GMap (pod ''n1''))"
proof -
  obtain fl0 :: "unit fleet" where fl0: "NewSharedStoreManager () () True None [] = Inr (with_defaults () () (run_options []), fl0)"
    "fl_cache fl0 = NewCache [] 0"
    by (auto simp: NewSharedStoreManager_def Let_def run_options_def defaultOptions_def)
  then have "fl_cache fl0 = with_indexes sample_am [] (NewCache [] 0)" "\<not> ca_started (fl_cache fl0)"
    by (simp_all add: with_indexes_def NewCache_def)
  from system_listed [OF this] obtain s where s: "sys_trace sample_am (system_of fl0) listed_history s" by blast
  have "filter (\<lambda>e. event_gvk e = core_gvk ''Pod'') listed_history = listed_history"
    by (simp add: listed_history_def event_gvk_def)
  with system_reads [OF fl0(1) s sample_gvk(1) sample_slash_free, of 0 "''a''" "Unstr []"] fl0(1) s show ?thesis
    by (auto simp: returns_iff listed_view pod_key_def simp del: sem.simps)
qed

text \<open>
  C17 (invariant): the store holds what informers and clients said, the indexer what the informers said. With any indexes registered before the start, after any history, the store holds the objects of the whole
  history, and Lookup finds exactly the objects of its informer part: an object that a client has written or deleted is indexed as the informers last reported it.
\<close>

theorem system_index:
  assumes "fl_cache fl0 = with_indexes am specs (NewCache namespaces n)" "sys_trace am (system_of fl0) h s"
  defines "idx \<equiv> cd_index (ca_cached (sy_cache s))"
  shows "(\<forall>key. cache_view (sy_cache s) key = map_option (\<lambda>u. sem (GMap u)) (history_view am h key)) \<and>
    set (Lookup g field v idx) =
      {key. \<exists>u. history_view am (filter informed h) key = Some u \<and> key_gvk key = g \<and>
        yields (cd_index (ca_cached (fl_cache fl0))) g field (Unstr u) v}"
proof -
  from sys_trace_inv [OF assms(2) sys_inv_new [OF assms(1)]]
  have H: "holds (ca_cached (sy_cache s)) (history_view am h) (index_view am h)" by (simp add: sys_inv_def)
  then have "index_inv idx" "reflects idx (\<lambda>key. map_option Unstr (index_view am h key))" by (simp_all add: holds_def idx_def)
  moreover have "yields idx = yields (cd_index (ca_cached (fl_cache fl0)))"
    using sys_trace_funcs [OF assms(2)] by (simp add: yields_def fun_eq_iff idx_def system_of_def)
  ultimately show ?thesis
    using H by (auto simp: holds_def reflects_def index_view_def Lookup_indexed)
qed

theorem system_index_witness:
  "\<exists>s. sys_trace sample_am (system_of sample_fleet0) listed_history s \<and>
     set (Lookup (core_gvk ''Pod'') ''all'' ''x'' (cd_index (ca_cached (sy_cache s)))) = {pod_key ''a''}"
proof -
  have fl0: "fl_cache sample_fleet0 = with_indexes sample_am sample_index (NewCache [] 0)" by (simp add: sample_fleet0_def)
  from system_listed [OF fl0] sample_index_started obtain s where s: "sys_trace sample_am (system_of sample_fleet0) listed_history s"
    by (auto simp: sample_fleet0_def)
  have "yields (cd_index (ca_cached (fl_cache sample_fleet0))) (core_gvk ''Pod'') ''all'' (Unstr u) ''x''" for u
    by (simp add: yields_def sample_fleet0_def with_indexes_def sample_index_def IndexField_def sample_gvk AddIndex_def NewCache_def empty_cached_def
        NewIndexer_def go_ensure_def go_mod_def)
  moreover have "filter informed listed_history = listed_history" by (simp add: listed_history_def)
  moreover have "key_gvk (pod_key ''a'') = core_gvk ''Pod''" by (simp add: pod_key_def)
  ultimately show ?thesis
    using system_index [OF fl0 s, of "core_gvk ''Pod''" "''all''" "''x''"] s by (auto simp: listed_view split: if_splits)
qed

text \<open>
  C22 (liveness): a synced cache is filled. When WaitForCacheSync returns true, every informer of the map has received a list; each object of that list is in the store, as the last item of the list under its key has it, unless
  a later event of an informer or of a client concerned it.
\<close>

theorem synced_cache_filled:
  assumes "fl_cache fl0 = with_indexes am specs (NewCache namespaces n)" "sys_trace am (system_of fl0) h s"
    and "WaitForCacheSync [(False, sy_informers s, ended)] = Some True" "go_get (sy_informers s) g = Some nf"
  shows "\<exists>h1 items rv h2. h = h1 @ [Informed g (ListReply (Inr (items, rv)))] @ h2 \<and>
    (\<forall>u\<in>set items. list_all (leaves am (store_key am g (Unstr u))) h2 \<longrightarrow>
      (\<exists>before v after. items = before @ v # after \<and> store_key am g (Unstr v) = store_key am g (Unstr u) \<and>
        list_all (\<lambda>w. store_key am g (Unstr w) \<noteq> store_key am g (Unstr u)) after \<and>
        cache_view (sy_cache s) (store_key am g (Unstr u)) = Some (sem (GMap v))))"
proof -
  from sys_trace_inv [OF assms(2) sys_inv_new [OF assms(1)]] have I: "sys_inv am h s" .
  from WaitForCacheSync_synced [OF assms(3)] assms(4) have "inf_hasSynced nf"
    by (auto simp: all_synced_def list_all_iff dest: map_of_SomeD)
  with I assms(4) have "\<exists>items rv. Informed g (ListReply (Inr (items, rv))) \<in> set h" by (simp add: sys_inv_def)
  then obtain items rv where "Informed g (ListReply (Inr (items, rv))) \<in> set h" by blast
  then obtain h1 h2 where h: "h = h1 @ [Informed g (ListReply (Inr (items, rv)))] @ h2" by (auto dest: split_list)
  have "\<exists>before v after. items = before @ v # after \<and> store_key am g (Unstr v) = store_key am g (Unstr u) \<and>
      list_all (\<lambda>w. store_key am g (Unstr w) \<noteq> store_key am g (Unstr u)) after \<and>
      cache_view (sy_cache s) (store_key am g (Unstr u)) = Some (sem (GMap v))"
    if "u \<in> set items" "list_all (leaves am (store_key am g (Unstr u))) h2" for u
    using history_view_listed [OF that(1), of h2 am g h1 rv] that(2) I
    by (auto simp: h sys_inv_def holds_def list_all_iff simp del: sem.simps)
  with h show ?thesis by blast
qed

theorem synced_cache_filled_witness:
  "\<exists>s. sys_trace sample_am (system_of sample_fleet0) listed_history s \<and> WaitForCacheSync [(False, sy_informers s, False)] = Some True \<and>
     go_get (sy_informers s) (core_gvk ''Pod'') \<noteq> None \<and> cache_view (sy_cache s) (pod_key ''a'') = Some (sem (GMap (pod ''n1'')))"
proof -
  have fl0: "fl_cache sample_fleet0 = with_indexes sample_am sample_index (NewCache [] 0)" by (simp add: sample_fleet0_def)
  from system_listed [OF fl0] sample_index_started obtain s nf where s: "sys_trace sample_am (system_of sample_fleet0) listed_history s"
    "WaitForCacheSync [(False, sy_informers s, False)] = Some True" "go_get (sy_informers s) (core_gvk ''Pod'') = Some nf"
    by (auto simp: sample_fleet0_def)
  from synced_cache_filled [OF fl0 s] obtain h1 items rv h2 where
    h: "listed_history = h1 @ [Informed (core_gvk ''Pod'') (ListReply (Inr (items, rv)))] @ h2"
    and stored: "\<forall>u\<in>set items. list_all (leaves sample_am (store_key sample_am (core_gvk ''Pod'') (Unstr u))) h2 \<longrightarrow>
      (\<exists>before v after. items = before @ v # after \<and> store_key sample_am (core_gvk ''Pod'') (Unstr v) = store_key sample_am (core_gvk ''Pod'') (Unstr u) \<and>
        list_all (\<lambda>w. store_key sample_am (core_gvk ''Pod'') (Unstr w) \<noteq> store_key sample_am (core_gvk ''Pod'') (Unstr u)) after \<and>
        cache_view (sy_cache s) (store_key sample_am (core_gvk ''Pod'') (Unstr u)) = Some (sem (GMap v)))" by blast
  from h have "items = [pod ''n1'']" "h2 = []" by (auto simp: listed_history_def Cons_eq_append_conv)
  with stored have "cache_view (sy_cache s) (pod_key ''a'') = Some (sem (GMap (pod ''n1'')))"
    by (auto simp: sample_key Cons_eq_append_conv simp del: sem.simps)
  with s show ?thesis by blast
qed

end
